(* ===== verification/Go_Prelude.thy ===== *)
theory Go_Prelude
  imports Main "HOL-Library.Word"
begin

unbundle bit_operations_syntax

text \<open>
  Shared vocabulary of the minegate development: the machine types of Go as words, the error
  values of \<^verbatim>\<open>src/internal/errors.go\<close>, the slice operations the code uses on byte buffers
  (indexed stores, \<^verbatim>\<open>copy\<close>, sub-slices), the big-endian codecs of \<^verbatim>\<open>encoding/binary\<close>,
  and the lemmas on bits, words and lists that the component theories rely on.

  A Go \<^verbatim>\<open>byte\<close> is an \<open>8 word\<close>, \<^verbatim>\<open>int32\<close> and \<^verbatim>\<open>uint32\<close> are both \<open>32 word\<close>
  (the conversion between them is the identity on bits; the signed reading is \<open>sint\<close>), and a
  Go string is the list of its bytes. Lengths are \<open>nat\<close>; where the code converts a length to
  \<^verbatim>\<open>int32\<close> the model applies \<open>word_of_nat\<close>, which wraps as Go does.
\<close>

named_theorems slice_simps \<open>equations for slice operations on concrete shapes\<close>

named_theorems wire_defs \<open>definitions of the wire codecs, for unfolding in component proofs\<close>

section \<open>Types\<close>

type_synonym byte = "8 word"
type_synonym u16 = "16 word"
type_synonym i32 = "32 word"
type_synonym i64 = "64 word"
type_synonym gostring = "byte list"

text \<open>
  The package-level error values of \<^verbatim>\<open>internal/errors.go\<close>, the two values of package
  \<^verbatim>\<open>io\<close> the code compares against, the errors of the operating system (\<open>NetErr\<close>, one per
  cause), and \<open>Panic\<close>, a run-time panic (index out of range, negative length, close of a closed
  channel), which is not an error value in Go but ends the call in the same way.
\<close>

datatype go_err =
    ErrPacketTooLarge | ErrInvalidPacketID | ErrConnectionClosed | ErrBufferOverflow
  | ErrCompressionFailed | ErrEncryptionFailed | ErrHandshakeFailed | ErrUnsupportedState
  | ErrPacketTooShort | ErrMalformedVarInt | ErrMalformedVarLong | ErrQueueFull
  | ErrQueueEmpty | ErrTimeout | ErrInvalidTransport | ErrProxyRejected
  | EOF | ErrUnexpectedEOF | ErrClosed | NetErr nat
  | Panic

text \<open>A fallible call returns its error on the left or its value on the right.\<close>

type_synonym 'a res = "go_err + 'a"

text \<open>The bytes of a string literal.\<close>

definition bytes_of :: "string \<Rightarrow> byte list" where
  "bytes_of s = map of_char s"

lemma length_bytes_of [simp]: "length (bytes_of s) = length s"
  by (simp add: bytes_of_def)

section \<open>Slices\<close>

text \<open>
  Consecutive indexed stores \<^verbatim>\<open>buf[0] = b0; ...; buf[k] = bk\<close> followed by
  \<^verbatim>\<open>return k+1\<close>: a panic when the buffer is too short.
\<close>

definition store :: "byte list \<Rightarrow> byte list \<Rightarrow> (byte list \<times> nat) res" where
  "store buf bs =
     (if length bs \<le> length buf then Inr (bs @ drop (length bs) buf, length bs) else Inl Panic)"

text \<open>\<^verbatim>\<open>copy(buf[n:], data)\<close>: as many bytes as fit, from offset \<open>n\<close> on.\<close>

definition copy_at :: "byte list \<Rightarrow> nat \<Rightarrow> byte list \<Rightarrow> byte list" where
  "copy_at buf n data =
     take n buf @ take (length buf - n) data @ drop (n + length data) buf"

lemma length_copy_at [simp]: "n \<le> length buf \<Longrightarrow> length (copy_at buf n data) = length buf"
  by (auto simp: copy_at_def)

lemma copy_at_fits:
  "n + length data \<le> length buf \<Longrightarrow>
   copy_at buf n data = take n buf @ data @ drop (n + length data) buf"
  by (simp add: copy_at_def)

text \<open>
  A store into the sub-slice \<^verbatim>\<open>buf[n:]\<close> is visible in \<open>buf\<close> itself: \<open>f\<close> is a function
  that fills a buffer and reports how many bytes it wrote.
\<close>

definition at_off ::
  "nat \<Rightarrow> (byte list \<Rightarrow> (byte list \<times> nat) res) \<Rightarrow> byte list \<Rightarrow> (byte list \<times> nat) res" where
  "at_off n f buf =
     (case f (drop n buf) of Inl e \<Rightarrow> Inl e | Inr (b, k) \<Rightarrow> Inr (take n buf @ b, k))"

lemma store_fits [slice_simps]:
  "length bs \<le> length buf \<Longrightarrow> store buf bs = Inr (bs @ drop (length bs) buf, length bs)"
  by (simp add: store_def)

lemma at_off_store [slice_simps]:
  "n + length bs \<le> length buf \<Longrightarrow>
   at_off n (\<lambda>b. store b bs) buf = Inr (take n buf @ bs @ drop (n + length bs) buf, length bs)"
  by (simp add: at_off_def store_def add.commute)

section \<open>Bits of a byte\<close>

lemma bit_byteD: "bit (b :: byte) n \<Longrightarrow> n < 8"
  by (drule bit_imp_le_length) simp

lemma bit_int_7F [simp]: "bit (0x7F :: int) n \<longleftrightarrow> n < 7"
proof -
  have "(0x7F :: int) = mask 7" by (simp add: mask_eq_exp_minus_1)
  then show ?thesis by (simp only: bit_mask_iff) simp
qed

lemma bit_int_80 [simp]: "bit (0x80 :: int) n \<longleftrightarrow> n = 7"
proof -
  have "(0x80 :: int) = 2 ^ 7" by simp
  then show ?thesis by (simp only: bit_exp_iff) simp
qed

lemma and_80_eq_0: "(b :: byte) AND 0x80 = 0 \<longleftrightarrow> \<not> bit b 7"
proof
  assume "b AND 0x80 = 0"
  then have "\<not> bit (b AND 0x80) 7" by simp
  then show "\<not> bit b 7" by (simp add: bit_and_iff)
qed (auto simp: bit_and_iff intro!: bit_word_eqI)

lemma word_xor_cancel [simp]: "(a XOR k) XOR k = (a :: 'a::len word)"
  by (rule bit_word_eqI) (auto simp: bit_xor_iff)

section \<open>Words and their size classes\<close>

lemma unat_drop_bit_less:
  assumes "drop_bit k u \<noteq> 0" and "0 < k"
  shows "unat (drop_bit k (u :: 'a::len word)) < unat u"
proof -
  have "0 < unat u" using assms(1) by (auto simp: unat_gt_0)
  moreover have "(1::nat) < 2 ^ k" using assms(2) by (rule one_less_power [rotated]) simp
  ultimately have "unat u div 2 ^ k < unat u"
    by (rule div_less_dividend [rotated])
  then show ?thesis
    by (simp only: unat_drop_bit_eq) (simp add: drop_bit_eq_div)
qed

lemma less_pow_drop_bit:
  "k < LENGTH('a) \<Longrightarrow> (u < 2 ^ k) = (drop_bit k (u :: 'a::len word) = 0)"
  using mask_eq_iff_w2p [of k u]
  by (simp add: word_size take_bit_eq_self_iff_drop_bit_eq_0 flip: take_bit_eq_mask)

text \<open>A length that fits a signed 32-bit integer survives the conversion to \<^verbatim>\<open>int32\<close>.\<close>

lemma unat_i32_of_nat: "n < 2 ^ 32 \<Longrightarrow> unat (word_of_nat n :: i32) = n"
  by (simp add: unat_of_nat)

lemma sint_i32_of_nat: "n < 2 ^ 31 \<Longrightarrow> sint (word_of_nat n :: i32) = int n"
  by (simp add: signed_of_nat signed_take_bit_int_eq_self)

section \<open>Big-endian codecs (\<^verbatim>\<open>encoding/binary\<close>)\<close>

text \<open>
  \<open>be_put k w\<close> are the \<open>k\<close> bytes that \<^verbatim>\<open>BigEndian.PutUint16/32/64\<close> stores for \<open>w\<close>,
  \<open>be_get\<close> is the value \<^verbatim>\<open>BigEndian.Uint16/32/64\<close> reads.
\<close>

fun be_put :: "nat \<Rightarrow> 'a::len word \<Rightarrow> byte list" where
  "be_put 0 w = []"
| "be_put (Suc k) w = be_put k (drop_bit 8 w) @ [ucast w]"

definition be_get :: "byte list \<Rightarrow> 'a::len word" where
  "be_get bs = foldl (\<lambda>acc b. push_bit 8 acc OR ucast b) 0 bs"

lemma length_be_put [simp]: "length (be_put k w) = k"
  by (induction k arbitrary: w) simp_all

lemma be_get_Nil [simp]: "be_get [] = 0"
  by (simp add: be_get_def)

lemma be_get_snoc [simp]: "be_get (bs @ [b]) = push_bit 8 (be_get bs) OR ucast b"
  by (simp add: be_get_def)

lemma be_get_be_put_take: "be_get (be_put k w) = take_bit (8 * k) (w :: 'a::len word)"
proof (induction k arbitrary: w)
  case 0
  then show ?case by simp
next
  case (Suc k)
  show ?case by (rule bit_word_eqI) (auto simp: Suc bit_simps)
qed

lemma be_get_be_put: "LENGTH('a) \<le> 8 * k \<Longrightarrow> be_get (be_put k w) = (w :: 'a::len word)"
  by (simp add: be_get_be_put_take take_bit_word_eq_self)

lemma bit_be_getD: "bit (be_get bs :: 'a::len word) n \<Longrightarrow> n < 8 * length bs"
proof (induction bs arbitrary: n rule: rev_induct)
  case Nil
  then show ?case by simp
next
  case (snoc b bs)
  from snoc.prems show ?case by (auto simp: bit_simps dest: snoc.IH bit_byteD)
qed

lemma be_put_be_get:
  "8 * length bs \<le> LENGTH('a::len) \<Longrightarrow> be_put (length bs) (be_get bs :: 'a word) = bs"
proof (induction bs rule: rev_induct)
  case Nil
  then show ?case by simp
next
  case (snoc b bs)
  let ?w = "push_bit 8 (be_get bs) OR ucast b :: 'a word"
  have d: "drop_bit 8 ?w = be_get bs"
  proof (rule bit_word_eqI)
    fix n assume "n < LENGTH('a)"
    from snoc.prems have l: "bit (be_get bs :: 'a word) n \<Longrightarrow> 8 + n < LENGTH('a)"
      by (auto dest!: bit_be_getD)
    show "bit (drop_bit 8 ?w) n = bit (be_get bs :: 'a word) n"
      by (auto simp: bit_simps dest: l bit_byteD)
  qed
  have l: "ucast ?w = b"
    using snoc.prems by (intro bit_word_eqI) (auto simp: bit_simps)
  from d l snoc show ?case by simp
qed

section \<open>Runs\<close>

text \<open>
  Concurrent parts of the program are step relations. \<open>reaches step s0 s\<close>: some number of steps lead from
  \<open>s0\<close> to \<open>s\<close>. The locale is the interface of a component to its invariant: it holds at the start and every
  step keeps it, so that it holds in every reachable state.
\<close>

inductive reaches :: "('s \<Rightarrow> 's \<Rightarrow> bool) \<Rightarrow> 's \<Rightarrow> 's \<Rightarrow> bool" for step s0 where
  reaches_refl: "reaches step s0 s0"
| reaches_step: "reaches step s0 s \<Longrightarrow> step s s' \<Longrightarrow> reaches step s0 s'"

locale step_invariant =
  fixes step :: "'s \<Rightarrow> 's \<Rightarrow> bool"
    and start :: "'s \<Rightarrow> bool"
    and inv :: "'s \<Rightarrow> bool"
  assumes inv_start: "start s \<Longrightarrow> inv s"
    and inv_step: "step s s' \<Longrightarrow> inv s \<Longrightarrow> inv s'"
begin

lemma inv_reaches:
  assumes "reaches step s0 s" and "start s0"
  shows "inv s"
  using assms(1)
proof induction
  case reaches_refl
  then show ?case by (rule inv_start [OF assms(2)])
next
  case (reaches_step s s')
  then show ?case using inv_step by blast
qed

end

end
