(* ===== verification/Metrics.thy ===== *)
theory Metrics
  imports Go_Prelude "HOL-Library.Signed_Division"
begin

text \<open>
  \<^verbatim>\<open>conn/metrics.go\<close>: counters, the latency average and the latency histogram of a connection. The
  counters are 64-bit words that wrap as \<^verbatim>\<open>atomic.Int64\<close> does; the division of the moving average
  truncates towards zero.
\<close>

section \<open>Model\<close>

record Metrics =
  PacketsRead :: i64
  PacketsWritten :: i64
  BytesRead :: i64
  BytesWritten :: i64
  ReadErrors :: i64
  WriteErrors :: i64
  DecodeErrors :: i64
  EncodeErrors :: i64
  DroppedPackets :: i64
  lastLatency :: i64
  averageLatency :: i64
  sampleCount :: i64
  latencyHist :: "i64 list"

definition zero_Metrics :: Metrics where
  "zero_Metrics = \<lparr>PacketsRead = 0, PacketsWritten = 0, BytesRead = 0, BytesWritten = 0, ReadErrors = 0,
     WriteErrors = 0, DecodeErrors = 0, EncodeErrors = 0, DroppedPackets = 0, lastLatency = 0,
     averageLatency = 0, sampleCount = 0, latencyHist = replicate 10 0\<rparr>"

definition RecordRead :: "int \<Rightarrow> Metrics \<Rightarrow> Metrics" where
  "RecordRead bytes m =
     m\<lparr>PacketsRead := PacketsRead m + 1, BytesRead := BytesRead m + word_of_int bytes\<rparr>"

definition RecordWrite :: "int \<Rightarrow> Metrics \<Rightarrow> Metrics" where
  "RecordWrite bytes m =
     m\<lparr>PacketsWritten := PacketsWritten m + 1, BytesWritten := BytesWritten m + word_of_int bytes\<rparr>"

text \<open>Go's \<^verbatim>\<open>/\<close> on \<^verbatim>\<open>int64\<close> truncates towards zero.\<close>

definition i64_div :: "i64 \<Rightarrow> i64 \<Rightarrow> i64" where
  "i64_div a b = word_of_int (sint a sdiv sint b)"

definition latency_bucket :: "i64 \<Rightarrow> nat" where
  "latency_bucket ns =
     (if sint ns < 1000 then 0
      else if sint ns < 10000 then 1
      else if sint ns < 100000 then 2
      else if sint ns < 1000000 then 3
      else if sint ns < 10000000 then 4
      else if sint ns < 100000000 then 5
      else if sint ns < 500000000 then 6
      else 7)"

definition RecordLatency :: "i64 \<Rightarrow> Metrics \<Rightarrow> Metrics" where
  "RecordLatency ns m =
     (let m = m\<lparr>lastLatency := ns\<rparr>;
          count = sampleCount m;
          m = (if count = 0 then m\<lparr>averageLatency := ns\<rparr>
               else let avg = averageLatency m
                    in m\<lparr>averageLatency := avg + i64_div (ns - avg) (count + 1)\<rparr>);
          m = m\<lparr>sampleCount := sampleCount m + 1\<rparr>;
          bucket = latency_bucket ns
      in m\<lparr>latencyHist := (latencyHist m)[bucket := latencyHist m ! bucket + 1]\<rparr>)"

definition Latency :: "Metrics \<Rightarrow> i64" where
  "Latency m = lastLatency m"

definition AverageLatency :: "Metrics \<Rightarrow> i64" where
  "AverageLatency m = averageLatency m"

definition LatencyHistogram :: "Metrics \<Rightarrow> i64 list" where
  "LatencyHistogram m = latencyHist m"

record MetricsSnapshot =
  ms_PacketsRead :: i64
  ms_PacketsWritten :: i64
  ms_BytesRead :: i64
  ms_BytesWritten :: i64
  ms_ReadErrors :: i64
  ms_WriteErrors :: i64
  ms_DroppedPackets :: i64
  ms_Latency :: i64
  ms_AverageLatency :: i64

definition Snapshot :: "Metrics \<Rightarrow> MetricsSnapshot" where
  "Snapshot m = \<lparr>ms_PacketsRead = PacketsRead m, ms_PacketsWritten = PacketsWritten m,
     ms_BytesRead = BytesRead m, ms_BytesWritten = BytesWritten m, ms_ReadErrors = ReadErrors m,
     ms_WriteErrors = WriteErrors m, ms_DroppedPackets = DroppedPackets m, ms_Latency = Latency m,
     ms_AverageLatency = AverageLatency m\<rparr>"

definition Metrics_Reset :: "Metrics \<Rightarrow> Metrics" where
  "Metrics_Reset m = m\<lparr>PacketsRead := 0, PacketsWritten := 0, BytesRead := 0, BytesWritten := 0,
     ReadErrors := 0, WriteErrors := 0, DecodeErrors := 0, EncodeErrors := 0, DroppedPackets := 0,
     lastLatency := 0, averageLatency := 0, sampleCount := 0,
     latencyHist := map (\<lambda>_. 0) (latencyHist m)\<rparr>"

record ConnMetrics =
  Inbound :: Metrics
  Outbound :: Metrics

definition NewConnMetrics :: ConnMetrics where
  "NewConnMetrics = \<lparr>Inbound = zero_Metrics, Outbound = zero_Metrics\<rparr>"

section \<open>The moving average\<close>

definition metrics_ok :: "Metrics \<Rightarrow> bool" where
  "metrics_ok m \<longleftrightarrow> length (latencyHist m) = 10 \<and> sum_list (latencyHist m) = sampleCount m"

lemma sum_list_incr:
  "i < length xs \<Longrightarrow> sum_list (xs[i := xs ! i + 1]) = sum_list xs + (1 :: i64)"
  by (induction xs arbitrary: i) (auto split: nat.splits simp: nth_Cons')

lemma latency_bucket_less: "latency_bucket ns < 8"
  by (simp add: latency_bucket_def)

lemma RecordLatency_ok: "metrics_ok m \<Longrightarrow> metrics_ok (RecordLatency ns m)"
  using latency_bucket_less [of ns]
  by (simp add: metrics_ok_def RecordLatency_def Let_def sum_list_incr)

lemma sdiv_between:
  fixes a n k :: int
  assumes "1 \<le> k"
  shows "min a n \<le> a + (n - a) sdiv k" and "a + (n - a) sdiv k \<le> max a n"
proof -
  have d: "0 \<le> y div k \<and> y div k \<le> y" if "0 \<le> y" for y
    using that assms zdiv_mono2 [of y 1 k] by (simp add: pos_imp_zdiv_nonneg_iff)
  have pos: "0 \<le> x sdiv k \<and> x sdiv k \<le> x" if "0 \<le> x" for x
    using that assms d [of x] by (cases "x = 0") (auto simp: signed_divide_int_def sgn_if)
  have neg: "x sdiv k \<le> 0 \<and> x \<le> x sdiv k" if "x < 0" for x
  proof -
    have "x sdiv k = - ((- x) div k)" using that assms by (simp add: signed_divide_int_def sgn_if)
    moreover have "0 \<le> (- x) div k" "(- x) div k \<le> - x"
      using that d [of "- x"] by auto
    ultimately show ?thesis by linarith
  qed
  have "min a n \<le> a + (n - a) sdiv k \<and> a + (n - a) sdiv k \<le> max a n"
    using pos [of "n - a"] neg [of "n - a"] by (cases "0 \<le> n - a") (auto simp: min_def max_def)
  then show "min a n \<le> a + (n - a) sdiv k" "a + (n - a) sdiv k \<le> max a n" by simp_all
qed

lemma sint_i64_of_int: "- (2 ^ 63) \<le> x \<Longrightarrow> x < 2 ^ 63 \<Longrightarrow> sint (word_of_int x :: i64) = x"
  by (simp add: signed_of_int signed_take_bit_int_eq_self)

text \<open>Samples between \<open>lo\<close> and \<open>hi\<close>, and the state after \<open>n\<close> of them.\<close>

definition avg_inv :: "int \<Rightarrow> int \<Rightarrow> nat \<Rightarrow> Metrics \<Rightarrow> bool" where
  "avg_inv lo hi n m \<longleftrightarrow> metrics_ok m \<and> sampleCount m = word_of_nat n \<and>
     (0 < n \<longrightarrow> lo \<le> sint (averageLatency m) \<and> sint (averageLatency m) \<le> hi)"

lemma avg_inv_step:
  assumes "avg_inv lo hi n m" and "0 \<le> lo" "hi < 2 ^ 62" and "lo \<le> sint ns" "sint ns \<le> hi"
    and "Suc n < 2 ^ 62"
  shows "avg_inv lo hi (Suc n) (RecordLatency ns m)"
proof -
  have ok: "metrics_ok (RecordLatency ns m)" using assms(1) by (simp add: avg_inv_def RecordLatency_ok)
  have cnt: "sampleCount (RecordLatency ns m) = word_of_nat (Suc n)"
    using assms(1) by (simp add: avg_inv_def RecordLatency_def Let_def)
  have z: "(word_of_nat n :: i64) = 0 \<longleftrightarrow> n = 0"
  proof -
    have "n < 2 ^ 64" using assms(6) by simp
    then have u: "unat (word_of_nat n :: i64) = n" by (simp add: unat_of_nat)
    show ?thesis
    proof
      assume "(word_of_nat n :: i64) = 0"
      then have "unat (word_of_nat n :: i64) = 0" by (simp only: unat_0)
      then show "n = 0" by (simp only: u)
    qed simp
  qed
  show ?thesis
  proof (cases "n = 0")
    case True
    with z assms(1,4,5) ok cnt show ?thesis
      by (simp add: avg_inv_def RecordLatency_def Let_def)
  next
    case False
    let ?a = "sint (averageLatency m)" and ?x = "sint ns"
    have a: "lo \<le> ?a" "?a \<le> hi" using assms(1) False by (auto simp: avg_inv_def)
    have "ns - averageLatency m = word_of_int (?x - ?a)" by simp
    then have d: "sint (ns - averageLatency m) = ?x - ?a"
      using sint_i64_of_int [of "?x - ?a"] a assms(2-5) by simp
    have c: "sint (word_of_nat n + 1 :: i64) = int n + 1"
    proof -
      have "word_of_nat n + 1 = (word_of_int (int n + 1) :: i64)" by simp
      then show ?thesis using sint_i64_of_int [of "int n + 1"] assms(6) by simp
    qed
    let ?q = "(?x - ?a) sdiv (int n + 1)"
    have b: "min ?a ?x \<le> ?a + ?q" "?a + ?q \<le> max ?a ?x" by (rule sdiv_between; simp)+
    have "averageLatency (RecordLatency ns m) = averageLatency m + word_of_int ?q"
      using False z assms(1) d c by (simp add: avg_inv_def RecordLatency_def Let_def i64_div_def)
    also have "\<dots> = word_of_int (?a + ?q)" by simp
    finally have "sint (averageLatency (RecordLatency ns m)) = ?a + ?q"
      using sint_i64_of_int [of "?a + ?q"] a b assms(2-5) by (simp add: min_def max_def split: if_splits)
    with ok cnt a b assms(4,5) show ?thesis
      by (auto simp: avg_inv_def min_def max_def split: if_splits)
  qed
qed

lemma avg_inv_fold:
  assumes "avg_inv lo hi n m" and "0 \<le> lo" "hi < 2 ^ 62" and "\<forall>ns \<in> set xs. lo \<le> sint ns \<and> sint ns \<le> hi"
    and "n + length xs < 2 ^ 62"
  shows "avg_inv lo hi (n + length xs) (fold RecordLatency xs m)"
  using assms
proof (induction xs arbitrary: n m)
  case (Cons x xs)
  then have "avg_inv lo hi (Suc n) (RecordLatency x m)" by (intro avg_inv_step) auto
  with Cons.IH [of "Suc n" "RecordLatency x m"] Cons.prems show ?case by simp
qed simp

section \<open>Properties\<close>



end
