(* ===== verification/Go_IO.thy ===== *)
theory Go_IO
  imports Go_Prelude
begin

text \<open>
  The two interfaces of package \<^verbatim>\<open>io\<close> that every component talks through, and their contracts
  as locales.

  A reader is a record of the two operations the code uses: \<^verbatim>\<open>ReadByte\<close>
  (\<^verbatim>\<open>io.ByteReader\<close>) and \<^verbatim>\<open>io.ReadFull(r, buf)\<close> for a buffer of \<open>n\<close> bytes; \<open>Partial\<close> are
  the bytes a failing \<^verbatim>\<open>ReadFull\<close> has stored in the buffer by then. A writer is
  its \<^verbatim>\<open>Write\<close> method, which returns the number of bytes accepted and an error. The locale
  \<open>byte_source\<close> says that a reader delivers a fixed sequence of bytes and then a fixed
  error; \<open>byte_sink\<close> is the contract documented for \<^verbatim>\<open>io.Writer\<close>. Both are
  interpreted here on a network connection and, in later theories, on the program's own
  \<^verbatim>\<open>internal.ByteReader\<close> and \<^verbatim>\<open>conn.BatchWriter\<close>.

  \<open>ReadAtLeast_loop\<close> is the loop of \<^verbatim>\<open>io.ReadFull\<close> over an arbitrary
  \<^verbatim>\<open>Read\<close> method. It need not return (a reader may deliver nothing and no error for ever), so
  it is a partial function; the theorems that rely on it prove that it returns.
\<close>

section \<open>Readers\<close>

record 'r reader =
  ReadByte :: "'r \<Rightarrow> byte res \<times> 'r"
  ReadFull :: "nat \<Rightarrow> 'r \<Rightarrow> byte list res \<times> 'r"
  Partial :: "nat \<Rightarrow> 'r \<Rightarrow> byte list"

text \<open>
  What \<^verbatim>\<open>io.ReadFull\<close> reports when the source ends with error \<open>e\<close> after some but not all of
  the bytes: end of file in the middle of a read is \<^verbatim>\<open>io.ErrUnexpectedEOF\<close>.
\<close>

definition short_err :: "go_err \<Rightarrow> go_err" where
  "short_err e = (if e = EOF then ErrUnexpectedEOF else e)"

text \<open>
  \<open>rd\<close> is a \<^verbatim>\<open>Read\<close> method: given the buffer size it returns the bytes stored, an optional
  error, and the new state.
\<close>

partial_function (option) ReadAtLeast_loop ::
  "(nat \<Rightarrow> 'r \<Rightarrow> (byte list \<times> go_err option) \<times> 'r) \<Rightarrow> nat \<Rightarrow> byte list \<Rightarrow> 'r
     \<Rightarrow> (byte list res \<times> 'r) option" where
  "ReadAtLeast_loop rd want acc r =
     (if want \<le> length acc then Some (Inr acc, r)
      else case rd (want - length acc) r of
        ((bs, None), r') \<Rightarrow> ReadAtLeast_loop rd want (acc @ bs) r'
      | ((bs, Some e), r') \<Rightarrow>
          Some (if want \<le> length (acc @ bs) then Inr (acc @ bs)
                else Inl (if acc @ bs = [] then e else short_err e), r'))"

definition io_ReadFull ::
  "(nat \<Rightarrow> 'r \<Rightarrow> (byte list \<times> go_err option) \<times> 'r) \<Rightarrow> nat \<Rightarrow> 'r
     \<Rightarrow> (byte list res \<times> 'r) option" where
  "io_ReadFull rd n r = ReadAtLeast_loop rd n [] r"

locale byte_source =
  fixes R :: "'r reader"
    and content :: "'r \<Rightarrow> byte list"
    and stop :: "'r \<Rightarrow> go_err"
  assumes ReadByte_some:
      "content r = b # bs \<Longrightarrow>
         fst (ReadByte R r) = Inr b \<and> content (snd (ReadByte R r)) = bs \<and>
         stop (snd (ReadByte R r)) = stop r"
    and ReadByte_none:
      "content r = [] \<Longrightarrow>
         fst (ReadByte R r) = Inl (stop r) \<and> content (snd (ReadByte R r)) = [] \<and>
         stop (snd (ReadByte R r)) = stop r"
    and ReadFull_some:
      "n \<le> length (content r) \<Longrightarrow>
         fst (ReadFull R n r) = Inr (take n (content r)) \<and>
         content (snd (ReadFull R n r)) = drop n (content r) \<and>
         stop (snd (ReadFull R n r)) = stop r"
    and ReadFull_short:
      "length (content r) < n \<Longrightarrow>
         fst (ReadFull R n r) = Inl (if content r = [] then stop r else short_err (stop r)) \<and>
         content (snd (ReadFull R n r)) = [] \<and>
         stop (snd (ReadFull R n r)) = stop r"
    and Partial_short: "length (content r) < n \<Longrightarrow> Partial R n r = content r"
begin

lemma ReadByte_cons_obtain:
  assumes "content r = b # bs"
  obtains r' where "ReadByte R r = (Inr b, r')" "content r' = bs" "stop r' = stop r"
  using ReadByte_some [OF assms] by (cases "ReadByte R r") auto

lemma ReadByte_nil_obtain:
  assumes "content r = []"
  obtains r' where "ReadByte R r = (Inl (stop r), r')" "content r' = []" "stop r' = stop r"
  using ReadByte_none [OF assms] by (cases "ReadByte R r") auto

lemma ReadFull_append_obtain:
  assumes "content r = xs @ ys" and "n = length xs"
  obtains r' where "ReadFull R n r = (Inr xs, r')" "content r' = ys" "stop r' = stop r"
  using ReadFull_some [of n r] assms by (cases "ReadFull R n r") auto

lemma ReadFull_short_obtain:
  assumes "length (content r) < n"
  obtains r' where
    "ReadFull R n r = (Inl (if content r = [] then stop r else short_err (stop r)), r')"
    "content r' = []" "stop r' = stop r"
  using ReadFull_short [OF assms] by (cases "ReadFull R n r") auto

end

section \<open>A connection as a source\<close>

text \<open>
  The receiving side of a connection: the bytes the peer still delivers and the error that
  follows them (\<^verbatim>\<open>io.EOF\<close> after an orderly close).
\<close>

record inconn =
  pending :: "byte list"
  fin :: go_err

definition conn_ReadByte :: "inconn \<Rightarrow> byte res \<times> inconn" where
  "conn_ReadByte c =
     (case pending c of [] \<Rightarrow> (Inl (fin c), c) | b # bs \<Rightarrow> (Inr b, c\<lparr>pending := bs\<rparr>))"

definition conn_ReadFull :: "nat \<Rightarrow> inconn \<Rightarrow> byte list res \<times> inconn" where
  "conn_ReadFull n c =
     (if n \<le> length (pending c)
      then (Inr (take n (pending c)), c\<lparr>pending := drop n (pending c)\<rparr>)
      else (Inl (if pending c = [] then fin c else short_err (fin c)), c\<lparr>pending := []\<rparr>))"

definition conn_reader :: "inconn reader" where
  "conn_reader = \<lparr>ReadByte = conn_ReadByte, ReadFull = conn_ReadFull,
     Partial = (\<lambda>n c. take n (pending c))\<rparr>"

interpretation conn_src: byte_source conn_reader pending fin
  by unfold_locales
    (auto simp: conn_reader_def conn_ReadByte_def conn_ReadFull_def split: list.splits)

text \<open>
  The \<^verbatim>\<open>Read\<close> method of a connection delivers its bytes in pieces whose sizes the network
  chooses: \<open>piece\<close> gives the size of the next piece. However it cuts them, \<^verbatim>\<open>io.ReadFull\<close>
  returns, and returns what \<open>conn_ReadFull\<close> says.
\<close>

definition conn_Read ::
  "(nat \<Rightarrow> inconn \<Rightarrow> nat) \<Rightarrow> nat \<Rightarrow> inconn \<Rightarrow> (byte list \<times> go_err option) \<times> inconn" where
  "conn_Read piece n c =
     (if pending c = [] then (([], Some (fin c)), c)
      else let k = max 1 (min n (piece n c))
           in ((take k (pending c), None), c\<lparr>pending := drop k (pending c)\<rparr>))"

lemma ReadAtLeast_loop_conn:
  assumes "length acc \<le> n"
  shows "ReadAtLeast_loop (conn_Read piece) n acc c =
    Some (if n \<le> length acc + length (pending c)
          then (Inr (acc @ take (n - length acc) (pending c)),
                c\<lparr>pending := drop (n - length acc) (pending c)\<rparr>)
          else (Inl (if acc @ pending c = [] then fin c else short_err (fin c)),
                c\<lparr>pending := []\<rparr>))"
  using assms
proof (induction "n - length acc" arbitrary: acc c rule: less_induct)
  case less
  show ?case
  proof (cases "n = length acc \<or> pending c = []")
    case True
    with less.prems show ?thesis
      by (auto simp: ReadAtLeast_loop.simps [of _ _ acc] conn_Read_def)
  next
    case False
    define k where "k = max 1 (min (n - length acc) (piece (n - length acc) c))"
    let ?bs = "take k (pending c)" and ?c = "c\<lparr>pending := drop k (pending c)\<rparr>"
    from False less.prems have n: "length acc < n" and p: "0 < length (pending c)" by auto
    then have k: "1 \<le> k" "k \<le> n - length acc" by (auto simp: k_def)
    have step: "ReadAtLeast_loop (conn_Read piece) n acc c =
        ReadAtLeast_loop (conn_Read piece) n (acc @ ?bs) ?c"
      using n p by (subst ReadAtLeast_loop.simps) (simp add: conn_Read_def Let_def k_def)
    have m: "0 < length ?bs" "length ?bs \<le> n - length acc" using p k by auto
    have dec: "n - length (acc @ ?bs) < n - length acc" and le: "length (acc @ ?bs) \<le> n"
      unfolding length_append using n m by linarith+
    show ?thesis
      unfolding step less.hyps [OF dec le] using k p
      by (auto simp: take_add [symmetric] min_def ac_simps simp flip: take_add)
  qed
qed

theorem io_ReadFull_conn: "io_ReadFull (conn_Read piece) n c = Some (conn_ReadFull n c)"
  by (simp add: io_ReadFull_def ReadAtLeast_loop_conn conn_ReadFull_def)

section \<open>Writers\<close>

type_synonym 'w writer = "byte list \<Rightarrow> 'w \<Rightarrow> (nat \<times> go_err option) \<times> 'w"

text \<open>
  The contract of \<^verbatim>\<open>io.Writer\<close>: \<^verbatim>\<open>Write\<close> passes on a prefix of its argument and returns its
  length, and it returns an error whenever it stops early. \<open>written\<close> is everything passed on so
  far, \<open>ok\<close> the writer's own invariant.
\<close>

locale byte_sink =
  fixes W :: "'w writer"
    and written :: "'w \<Rightarrow> byte list"
    and ok :: "'w \<Rightarrow> bool"
  assumes write_prefix:
      "ok w \<Longrightarrow> W bs w = ((n, e), w') \<Longrightarrow>
         n \<le> length bs \<and> written w' = written w @ take n bs \<and> ok w'"
    and write_complete: "ok w \<Longrightarrow> W bs w = ((n, None), w') \<Longrightarrow> n = length bs"
begin

lemma write_all:
  "ok w \<Longrightarrow> W bs w = ((n, None), w') \<Longrightarrow> written w' = written w @ bs \<and> ok w' \<and> n = length bs"
  using write_prefix [of w bs n None w'] write_complete [of w bs n w'] by simp

end

text \<open>
  The sending side of a connection: the bytes handed to the network, and how many more it takes
  before it fails with \<open>ofail\<close> (\<open>None\<close>: it never fails).
\<close>

record outconn =
  sent :: "byte list"
  room :: "nat option"
  ofail :: go_err

definition conn_Write :: "outconn writer" where
  "conn_Write bs c =
     (case room c of
        None \<Rightarrow> ((length bs, None), c\<lparr>sent := sent c @ bs\<rparr>)
      | Some k \<Rightarrow>
          if length bs \<le> k
          then ((length bs, None), c\<lparr>sent := sent c @ bs, room := Some (k - length bs)\<rparr>)
          else ((k, Some (ofail c)), c\<lparr>sent := sent c @ take k bs, room := Some 0\<rparr>))"

interpretation conn_snk: byte_sink conn_Write sent "\<lambda>_. True"
  by unfold_locales (auto simp: conn_Write_def split: option.splits if_splits)

end
