(* ===== verification/Internal_Helpers.thy ===== *)
theory Internal_Helpers
  imports Go_IO
begin

text \<open>
  Package \<^verbatim>\<open>internal\<close>: the channel-backed buffer pool (\<^verbatim>\<open>pool.go\<close>), the byte-slice reader
  (\<^verbatim>\<open>reader.go\<close>) and the resynchronisation helper (\<^verbatim>\<open>varint.go\<close>).

  The pool hands out memory that still holds what its last user left there, and it is sound only
  while every buffer has one owner. The model therefore keeps both the identity and the contents
  of every backing array: a \<open>slice\<close> is the array's identity, the visible bytes
  \<^verbatim>\<open>b[:len]\<close> and the bytes \<^verbatim>\<open>b[len:cap]\<close> behind them.
\<close>

section \<open>Constants of \<^verbatim>\<open>pool.go\<close>\<close>

definition DefaultBufferSize :: int where "DefaultBufferSize = 1024"
definition MaxPacketSize :: int where "MaxPacketSize = 0x200000"
definition MaxCompressedSize :: int where "MaxCompressedSize = 0x200000"
definition BufferPoolMax :: int where "BufferPoolMax = 0x100000"
definition bufPool_cap :: nat where "bufPool_cap = 64"

section \<open>The buffer pool\<close>

record slice =
  sid :: nat
  vis :: "byte list"
  hid :: "byte list"

definition cap :: "slice \<Rightarrow> nat" where
  "cap s = length (vis s) + length (hid s)"

text \<open>
  The pool is the content of the channel \<^verbatim>\<open>bufPool\<close>, oldest first, each entry with its backing
  array; \<open>next_sid\<close> is the identity the allocator gives to the next array.
\<close>

record pool =
  chan :: "(nat \<times> byte list) list"
  next_sid :: nat

text \<open>\<^verbatim>\<open>make([]byte, sz)\<close>: zeroed, and a panic when the sz is negative.\<close>

definition make_slice :: "pool \<Rightarrow> int \<Rightarrow> (slice \<times> pool) res" where
  "make_slice p sz =
     (if sz < 0 then Inl Panic
      else Inr (\<lparr>sid = next_sid p, vis = replicate (nat sz) 0, hid = []\<rparr>,
                p\<lparr>next_sid := Suc (next_sid p)\<rparr>))"

definition GetBuffer :: "pool \<Rightarrow> int \<Rightarrow> (slice \<times> pool) res" where
  "GetBuffer p sz =
     (if sz > BufferPoolMax then make_slice p sz
      else case chan p of
        [] \<Rightarrow> make_slice p sz
      | (i, b) # rest \<Rightarrow>
          if int (length b) \<ge> sz
          then (if sz < 0 then Inl Panic
                else Inr (\<lparr>sid = i, vis = take (nat sz) b, hid = drop (nat sz) b\<rparr>,
                          p\<lparr>chan := rest\<rparr>))
          else make_slice (p\<lparr>chan := rest\<rparr>) sz)"

definition PutBuffer :: "pool \<Rightarrow> slice \<Rightarrow> pool" where
  "PutBuffer p s =
     (if int (cap s) > BufferPoolMax \<or> cap s = 0 then p
      else if length (chan p) < bufPool_cap
           then p\<lparr>chan := chan p @ [(sid s, vis s @ hid s)]\<rparr>
           else p)"

text \<open>
  \<^verbatim>\<open>PooledBuffer\<close> is a nullable handle on a pooled slice: \<^verbatim>\<open>Release\<close> returns it to the pool
  once and clears the handle.
\<close>

definition NewPooledBuffer :: "pool \<Rightarrow> int \<Rightarrow> (slice option \<times> pool) res" where
  "NewPooledBuffer p sz =
     (case GetBuffer p sz of Inl e \<Rightarrow> Inl e | Inr (s, p') \<Rightarrow> Inr (Some s, p'))"

definition PooledBuffer_Release :: "pool \<Rightarrow> slice option \<Rightarrow> slice option \<times> pool" where
  "PooledBuffer_Release p h = (case h of Some s \<Rightarrow> (None, PutBuffer p s) | None \<Rightarrow> (None, p))"

subsection \<open>The ownership invariant\<close>

text \<open>
  No array is in the channel twice, the arrays there are allocated and poolable, and the channel
  respects its capacity. A slice is \<open>owned\<close> when its array is allocated and not in the channel:
  nobody else can be given it.
\<close>

definition pool_ok :: "pool \<Rightarrow> bool" where
  "pool_ok p \<longleftrightarrow>
     distinct (map fst (chan p)) \<and> (\<forall>(i, b) \<in> set (chan p). i < next_sid p) \<and>
     (\<forall>(i, b) \<in> set (chan p). 0 < length b \<and> int (length b) \<le> BufferPoolMax) \<and>
     length (chan p) \<le> bufPool_cap"

definition owned :: "pool \<Rightarrow> nat \<Rightarrow> bool" where
  "owned p i \<longleftrightarrow> i < next_sid p \<and> i \<notin> fst ` set (chan p)"

lemma make_slice_spec:
  "make_slice p sz = Inr (s, p') \<Longrightarrow>
     0 \<le> sz \<and> sid s = next_sid p \<and> vis s = replicate (nat sz) 0 \<and> hid s = [] \<and>
     p' = p\<lparr>next_sid := Suc (next_sid p)\<rparr>"
  by (auto simp: make_slice_def split: if_splits)

lemma GetBuffer_length:
  "GetBuffer p sz = Inr (s, p') \<Longrightarrow> 0 \<le> sz \<and> length (vis s) = nat sz"
  by (auto simp: GetBuffer_def dest!: make_slice_spec split: if_splits list.splits)

lemma GetBuffer_nonneg: "0 \<le> sz \<Longrightarrow> \<exists>s p'. GetBuffer p sz = Inr (s, p')"
  by (auto simp: GetBuffer_def make_slice_def split: list.splits)

lemma GetBuffer_obtain:
  assumes "0 \<le> sz"
  obtains s p' where "GetBuffer p sz = Inr (s, p')" "length (vis s) = nat sz"
  using GetBuffer_nonneg [OF assms, of p] GetBuffer_length by blast

lemma pool_ok_pop:
  assumes "pool_ok p" and "chan p = (i, b) # rest"
  shows "pool_ok (p\<lparr>chan := rest\<rparr>)" and "owned (p\<lparr>chan := rest\<rparr>) i"
  using assms by (auto simp: pool_ok_def owned_def)

lemma pool_ok_make:
  assumes "pool_ok p"
  shows "pool_ok (p\<lparr>next_sid := Suc (next_sid p)\<rparr>)"
    and "owned (p\<lparr>next_sid := Suc (next_sid p)\<rparr>) (next_sid p)"
  using assms by (fastforce simp: pool_ok_def owned_def)+

text \<open>A buffer is fresh, or fresh after a too small pooled one was discarded, or a pooled one.\<close>

lemma GetBuffer_cases [consumes 1, case_names fresh discarded reused]:
  assumes "GetBuffer p sz = Inr (s, p')"
  obtains "make_slice p sz = Inr (s, p')"
  | i b rest where "chan p = (i, b) # rest" "make_slice (p\<lparr>chan := rest\<rparr>) sz = Inr (s, p')"
  | i b rest where "chan p = (i, b) # rest" "sid s = i" "p' = p\<lparr>chan := rest\<rparr>"
  using assms by (auto simp: GetBuffer_def split: if_splits list.splits)

text \<open>Taking a buffer keeps the invariant and makes the caller its only owner.\<close>

lemma GetBuffer_ok:
  assumes ok: "pool_ok p" and get: "GetBuffer p sz = Inr (s, p')"
  shows "pool_ok p' \<and> owned p' (sid s)"
  using get
proof (cases rule: GetBuffer_cases)
  case fresh
  from make_slice_spec [OF this] show ?thesis using pool_ok_make [OF ok] by simp
next
  case (discarded i b rest)
  from make_slice_spec [OF discarded(2)] show ?thesis
    using pool_ok_make [OF pool_ok_pop(1) [OF ok discarded(1)]] by simp
next
  case (reused i b rest)
  then show ?thesis using pool_ok_pop [OF ok reused(1)] by simp
qed

text \<open>Buffers other callers own stay theirs.\<close>

lemma GetBuffer_keeps_owned:
  assumes own: "owned p j" and get: "GetBuffer p sz = Inr (s, p')"
  shows "owned p' j \<and> sid s \<noteq> j"
  using get
proof (cases rule: GetBuffer_cases)
  case fresh
  from make_slice_spec [OF this] show ?thesis using own by (auto simp: owned_def)
next
  case (discarded i b rest)
  from make_slice_spec [OF discarded(2)] show ?thesis
    using own discarded(1) by (auto simp: owned_def)
next
  case (reused i b rest)
  then show ?thesis using own by (auto simp: owned_def)
qed

lemma PutBuffer_ok:
  "pool_ok p \<Longrightarrow> owned p (sid s) \<Longrightarrow> pool_ok (PutBuffer p s)"
  by (auto simp: pool_ok_def owned_def PutBuffer_def cap_def bufPool_cap_def)

lemma PutBuffer_keeps_owned:
  "owned p j \<Longrightarrow> sid s \<noteq> j \<Longrightarrow> owned (PutBuffer p s) j"
  by (auto simp: owned_def PutBuffer_def)

text \<open>
  The pool's contract as the clients use it: \<open>inv\<close> is the pool's invariant, \<open>own\<close> ownership
  of an array. The client law proved in the locale is that borrowing a buffer, writing to it and
  returning it keeps the invariant and takes nothing from anybody else.
\<close>

locale buffer_pool =
  fixes get :: "'p \<Rightarrow> int \<Rightarrow> (slice \<times> 'p) res"
    and put :: "'p \<Rightarrow> slice \<Rightarrow> 'p"
    and inv :: "'p \<Rightarrow> bool"
    and own :: "'p \<Rightarrow> nat \<Rightarrow> bool"
  assumes get_inv: "inv p \<Longrightarrow> get p n = Inr (s, p') \<Longrightarrow> inv p'"
    and get_own: "inv p \<Longrightarrow> get p n = Inr (s, p') \<Longrightarrow> own p' (sid s)"
    and get_frame: "own p j \<Longrightarrow> get p n = Inr (s, p') \<Longrightarrow> own p' j \<and> sid s \<noteq> j"
    and get_len: "get p n = Inr (s, p') \<Longrightarrow> length (vis s) = nat n"
    and get_total: "0 \<le> n \<Longrightarrow> \<exists>s p'. get p n = Inr (s, p')"
    and put_inv: "inv p \<Longrightarrow> own p (sid s) \<Longrightarrow> inv (put p s)"
    and put_frame: "own p j \<Longrightarrow> sid s \<noteq> j \<Longrightarrow> own (put p s) j"
begin

lemma borrow:
  assumes "inv p" and "get p n = Inr (s, p')" and "sid s' = sid s"
  shows "inv (put p' s')" and "own p j \<Longrightarrow> own (put p' s') j"
proof -
  from assms show "inv (put p' s')"
    using get_inv get_own put_inv by metis
  assume "own p j"
  with assms show "own (put p' s') j"
    using get_frame put_frame by metis
qed

end

interpretation bufs: buffer_pool GetBuffer PutBuffer pool_ok owned
  by unfold_locales
    (auto dest: GetBuffer_ok GetBuffer_keeps_owned GetBuffer_length
      intro: GetBuffer_nonneg PutBuffer_ok PutBuffer_keeps_owned)

section \<open>\<^verbatim>\<open>ByteReader\<close>\<close>

record ByteReader =
  br_data :: "byte list"
  br_pos :: nat

definition NewByteReader :: "byte list \<Rightarrow> ByteReader" where
  "NewByteReader data = \<lparr>br_data = data, br_pos = 0\<rparr>"

definition ByteReader_ReadByte :: "ByteReader \<Rightarrow> byte res \<times> ByteReader" where
  "ByteReader_ReadByte br =
     (if br_pos br \<ge> length (br_data br) then (Inl EOF, br)
      else (Inr (br_data br ! br_pos br), br\<lparr>br_pos := br_pos br + 1\<rparr>))"

definition ByteReader_Read ::
  "nat \<Rightarrow> ByteReader \<Rightarrow> (byte list \<times> go_err option) \<times> ByteReader" where
  "ByteReader_Read n br =
     (if br_pos br \<ge> length (br_data br) then (([], Some EOF), br)
      else let bs = take n (drop (br_pos br) (br_data br))
           in ((bs, None), br\<lparr>br_pos := br_pos br + length bs\<rparr>))"

text \<open>
  \<^verbatim>\<open>io.ReadFull\<close> over \<^verbatim>\<open>ByteReader.Read\<close>. The loop returns on every input
  (\<open>ByteReader_ReadFull_returns\<close>), so the last branch is never taken.
\<close>

definition ByteReader_ReadFull :: "nat \<Rightarrow> ByteReader \<Rightarrow> byte list res \<times> ByteReader" where
  "ByteReader_ReadFull n br =
     (case io_ReadFull ByteReader_Read n br of Some x \<Rightarrow> x | None \<Rightarrow> (Inl Panic, br))"

definition br_content :: "ByteReader \<Rightarrow> byte list" where
  "br_content br = drop (br_pos br) (br_data br)"

definition ByteReader_reader :: "ByteReader reader" where
  "ByteReader_reader = \<lparr>ReadByte = ByteReader_ReadByte, ReadFull = ByteReader_ReadFull,
     Partial = (\<lambda>n br. take n (br_content br))\<rparr>"

lemma ByteReader_Read_content:
  "br_content br = [] \<Longrightarrow> ByteReader_Read n br = (([], Some EOF), br)"
  "br_content br \<noteq> [] \<Longrightarrow>
     ByteReader_Read n br =
       ((take n (br_content br), None), br\<lparr>br_pos := br_pos br + min n (length (br_content br))\<rparr>)"
  by (auto simp: ByteReader_Read_def br_content_def Let_def min.commute)

lemma br_content_advance [simp]:
  "br_content (br\<lparr>br_pos := br_pos br + k\<rparr>) = drop k (br_content br)"
  by (simp add: br_content_def add.commute)

text \<open>The first read takes what there is; if that was not enough, the second one meets EOF.\<close>

lemma ByteReader_ReadFull_returns:
  "io_ReadFull ByteReader_Read n br =
     Some (if n \<le> length (br_content br)
           then (Inr (take n (br_content br)), br\<lparr>br_pos := br_pos br + n\<rparr>)
           else (Inl (if br_content br = [] then EOF else ErrUnexpectedEOF),
                 br\<lparr>br_pos := br_pos br + length (br_content br)\<rparr>))"
proof (cases "n = 0 \<or> br_content br = []")
  case True
  then show ?thesis
    by (auto simp: io_ReadFull_def ReadAtLeast_loop.simps ByteReader_Read_content short_err_def)
next
  case False
  let ?k = "min n (length (br_content br))"
  let ?br = "br\<lparr>br_pos := br_pos br + ?k\<rparr>"
  have step: "io_ReadFull ByteReader_Read n br =
      ReadAtLeast_loop ByteReader_Read n (take n (br_content br)) ?br"
    using False
    by (simp add: io_ReadFull_def ReadAtLeast_loop.simps [of _ n "[]"] ByteReader_Read_content)
  show ?thesis
  proof (cases "n \<le> length (br_content br)")
    case True
    then show ?thesis
      unfolding step by (simp add: ReadAtLeast_loop.simps min_def)
  next
    case short: False
    then have "br_content ?br = []" by simp
    with short False show ?thesis
      unfolding step
      by (subst ReadAtLeast_loop.simps) (simp add: ByteReader_Read_content short_err_def)
  qed
qed

interpretation br_src: byte_source ByteReader_reader br_content "\<lambda>_. EOF"
proof unfold_locales
  fix r :: ByteReader and b bs
  assume c: "br_content r = b # bs"
  then have "br_pos r < length (br_data r)" "br_data r ! br_pos r = b"
    by (auto simp: br_content_def) (metis drop_eq_Nil linorder_not_less list.distinct(1) nth_via_drop)+
  with c show "fst (ReadByte ByteReader_reader r) = Inr b \<and>
      br_content (snd (ReadByte ByteReader_reader r)) = bs \<and> EOF = EOF"
    using br_content_advance [of r 1]
    by (simp add: ByteReader_reader_def ByteReader_ReadByte_def)
qed (auto simp: ByteReader_reader_def ByteReader_ReadByte_def ByteReader_ReadFull_def
      ByteReader_ReadFull_returns br_content_def short_err_def add.commute)

section \<open>\<^verbatim>\<open>DiscardVarInt\<close>\<close>

text \<open>At most \<open>i\<close> bytes are skipped, up to and including the first one without continuation bit.\<close>

fun DiscardVarInt_loop :: "nat \<Rightarrow> 'r reader \<Rightarrow> 'r \<Rightarrow> 'r" where
  "DiscardVarInt_loop 0 R r = r"
| "DiscardVarInt_loop (Suc i) R r =
     (case ReadByte R r of
        (Inl e, r') \<Rightarrow> r'
      | (Inr b, r') \<Rightarrow> if b AND 0x80 = 0 then r' else DiscardVarInt_loop i R r')"

definition DiscardVarInt :: "'r reader \<Rightarrow> 'r \<Rightarrow> 'r" where
  "DiscardVarInt R r = DiscardVarInt_loop 10 R r"

text \<open>The bytes that remain of \<open>bs\<close> after the loop.\<close>

fun discard_rest :: "nat \<Rightarrow> byte list \<Rightarrow> byte list" where
  "discard_rest 0 bs = bs"
| "discard_rest (Suc i) [] = []"
| "discard_rest (Suc i) (b # bs) = (if b AND 0x80 = 0 then bs else discard_rest i bs)"

context byte_source
begin

lemma DiscardVarInt_loop_content:
  "content (DiscardVarInt_loop i R r) = discard_rest i (content r) \<and>
   stop (DiscardVarInt_loop i R r) = stop r"
proof (induction i arbitrary: r)
  case 0
  then show ?case by simp
next
  case (Suc i)
  show ?case
  proof (cases "content r")
    case Nil
    then show ?thesis by (auto elim: ReadByte_nil_obtain)
  next
    case (Cons b bs)
    then obtain r' where "ReadByte R r = (Inr b, r')" "content r' = bs" "stop r' = stop r"
      by (rule ReadByte_cons_obtain)
    with Cons Suc.IH [of r'] show ?thesis by simp
  qed
qed

end

end
