(* ===== verification/Varint.thy ===== *)
theory Varint
  imports Internal_Helpers
begin

text \<open>
  \<^verbatim>\<open>packet/varint.go\<close>: the variable-length integers of the Minecraft protocol.

  The encoders \<^verbatim>\<open>PutVarInt\<close> and \<^verbatim>\<open>PutVarLong\<close> are unrolled by size class in the source and
  modelled that way. \<open>leb\<close> is the reference encoding (seven bits per byte, least significant
  first, bit 7 set on all bytes but the last) and \<open>dec_var\<close> the reference decoder; every
  encoder, length function and decoder of the file is proved equal to them, and the round trips are
  proved once on the reference. The loops of \<^verbatim>\<open>ReadVarInt\<close> and \<^verbatim>\<open>ReadVarLong\<close> differ only in
  the width of the accumulator, the limit on the shift and the error value, so they are one
  function with these as parameters.
\<close>

section \<open>Model\<close>

definition MaxVarIntLen :: nat where "MaxVarIntLen = 5"
definition MaxVarLongLen :: nat where "MaxVarLongLen = 10"

definition VarIntLen :: "i32 \<Rightarrow> nat" where
  "VarIntLen u =
     (if u < 0x80 then 1
      else if u < 0x4000 then 2
      else if u < 0x200000 then 3
      else if u < 0x10000000 then 4
      else 5)"

definition VarLongLen :: "i64 \<Rightarrow> nat" where
  "VarLongLen u =
     (if u < 0x80 then 1
      else if u < 0x4000 then 2
      else if u < 0x200000 then 3
      else if u < 0x10000000 then 4
      else if u < 0x800000000 then 5
      else if u < 0x40000000000 then 6
      else if u < 0x2000000000000 then 7
      else if u < 0x100000000000000 then 8
      else if u < 0x8000000000000000 then 9
      else 10)"

text \<open>\<open>shr u k\<close> is \<^verbatim>\<open>byte(u >> k)\<close>, \<open>shc u k\<close> is \<^verbatim>\<open>byte(u >> k) | 0x80\<close>.\<close>

abbreviation shr :: "'a::len word \<Rightarrow> nat \<Rightarrow> byte" where
  "shr u k \<equiv> ucast (drop_bit k u)"

abbreviation shc :: "'a::len word \<Rightarrow> nat \<Rightarrow> byte" where
  "shc u k \<equiv> ucast (drop_bit k u) OR 0x80"

definition PutVarInt :: "byte list \<Rightarrow> i32 \<Rightarrow> (byte list \<times> nat) res" where
  "PutVarInt buf u =
     (if u < 0x80 then store buf [shr u 0]
      else if u < 0x4000 then store buf [shc u 0, shr u 7]
      else if u < 0x200000 then store buf [shc u 0, shc u 7, shr u 14]
      else if u < 0x10000000 then store buf [shc u 0, shc u 7, shc u 14, shr u 21]
      else store buf [shc u 0, shc u 7, shc u 14, shc u 21, shr u 28])"

definition PutVarLong :: "byte list \<Rightarrow> i64 \<Rightarrow> (byte list \<times> nat) res" where
  "PutVarLong buf u =
     (if u < 0x80 then store buf [shr u 0]
      else if u < 0x4000 then store buf [shc u 0, shr u 7]
      else if u < 0x200000 then store buf [shc u 0, shc u 7, shr u 14]
      else if u < 0x10000000 then store buf [shc u 0, shc u 7, shc u 14, shr u 21]
      else if u < 0x800000000 then
        store buf [shc u 0, shc u 7, shc u 14, shc u 21, shr u 28]
      else if u < 0x40000000000 then
        store buf [shc u 0, shc u 7, shc u 14, shc u 21, shc u 28, shr u 35]
      else if u < 0x2000000000000 then
        store buf [shc u 0, shc u 7, shc u 14, shc u 21, shc u 28, shc u 35, shr u 42]
      else if u < 0x100000000000000 then
        store buf [shc u 0, shc u 7, shc u 14, shc u 21, shc u 28, shc u 35, shc u 42, shr u 49]
      else if u < 0x8000000000000000 then
        store buf [shc u 0, shc u 7, shc u 14, shc u 21, shc u 28, shc u 35, shc u 42, shc u 49,
                   shr u 56]
      else
        store buf [shc u 0, shc u 7, shc u 14, shc u 21, shc u 28, shc u 35, shc u 42, shc u 49,
                   shc u 56, shr u 63])"

definition VarInt_Len :: "i32 \<Rightarrow> nat" where
  "VarInt_Len v = VarIntLen v"

definition VarLong_Len :: "i64 \<Rightarrow> nat" where
  "VarLong_Len v = VarLongLen v"

definition VarInt_WriteTo :: "'w writer \<Rightarrow> i32 \<Rightarrow> 'w \<Rightarrow> (nat \<times> go_err option) \<times> 'w" where
  "VarInt_WriteTo W v w =
     (case PutVarInt (replicate MaxVarIntLen 0) v of
        Inl e \<Rightarrow> ((0, Some e), w)
      | Inr (buf, n) \<Rightarrow> W (take n buf) w)"

definition VarLong_WriteTo :: "'w writer \<Rightarrow> i64 \<Rightarrow> 'w \<Rightarrow> (nat \<times> go_err option) \<times> 'w" where
  "VarLong_WriteTo W v w =
     (case PutVarLong (replicate MaxVarLongLen 0) v of
        Inl e \<Rightarrow> ((0, Some e), w)
      | Inr (buf, n) \<Rightarrow> W (take n buf) w)"

text \<open>The loop of \<^verbatim>\<open>ReadVarInt\<close> (\<open>lim = 35\<close>) and \<^verbatim>\<open>ReadVarLong\<close> (\<open>lim = 70\<close>).\<close>

function read_var_loop ::
  "nat \<Rightarrow> go_err \<Rightarrow> 'r reader \<Rightarrow> 'r \<Rightarrow> 'a::len word \<Rightarrow> nat \<Rightarrow> 'a word res \<times> 'r" where
  "read_var_loop lim bad R r val shift =
     (case ReadByte R r of
        (Inl e, r') \<Rightarrow> (Inl e, r')
      | (Inr b, r') \<Rightarrow>
          let val' = val OR push_bit shift (ucast (b AND 0x7F)) in
          if b AND 0x80 = 0 then (Inr val', r')
          else if lim \<le> shift + 7 then (Inl bad, DiscardVarInt R r')
          else read_var_loop lim bad R r' val' (shift + 7))"
  by pat_completeness auto
termination
  by (relation "measure (\<lambda>(lim, bad, R, r, val, shift). lim - shift)") auto

declare read_var_loop.simps [simp del]

definition ReadVarInt :: "'r reader \<Rightarrow> 'r \<Rightarrow> i32 res \<times> 'r" where
  "ReadVarInt R r = read_var_loop 35 ErrMalformedVarInt R r 0 0"

definition ReadVarLong :: "'r reader \<Rightarrow> 'r \<Rightarrow> i64 res \<times> 'r" where
  "ReadVarLong R r = read_var_loop 70 ErrMalformedVarLong R r 0 0"

text \<open>\<^verbatim>\<open>v.ReadFrom(r)\<close>: the error, the new value of \<open>*v\<close> (unchanged on error), the reader.\<close>

definition VarInt_ReadFrom :: "'r reader \<Rightarrow> i32 \<Rightarrow> 'r \<Rightarrow> (go_err option \<times> i32) \<times> 'r" where
  "VarInt_ReadFrom R v r =
     (case ReadVarInt R r of (Inl e, r') \<Rightarrow> ((Some e, v), r') | (Inr val, r') \<Rightarrow> ((None, val), r'))"

definition VarLong_ReadFrom :: "'r reader \<Rightarrow> i64 \<Rightarrow> 'r \<Rightarrow> (go_err option \<times> i64) \<times> 'r" where
  "VarLong_ReadFrom R v r =
     (case ReadVarLong R r of (Inl e, r') \<Rightarrow> ((Some e, v), r') | (Inr val, r') \<Rightarrow> ((None, val), r'))"

fun ReadVarIntN_loop :: "byte list \<Rightarrow> nat \<Rightarrow> i32 \<Rightarrow> i32" where
  "ReadVarIntN_loop [] i val = val"
| "ReadVarIntN_loop (b # bs) i val =
     (let val' = val OR push_bit (7 * i) (ucast (b AND 0x7F)) in
      if b AND 0x80 = 0 then val' else ReadVarIntN_loop bs (i + 1) val')"

definition ReadVarIntN :: "'r reader \<Rightarrow> int \<Rightarrow> 'r \<Rightarrow> i32 res \<times> 'r" where
  "ReadVarIntN R n r =
     (if n < 0 then (Inl Panic, r)
      else case ReadFull R (nat n) r of
        (Inl e, r') \<Rightarrow> (Inl e, r')
      | (Inr buf, r') \<Rightarrow> (Inr (ReadVarIntN_loop buf 0 0), r'))"

definition PeekVarIntSize :: "byte \<Rightarrow> nat" where
  "PeekVarIntSize b = (if b AND 0x80 = 0 then 1 else MaxVarIntLen)"

definition UuidToInts :: "byte list \<Rightarrow> i64 \<times> i64" where
  "UuidToInts uuid = (be_get (take 8 uuid), be_get (drop 8 uuid))"

definition IntsToUUID :: "i64 \<Rightarrow> i64 \<Rightarrow> byte list" where
  "IntsToUUID hi lo = be_put 8 hi @ be_put 8 lo"

fun from_bytes_loop :: "byte list \<Rightarrow> i32 \<Rightarrow> nat \<Rightarrow> (i32 \<times> byte list) res" where
  "from_bytes_loop [] val shift = Inl ErrPacketTooShort"
| "from_bytes_loop (b # rest) val shift =
     (let val' = val OR push_bit shift (ucast (b AND 0x7F)) in
      if b AND 0x80 = 0 then Inr (val', rest)
      else if 35 \<le> shift + 7 then Inl ErrMalformedVarInt
      else from_bytes_loop rest val' (shift + 7))"

definition ReadVarIntFromBytes :: "byte list \<Rightarrow> (i32 \<times> byte list) res" where
  "ReadVarIntFromBytes data =
     (if length data = 0 then Inl ErrPacketTooShort else from_bytes_loop data 0 0)"

definition WriteVarIntToBytes :: "byte list \<Rightarrow> i32 \<Rightarrow> (byte list \<times> nat) res" where
  "WriteVarIntToBytes buf v = PutVarInt buf v"

section \<open>The reference encoding\<close>

function leb :: "'a::len word \<Rightarrow> byte list" where
  "leb u = (if drop_bit 7 u = 0 then [ucast u] else (ucast u OR 0x80) # leb (drop_bit 7 u))"
  by pat_completeness auto
termination
  by (relation "measure unat") (simp_all add: unat_drop_bit_less)

declare leb.simps [simp del]

datatype 'w dec = DDone 'w "byte list" | DBad "byte list" | DShort

fun dec_var :: "nat \<Rightarrow> byte list \<Rightarrow> 'a::len word \<Rightarrow> nat \<Rightarrow> 'a word dec" where
  "dec_var lim [] val shift = DShort"
| "dec_var lim (b # bs) val shift =
     (let val' = val OR push_bit shift (ucast (b AND 0x7F)) in
      if b AND 0x80 = 0 then DDone val' bs
      else if lim \<le> shift + 7 then DBad bs
      else dec_var lim bs val' (shift + 7))"

lemma leb_not_Nil [simp]: "leb u \<noteq> []"
  by (subst leb.simps) simp

lemma leb_unfold:
  "drop_bit k u \<noteq> 0 \<Longrightarrow> leb (drop_bit k u) =
     (if drop_bit (k + 7) u = 0 then [shr u k] else shc u k # leb (drop_bit (k + 7) u))"
  by (subst leb.simps) (simp add: add.commute)

lemma leb_start:
  "leb u = (if drop_bit 7 u = 0 then [shr u 0] else shc u 0 # leb (drop_bit 7 u))"
  by (subst leb.simps) simp

lemma length_leb_le: "drop_bit (7 * k) u = 0 \<Longrightarrow> 0 < k \<Longrightarrow> length (leb u) \<le> k"
proof (induction k arbitrary: u)
  case 0
  then show ?case by simp
next
  case (Suc k)
  show ?case
  proof (cases "k = 0")
    case True
    with Suc.prems show ?thesis by (subst leb.simps) simp
  next
    case False
    with Suc.prems have "length (leb (drop_bit 7 u)) \<le> k"
      by (intro Suc.IH) (simp_all add: algebra_simps)
    then show ?thesis by (subst leb.simps) simp
  qed
qed

text \<open>The switch of \<^verbatim>\<open>PutVarInt\<close> and \<^verbatim>\<open>PutVarLong\<close> tests exactly when the remaining bits are zero.\<close>

lemma i32_classes:
  fixes u :: i32
  shows "u < 0x80 \<longleftrightarrow> drop_bit 7 u = 0" "u < 0x4000 \<longleftrightarrow> drop_bit 14 u = 0"
    "u < 0x200000 \<longleftrightarrow> drop_bit 21 u = 0" "u < 0x10000000 \<longleftrightarrow> drop_bit 28 u = 0"
  using less_pow_drop_bit [of 7 u] less_pow_drop_bit [of 14 u] less_pow_drop_bit [of 21 u]
    less_pow_drop_bit [of 28 u]
  by simp_all

lemma i64_classes:
  fixes u :: i64
  shows "u < 0x80 \<longleftrightarrow> drop_bit 7 u = 0" "u < 0x4000 \<longleftrightarrow> drop_bit 14 u = 0"
    "u < 0x200000 \<longleftrightarrow> drop_bit 21 u = 0" "u < 0x10000000 \<longleftrightarrow> drop_bit 28 u = 0"
    "u < 0x800000000 \<longleftrightarrow> drop_bit 35 u = 0" "u < 0x40000000000 \<longleftrightarrow> drop_bit 42 u = 0"
    "u < 0x2000000000000 \<longleftrightarrow> drop_bit 49 u = 0" "u < 0x100000000000000 \<longleftrightarrow> drop_bit 56 u = 0"
    "u < 0x8000000000000000 \<longleftrightarrow> drop_bit 63 u = 0"
  using less_pow_drop_bit [of 7 u] less_pow_drop_bit [of 14 u] less_pow_drop_bit [of 21 u]
    less_pow_drop_bit [of 28 u] less_pow_drop_bit [of 35 u] less_pow_drop_bit [of 42 u]
    less_pow_drop_bit [of 49 u] less_pow_drop_bit [of 56 u] less_pow_drop_bit [of 63 u]
  by simp_all

lemma drop_bit_all: "LENGTH('a) \<le> k \<Longrightarrow> drop_bit k (u :: 'a::len word) = 0"
  by (rule bit_word_eqI) (simp add: bit_drop_bit_eq bit_word.rep_eq)

lemma leb_i32:
  "leb (u :: i32) =
     (if u < 0x80 then [shr u 0]
      else if u < 0x4000 then [shc u 0, shr u 7]
      else if u < 0x200000 then [shc u 0, shc u 7, shr u 14]
      else if u < 0x10000000 then [shc u 0, shc u 7, shc u 14, shr u 21]
      else [shc u 0, shc u 7, shc u 14, shc u 21, shr u 28])"
  using leb_start [of u] leb_unfold [of 7 u] leb_unfold [of 14 u] leb_unfold [of 21 u]
    leb_unfold [of 28 u] drop_bit_all [of 35 u]
  by (simp add: i32_classes)

lemma leb_i64:
  "leb (u :: i64) =
     (if u < 0x80 then [shr u 0]
      else if u < 0x4000 then [shc u 0, shr u 7]
      else if u < 0x200000 then [shc u 0, shc u 7, shr u 14]
      else if u < 0x10000000 then [shc u 0, shc u 7, shc u 14, shr u 21]
      else if u < 0x800000000 then [shc u 0, shc u 7, shc u 14, shc u 21, shr u 28]
      else if u < 0x40000000000 then [shc u 0, shc u 7, shc u 14, shc u 21, shc u 28, shr u 35]
      else if u < 0x2000000000000 then
        [shc u 0, shc u 7, shc u 14, shc u 21, shc u 28, shc u 35, shr u 42]
      else if u < 0x100000000000000 then
        [shc u 0, shc u 7, shc u 14, shc u 21, shc u 28, shc u 35, shc u 42, shr u 49]
      else if u < 0x8000000000000000 then
        [shc u 0, shc u 7, shc u 14, shc u 21, shc u 28, shc u 35, shc u 42, shc u 49, shr u 56]
      else
        [shc u 0, shc u 7, shc u 14, shc u 21, shc u 28, shc u 35, shc u 42, shc u 49, shc u 56,
         shr u 63])"
  using leb_start [of u] leb_unfold [of 7 u] leb_unfold [of 14 u] leb_unfold [of 21 u]
    leb_unfold [of 28 u] leb_unfold [of 35 u] leb_unfold [of 42 u] leb_unfold [of 49 u]
    leb_unfold [of 56 u] leb_unfold [of 63 u] drop_bit_all [of 70 u]
  by (simp add: i64_classes)

lemma length_leb_i32: "length (leb (v :: i32)) \<le> 5"
  by (rule length_leb_le) (simp_all add: drop_bit_all)

lemma length_leb_i64: "length (leb (v :: i64)) \<le> 10"
  by (rule length_leb_le) (simp_all add: drop_bit_all)

lemma VarIntLen_leb: "VarIntLen v = length (leb v)"
  unfolding VarIntLen_def leb_i32 by simp

lemma VarLongLen_leb: "VarLongLen v = length (leb v)"
  unfolding VarLongLen_def leb_i64 by simp

lemma PutVarInt_leb: "PutVarInt buf v = store buf (leb v)"
  unfolding PutVarInt_def leb_i32 by (simp split: if_split)

lemma PutVarLong_leb: "PutVarLong buf v = store buf (leb v)"
  unfolding PutVarLong_def leb_i64 by (simp split: if_split)

lemma VarInt_WriteTo_leb: "VarInt_WriteTo W v w = W (leb v) w"
  using length_leb_i32 [of v]
  by (simp add: VarInt_WriteTo_def PutVarInt_leb store_def MaxVarIntLen_def)

lemma VarLong_WriteTo_leb: "VarLong_WriteTo W v w = W (leb v) w"
  using length_leb_i64 [of v]
  by (simp add: VarLong_WriteTo_def PutVarLong_leb store_def MaxVarLongLen_def)

section \<open>Decoding\<close>

lemma word_split7:
  "(ucast (ucast u AND 0x7F :: byte) :: 'a::len word) OR push_bit 7 (drop_bit 7 u) = u"
  (is "?l = u")
proof (rule bit_word_eqI)
  fix n assume "n < LENGTH('a)"
  then show "bit ?l n = bit u n" by (cases "n < 7") (auto simp: bit_simps)
qed

lemma word_low7:
  "drop_bit 7 u = 0 \<Longrightarrow> (ucast (ucast u AND 0x7F :: byte) :: 'a::len word) = u"
  using word_split7 [of u] by simp

lemma low7_no_continuation:
  assumes "drop_bit 7 (u :: 'a::len word) = 0"
  shows "(ucast u :: byte) AND 0x80 = 0"
proof -
  have "\<not> bit (drop_bit 7 u) 0" by (simp only: assms) simp
  then have "\<not> bit u 7" by (simp add: bit_drop_bit_eq)
  then show ?thesis by (simp add: and_80_eq_0 bit_simps)
qed

lemma or_80_bits:
  "((b :: byte) OR 0x80) AND 0x80 \<noteq> 0" "(b OR 0x80) AND 0x7F = b AND 0x7F"
  by (auto simp: and_80_eq_0 bit_simps intro!: bit_word_eqI)

text \<open>The decoder undoes the reference encoder, whatever follows and wherever it starts.\<close>

lemma dec_var_leb:
  "shift + 7 * (length (leb u) - 1) < lim \<Longrightarrow>
   dec_var lim (leb u @ rest) val shift = DDone (val OR push_bit shift u) rest"
proof (induction u arbitrary: val shift rule: leb.induct)
  case (1 u)
  show ?case
  proof (cases "drop_bit 7 u = 0")
    case True
    then show ?thesis
      by (subst leb.simps) (simp add: low7_no_continuation word_low7)
  next
    case False
    let ?v = "val OR push_bit shift (ucast (ucast u AND 0x7F :: byte))"
    have l: "length (leb u) = Suc (length (leb (drop_bit 7 u)))"
      using False by (subst leb.simps) simp
    have pos: "0 < length (leb (drop_bit 7 u))" by simp
    have IH: "dec_var lim (leb (drop_bit 7 u) @ rest) ?v (shift + 7) =
        DDone (?v OR push_bit (shift + 7) (drop_bit 7 u)) rest"
    proof (rule "1.IH" [OF False])
      have "7 * length (leb (drop_bit 7 u)) = 7 + 7 * (length (leb (drop_bit 7 u)) - 1)"
        using pos by linarith
      with "1.prems" l show "shift + 7 + 7 * (length (leb (drop_bit 7 u)) - 1) < lim" by simp
    qed
    have "push_bit shift u = push_bit shift (ucast (ucast u AND 0x7F :: byte)) OR
        push_bit (shift + 7) (drop_bit 7 u)"
      by (subst word_split7 [of u, symmetric]) (simp add: push_bit_or)
    moreover have "\<not> lim \<le> shift + 7"
      using "1.prems" l pos by (cases "length (leb (drop_bit 7 u))") simp_all
    ultimately show ?thesis
      using IH False
      by (subst leb.simps) (simp add: or_80_bits Let_def or.assoc)
  qed
qed

lemma dec_var_leb_i32: "dec_var 35 (leb (v :: i32) @ rest) 0 0 = DDone v rest"
  using dec_var_leb [of 0 v 35 rest 0] length_leb_i32 [of v] by simp

lemma dec_var_leb_i64: "dec_var 70 (leb (v :: i64) @ rest) 0 0 = DDone v rest"
  using dec_var_leb [of 0 v 70 rest 0] length_leb_i64 [of v] by simp

lemma from_bytes_loop_dec:
  "from_bytes_loop bs val shift =
     (case dec_var 35 bs val shift of
        DDone v rest \<Rightarrow> Inr (v, rest) | DBad _ \<Rightarrow> Inl ErrMalformedVarInt
      | DShort \<Rightarrow> Inl ErrPacketTooShort)"
  by (induction bs val shift rule: from_bytes_loop.induct) (auto simp: Let_def)

lemma ReadVarIntFromBytes_dec:
  "ReadVarIntFromBytes bs =
     (case dec_var 35 bs 0 0 of
        DDone v rest \<Rightarrow> Inr (v, rest) | DBad _ \<Rightarrow> Inl ErrMalformedVarInt
      | DShort \<Rightarrow> Inl ErrPacketTooShort)"
  by (cases bs) (simp_all add: ReadVarIntFromBytes_def from_bytes_loop_dec)

lemma ReadVarIntFromBytes_leb [simp]: "ReadVarIntFromBytes (leb v @ rest) = Inr (v, rest)"
  by (simp add: ReadVarIntFromBytes_dec dec_var_leb_i32)

text \<open>The reader-based loop sees the same bytes, and skips the tail of a malformed number.\<close>

context byte_source
begin

lemma read_var_loop_dec:
  "case dec_var lim (content r) val shift of
     DDone v rest \<Rightarrow>
       fst (read_var_loop lim bad R r val shift) = Inr v \<and>
       content (snd (read_var_loop lim bad R r val shift)) = rest \<and>
       stop (snd (read_var_loop lim bad R r val shift)) = stop r
   | DBad rest \<Rightarrow>
       fst (read_var_loop lim bad R r val shift) = Inl bad \<and>
       content (snd (read_var_loop lim bad R r val shift)) = discard_rest 10 rest
   | DShort \<Rightarrow>
       fst (read_var_loop lim bad R r val shift) = Inl (stop r) \<and>
       content (snd (read_var_loop lim bad R r val shift)) = []"
proof (induction "content r" arbitrary: r val shift)
  case Nil
  then obtain r' where "ReadByte R r = (Inl (stop r), r')" "content r' = []"
    using ReadByte_nil_obtain by metis
  with Nil show ?case by (simp add: read_var_loop.simps [of _ _ _ r] flip: Nil)
next
  case (Cons b bs)
  obtain r' where r': "ReadByte R r = (Inr b, r')" "content r' = bs" "stop r' = stop r"
    using ReadByte_cons_obtain [OF Cons.hyps(2) [symmetric]] by blast
  let ?v = "val OR push_bit shift (ucast (b AND 0x7F))"
  have d: "dec_var lim (content r) val shift =
      (if b AND 0x80 = 0 then DDone ?v bs else if lim \<le> shift + 7 then DBad bs
       else dec_var lim bs ?v (shift + 7))"
    by (simp add: Let_def flip: Cons.hyps(2))
  have l: "read_var_loop lim bad R r val shift =
      (if b AND 0x80 = 0 then (Inr ?v, r') else if lim \<le> shift + 7 then (Inl bad, DiscardVarInt R r')
       else read_var_loop lim bad R r' ?v (shift + 7))"
    by (subst read_var_loop.simps) (simp add: r' Let_def)
  show ?case
    unfolding d l using Cons.hyps(1) [OF r'(2) [symmetric], of ?v "shift + 7"] r'
    by (simp add: DiscardVarInt_def DiscardVarInt_loop_content split: dec.splits)
qed

lemma ReadVarInt_leb_obtain:
  assumes "content r = leb v @ rest"
  obtains r' where "ReadVarInt R r = (Inr v, r')" "content r' = rest" "stop r' = stop r"
  using read_var_loop_dec [where lim = 35 and r = r and val = "0 :: i32" and shift = 0 and bad = ErrMalformedVarInt] assms
  by (cases "ReadVarInt R r") (simp add: ReadVarInt_def dec_var_leb_i32)

lemma ReadVarLong_leb_obtain:
  assumes "content r = leb v @ rest"
  obtains r' where "ReadVarLong R r = (Inr v, r')" "content r' = rest" "stop r' = stop r"
  using read_var_loop_dec [where lim = 70 and r = r and val = "0 :: i64" and shift = 0 and bad = ErrMalformedVarLong] assms
  by (cases "ReadVarLong R r") (simp add: ReadVarLong_def dec_var_leb_i64)

end

definition contd :: "byte \<Rightarrow> bool" where
  "contd b \<longleftrightarrow> b AND 0x80 \<noteq> 0"

fun leb_value :: "byte list \<Rightarrow> nat" where
  "leb_value [] = 0"
| "leb_value (b # bs) = unat b mod 128 + 128 * leb_value bs"

lemma or_push_bit_add:
  assumes "\<And>n. bit val n \<Longrightarrow> n < shift"
  shows "val OR push_bit shift x = val + push_bit shift (x :: 'a::len word)"
proof (rule disjunctive_add_eq_or [symmetric], rule bit_word_eqI)
  fix n assume "n < LENGTH('a)"
  show "bit (val AND push_bit shift x) n = bit 0 n"
    using assms [of n] by (auto simp: bit_simps)
qed

lemma ucast_low7: "(ucast (b AND 0x7F :: byte) :: 'a::len word) = word_of_nat (unat b mod 128)"
proof -
  have "b AND 0x7F = take_bit 7 b"
    by (rule bit_word_eqI) (auto simp: bit_simps)
  then have "unat (b AND 0x7F) = unat b mod 128"
    by (simp only: unsigned_take_bit_eq) (simp add: take_bit_eq_mod)
  then show ?thesis by (metis of_nat_unat)
qed

lemma bit_or_push_low7:
  assumes "\<And>n. bit val n \<Longrightarrow> n < shift"
  shows "bit (val OR push_bit shift (ucast (b AND 0x7F :: byte) :: 'a::len word)) n \<Longrightarrow> n < shift + 7"
  using assms [of n] by (auto simp: bit_simps)

text \<open>what the decoder computes for a terminated number, and when it gives up\<close>

lemma dec_var_number:
  fixes val :: "'a::len word"
  assumes "\<And>n. bit val n \<Longrightarrow> n < shift" and "list_all contd cs" and "\<not> contd b"
    and "shift + 7 * length cs < lim"
  shows "dec_var lim (cs @ b # rest) val shift =
    DDone (val + word_of_nat (leb_value (cs @ [b])) * 2 ^ shift) rest"
  using assms
proof (induction cs arbitrary: val shift)
  case Nil
  then have "val OR push_bit shift (ucast (b AND 0x7F)) = val + word_of_nat (unat b mod 128) * 2 ^ shift"
    by (subst or_push_bit_add) (simp_all add: ucast_low7 push_bit_eq_mult)
  with Nil.prems show ?case by (simp add: contd_def)
next
  case (Cons c cs)
  let ?v = "val OR push_bit shift (ucast (c AND 0x7F))"
  have IH: "dec_var lim (cs @ b # rest) ?v (shift + 7) =
      DDone (?v + word_of_nat (leb_value (cs @ [b])) * 2 ^ (shift + 7)) rest"
    using Cons.prems by (intro Cons.IH) (auto intro: bit_or_push_low7)
  have "?v = val + word_of_nat (unat c mod 128) * 2 ^ shift"
    using Cons.prems(1) by (subst or_push_bit_add) (simp_all add: ucast_low7 push_bit_eq_mult)
  with IH Cons.prems show ?case
    by (simp add: contd_def algebra_simps power_add)
qed

lemma dec_var_malformed:
  fixes val :: "'a::len word"
  shows "list_all contd cs \<Longrightarrow> cs \<noteq> [] \<Longrightarrow> shift + 7 * (length cs - 1) < lim \<Longrightarrow> lim \<le> shift + 7 * length cs \<Longrightarrow>
   dec_var lim (cs @ rest) val shift = DBad rest"
proof (induction cs arbitrary: val shift)
  case (Cons c cs)
  show ?case
  proof (cases "cs = []")
    case True with Cons.prems show ?thesis by (simp add: contd_def)
  next
    case False
    then have "7 * length cs = 7 + 7 * (length cs - 1)" by (cases cs) simp_all
    then have "dec_var lim (cs @ rest) v (shift + 7) = DBad rest" for v :: "'a word"
      using Cons.prems False by (intro Cons.IH) auto
    moreover have "\<not> lim \<le> shift + 7" using Cons.prems False by (cases cs) auto
    ultimately show ?thesis using Cons.prems by (simp add: contd_def Let_def)
  qed
qed simp

lemma dec_var_truncated:
  "list_all contd cs \<Longrightarrow> shift + 7 * length cs < lim \<Longrightarrow> dec_var lim cs val shift = DShort"
  by (induction cs arbitrary: val shift) (auto simp: contd_def Let_def)

text \<open>Every byte string is one of the three.\<close>

lemma contd_split:
  obtains (number) cs b rest where "data = cs @ b # rest" "list_all contd cs" "\<not> contd b" "length cs < k"
  | (malformed) cs rest where "data = cs @ rest" "list_all contd cs" "length cs = k"
  | (truncated) "list_all contd data" "length data < k"
proof -
  let ?t = "takeWhile contd data" and ?d = "dropWhile contd data"
  have d: "data = ?t @ ?d" by simp
  have t: "list_all contd ?t" by (auto simp: list_all_iff dest: set_takeWhileD)
  consider "k \<le> length ?t" | "length ?t < k" "?d = []" | b rest where "length ?t < k" "?d = b # rest"
    by (cases ?d) force+
  then show thesis
  proof cases
    case 1
    have "data = take k ?t @ (drop k ?t @ ?d)" by (metis append.assoc append_take_drop_id d)
    then show thesis
      by (rule malformed) (use 1 t in \<open>auto simp: list_all_iff dest: in_set_takeD\<close>)
  next
    case 2
    with d t show thesis by (metis append_Nil2 truncated)
  next
    case 3
    then have "\<not> contd b" by (metis dropWhile_eq_Cons_conv)
    with 3 t d show thesis by (metis number)
  qed
qed

definition number_shape :: "nat \<Rightarrow> byte list \<Rightarrow> nat dec" where
  "number_shape k data =
     (let n = length (takeWhile contd data) in
      if k \<le> n then DBad (drop k data)
      else if n = length data then DShort
      else DDone (leb_value (take (Suc n) data)) (drop (Suc n) data))"

lemma dec_var_shape:
  assumes "0 < k"
  shows "dec_var (7 * k) data (0 :: 'a::len word) 0 =
    (case number_shape k data of DDone v rest \<Rightarrow> DDone (word_of_nat v) rest
     | DBad rest \<Rightarrow> DBad rest | DShort \<Rightarrow> DShort)"
proof (cases rule: contd_split [of data k])
  case (number cs b rest)
  then have "takeWhile contd data = cs"
    by (simp add: list_all_iff takeWhile_append)
  moreover have "dec_var (7 * k) (cs @ b # rest) (0 :: 'a word) 0 =
      DDone (word_of_nat (leb_value (cs @ [b]))) rest"
    using number by (subst dec_var_number) simp_all
  ultimately show ?thesis using number by (simp add: number_shape_def)
next
  case (malformed cs rest)
  then have "k \<le> length (takeWhile contd data)"
    by (simp add: list_all_iff takeWhile_append)
  with malformed assms show ?thesis
    using dec_var_malformed [of cs 0 "7 * k" rest "0 :: 'a word"]
    by (cases cs) (auto simp: number_shape_def)
next
  case truncated
  then have "length (takeWhile contd data) = length data"
    by (metis list_all_iff takeWhile_eq_all_conv)
  with truncated show ?thesis
    by (simp add: number_shape_def dec_var_truncated Let_def)
qed

lemma ReadVarIntFromBytes_shape:
  "ReadVarIntFromBytes data =
     (case number_shape 5 data of
        DDone v rest \<Rightarrow> Inr (word_of_nat v, rest)
      | DBad _ \<Rightarrow> Inl ErrMalformedVarInt
      | DShort \<Rightarrow> Inl ErrPacketTooShort)"
  using dec_var_shape [of 5 data, where ?'a = 32]
  by (simp add: ReadVarIntFromBytes_dec split: dec.splits)

lemma leb_value_bound: "leb_value bs < 128 ^ length bs"
  by (induction bs) (simp_all add: less_mult_imp_div_less algebra_simps mod_less_divisor)

lemma length_leb_of_nat:
  assumes "n < 128 ^ k" and "0 < k"
  shows "length (leb (word_of_nat n :: i32)) \<le> k"
proof (rule length_leb_le [OF _ assms(2)])
  have "unat (word_of_nat n :: i32) \<le> n" by (simp add: unat_of_nat)
  then have "unat (word_of_nat n :: i32) < 2 ^ (7 * k)"
    using assms(1) by (simp add: power_mult)
  then have "unat (drop_bit (7 * k) (word_of_nat n :: i32)) = 0"
    by (simp only: unat_drop_bit_eq) (simp add: drop_bit_eq_div)
  then show "drop_bit (7 * k) (word_of_nat n :: i32) = 0" by (simp only: unat_eq_0)
qed

section \<open>Properties\<close>

text \<open>C25: the unrolled encoders store exactly the reference encoding, report its length, which is
  what the length functions compute, leave the rest of the buffer alone, and panic exactly when the
  buffer is shorter than that.\<close>

theorem PutVar_reference:
  "PutVarInt buf v =
     (if VarIntLen v \<le> length buf then Inr (leb v @ drop (VarIntLen v) buf, VarIntLen v)
      else Inl Panic) \<and>
   PutVarLong buf w =
     (if VarLongLen w \<le> length buf then Inr (leb w @ drop (VarLongLen w) buf, VarLongLen w)
      else Inl Panic)"
  by (simp add: PutVarInt_leb PutVarLong_leb VarIntLen_leb VarLongLen_leb store_def)

text \<open>C26: decoding in memory. Every byte string is classified: a run of at most four continuation
  bytes and a final byte is the number with the base-128 value of these bytes (modulo two to the
  32), five continuation bytes are malformed, and anything else is too short.\<close>

theorem ReadVarIntFromBytes_spec:
  "ReadVarIntFromBytes data =
     (let n = length (takeWhile (\<lambda>b. b AND 0x80 \<noteq> 0) data) in
      if 5 \<le> n then Inl ErrMalformedVarInt
      else if n = length data then Inl ErrPacketTooShort
      else Inr (word_of_nat (leb_value (take (Suc n) data)), drop (Suc n) data))"
proof -
  have "(\<lambda>b. b AND 0x80 \<noteq> 0) = contd" by (simp add: contd_def fun_eq_iff)
  then show ?thesis
    by (simp add: ReadVarIntFromBytes_shape number_shape_def Let_def)
qed

text \<open>C27: what \<^verbatim>\<open>VarInt.WriteTo\<close> puts on a connection, \<^verbatim>\<open>VarInt.ReadFrom\<close> at the other end reads
  back, leaving the bytes that follow unread; the same for \<^verbatim>\<open>VarLong\<close>.\<close>

theorem Var_wire_roundtrip:
  assumes "VarInt_WriteTo conn_Write v out = ((n, None), out')"
    and "VarLong_WriteTo conn_Write w out' = ((m, None), out'')"
    and "pending c = drop (length (sent out)) (sent out'') @ rest"
  shows "\<exists>c' c''. VarInt_ReadFrom conn_reader v0 c = ((None, v), c') \<and>
    VarLong_ReadFrom conn_reader w0 c' = ((None, w), c'') \<and> pending c'' = rest \<and>
    n = VarIntLen v \<and> m = VarLongLen w"
proof -
  have s: "sent out' = sent out @ leb v" "n = VarIntLen v"
    "sent out'' = sent out' @ leb w" "m = VarLongLen w"
    using assms(1,2) conn_snk.write_all [where w = out and bs = "leb v" and n = n and w' = out']
      conn_snk.write_all [where w = out' and bs = "leb w" and n = m and w' = out'']
    by (simp_all add: VarInt_WriteTo_leb VarLong_WriteTo_leb VarIntLen_leb VarLongLen_leb)
  obtain c' where c': "ReadVarInt conn_reader c = (Inr v, c')" "pending c' = leb w @ rest"
    using conn_src.ReadVarInt_leb_obtain [of c v "leb w @ rest"] s assms(3) by auto
  obtain c'' where "ReadVarLong conn_reader c' = (Inr w, c'')" "pending c'' = rest"
    using conn_src.ReadVarLong_leb_obtain [OF c'(2)] by auto
  with c' s show ?thesis by (simp add: VarInt_ReadFrom_def VarLong_ReadFrom_def)
qed

theorem Var_wire_roundtrip_witness:
  "\<exists>c' c''. VarInt_ReadFrom conn_reader 0 \<lparr>pending = [0xAC, 0x02, 0x01, 0x63], fin = EOF\<rparr> =
      ((None, 300), c') \<and>
    VarLong_ReadFrom conn_reader 0 c' = ((None, 1), c'') \<and> pending c'' = [0x63] \<and>
    2 = VarIntLen 300 \<and> 1 = VarLongLen 1"
  by (rule Var_wire_roundtrip [of _ "\<lparr>sent = [], room = None, ofail = EOF\<rparr>" _
        "\<lparr>sent = [0xAC, 0x02], room = None, ofail = EOF\<rparr>" _ _
        "\<lparr>sent = [0xAC, 0x02, 0x01], room = None, ofail = EOF\<rparr>"])
    (simp_all add: VarInt_WriteTo_def VarLong_WriteTo_def PutVarInt_def PutVarLong_def store_def
      conn_Write_def MaxVarIntLen_def MaxVarLongLen_def)

text \<open>The encoder is the shortest one: no byte string that decodes to \<open>v\<close> is shorter than
  \<^verbatim>\<open>VarIntLen(v)\<close>, and none is longer than five bytes.\<close>

theorem VarInt_shortest:
  assumes "ReadVarIntFromBytes (bs @ rest) = Inr (v, rest)"
  shows "VarIntLen v \<le> length bs \<and> length bs \<le> MaxVarIntLen"
proof -
  let ?n = "length (takeWhile contd (bs @ rest))"
  from assms have n: "?n < 5" "v = word_of_nat (leb_value (take (Suc ?n) (bs @ rest)))"
    and r: "rest = drop (Suc ?n) (bs @ rest)" "?n \<noteq> length (bs @ rest)"
    by (auto simp: ReadVarIntFromBytes_shape number_shape_def Let_def split: if_splits)
  have "?n < length (bs @ rest)"
    using r(2) length_takeWhile_le [of contd "bs @ rest"] by linarith
  note r = r(1) this
  have "length rest = length bs + length rest - Suc ?n" using r(1) by (metis length_append length_drop)
  then have l: "length bs = Suc ?n" using r(2) by auto
  have "length (leb v) \<le> Suc ?n"
    unfolding n(2) using leb_value_bound [of "take (Suc ?n) (bs @ rest)"] r(2)
    by (intro length_leb_of_nat) (simp_all add: l)
  with l n(1) show ?thesis by (simp add: VarIntLen_leb MaxVarIntLen_def)
qed

theorem VarInt_shortest_witness:
  "VarIntLen 1 \<le> length [0x81 :: byte, 0x80, 0x00] \<and> length [0x81 :: byte, 0x80, 0x00] \<le> MaxVarIntLen"
  by (rule VarInt_shortest [of _ "[0x07]"]) (simp add: ReadVarIntFromBytes_def Let_def)

text \<open>The two representations of a UUID are in bijection.\<close>

theorem Uuid_roundtrip:
  "UuidToInts (IntsToUUID hi lo) = (hi, lo) \<and>
   (length uuid = 16 \<longrightarrow> (case UuidToInts uuid of (h, l) \<Rightarrow> IntsToUUID h l) = uuid)"
  using be_put_be_get [of "take 8 uuid", where ?'a = 64]
    be_put_be_get [of "drop 8 uuid", where ?'a = 64]
  by (auto simp: UuidToInts_def IntsToUUID_def be_get_be_put)

theorem Uuid_roundtrip_witness:
  "UuidToInts (IntsToUUID 1 2) = (1, 2) \<and>
   (case UuidToInts (replicate 16 7) of (h, l) \<Rightarrow> IntsToUUID h l) = replicate 16 7"
  using Uuid_roundtrip [of 1 2 "replicate 16 7"] by simp

end
