(* ===== verification/Wire_Types.thy ===== *)
theory Wire_Types
  imports Varint
begin

text \<open>
  \<^verbatim>\<open>packet/types.go\<close>: the data types of the Minecraft protocol, each with its \<^verbatim>\<open>WriteTo\<close> and
  \<^verbatim>\<open>ReadFrom\<close>.

  A writer returns the byte count and error of the Go method; a reader returns the error or the
  value it stores through its receiver (\<^verbatim>\<open>Slot.ReadFrom\<close>, which stores field by field, returns what
  the receiver holds in either case). \<open>emits\<close> and \<open>delivers\<close> describe the two sides
  over any sink and source that keep the contracts of \<open>byte_sink\<close> and \<open>byte_source\<close>; the
  round trips combine them on a connection.
\<close>

section \<open>Model\<close>

text \<open>
  Two writes in sequence, as every composite \<^verbatim>\<open>WriteTo\<close> of the file chains them: the byte counts add
  up and the first error ends the sequence.
\<close>

definition then_write ::
  "(nat \<times> go_err option) \<times> 'w \<Rightarrow> ('w \<Rightarrow> (nat \<times> go_err option) \<times> 'w)
     \<Rightarrow> (nat \<times> go_err option) \<times> 'w" where
  "then_write first k =
     (case first of
        ((n, Some e), w) \<Rightarrow> ((n, Some e), w)
      | ((n, None), w) \<Rightarrow> (case k w of ((m, e), w') \<Rightarrow> ((n + m, e), w')))"

definition String_WriteTo :: "'w writer \<Rightarrow> gostring \<Rightarrow> 'w \<Rightarrow> (nat \<times> go_err option) \<times> 'w" where
  "String_WriteTo W s w =
     then_write (VarInt_WriteTo W (word_of_nat (length s)) w) (\<lambda>w'. W s w')"

definition String_ReadFrom :: "'r reader \<Rightarrow> 'r \<Rightarrow> gostring res \<times> 'r" where
  "String_ReadFrom R r =
     (case ReadVarInt R r of
        (Inl e, r') \<Rightarrow> (Inl e, r')
      | (Inr len, r') \<Rightarrow>
          if sint len < 0 \<or> sint len > 32767 then (Inl ErrPacketTooLarge, r')
          else ReadFull R (nat (sint len)) r')"

definition Byte_WriteTo :: "'w writer \<Rightarrow> byte \<Rightarrow> 'w \<Rightarrow> (nat \<times> go_err option) \<times> 'w" where
  "Byte_WriteTo W b w = W [b] w"

definition Byte_ReadFrom :: "'r reader \<Rightarrow> 'r \<Rightarrow> byte res \<times> 'r" where
  "Byte_ReadFrom R r = ReadByte R r"

definition UnsignedByte_WriteTo :: "'w writer \<Rightarrow> byte \<Rightarrow> 'w \<Rightarrow> (nat \<times> go_err option) \<times> 'w" where
  "UnsignedByte_WriteTo W b w = W [b] w"

definition UnsignedByte_ReadFrom :: "'r reader \<Rightarrow> 'r \<Rightarrow> byte res \<times> 'r" where
  "UnsignedByte_ReadFrom R r = ReadByte R r"

text \<open>\<^verbatim>\<open>io.ReadFull\<close> into a fresh buffer of \<open>k\<close> bytes, then \<^verbatim>\<open>binary.BigEndian\<close>.\<close>

definition read_be :: "'r reader \<Rightarrow> nat \<Rightarrow> 'r \<Rightarrow> 'a::len word res \<times> 'r" where
  "read_be R k r =
     (case ReadFull R k r of (Inl e, r') \<Rightarrow> (Inl e, r') | (Inr buf, r') \<Rightarrow> (Inr (be_get buf), r'))"

definition Short_WriteTo :: "'w writer \<Rightarrow> u16 \<Rightarrow> 'w \<Rightarrow> (nat \<times> go_err option) \<times> 'w" where
  "Short_WriteTo W s w = W (be_put 2 s) w"

definition Short_ReadFrom :: "'r reader \<Rightarrow> 'r \<Rightarrow> u16 res \<times> 'r" where
  "Short_ReadFrom R r = read_be R 2 r"

definition UnsignedShort_WriteTo :: "'w writer \<Rightarrow> u16 \<Rightarrow> 'w \<Rightarrow> (nat \<times> go_err option) \<times> 'w" where
  "UnsignedShort_WriteTo W s w = W (be_put 2 s) w"

definition UnsignedShort_ReadFrom :: "'r reader \<Rightarrow> 'r \<Rightarrow> u16 res \<times> 'r" where
  "UnsignedShort_ReadFrom R r = read_be R 2 r"

definition Int_WriteTo :: "'w writer \<Rightarrow> i32 \<Rightarrow> 'w \<Rightarrow> (nat \<times> go_err option) \<times> 'w" where
  "Int_WriteTo W i w = W (be_put 4 i) w"

definition Int_ReadFrom :: "'r reader \<Rightarrow> 'r \<Rightarrow> i32 res \<times> 'r" where
  "Int_ReadFrom R r = read_be R 4 r"

definition Long_WriteTo :: "'w writer \<Rightarrow> i64 \<Rightarrow> 'w \<Rightarrow> (nat \<times> go_err option) \<times> 'w" where
  "Long_WriteTo W l w = W (be_put 8 l) w"

definition Long_ReadFrom :: "'r reader \<Rightarrow> 'r \<Rightarrow> i64 res \<times> 'r" where
  "Long_ReadFrom R r = read_be R 8 r"

text \<open>
  A \<^verbatim>\<open>float32\<close> or \<^verbatim>\<open>float64\<close> is represented by its IEEE 754 bit pattern, on which
  \<^verbatim>\<open>math.Float32bits\<close> and \<^verbatim>\<open>math.Float32frombits\<close> are the identity.
\<close>

definition Float_WriteTo :: "'w writer \<Rightarrow> i32 \<Rightarrow> 'w \<Rightarrow> (nat \<times> go_err option) \<times> 'w" where
  "Float_WriteTo W f w = W (be_put 4 f) w"

definition Float_ReadFrom :: "'r reader \<Rightarrow> 'r \<Rightarrow> i32 res \<times> 'r" where
  "Float_ReadFrom R r = read_be R 4 r"

definition Double_WriteTo :: "'w writer \<Rightarrow> i64 \<Rightarrow> 'w \<Rightarrow> (nat \<times> go_err option) \<times> 'w" where
  "Double_WriteTo W d w = W (be_put 8 d) w"

definition Double_ReadFrom :: "'r reader \<Rightarrow> 'r \<Rightarrow> i64 res \<times> 'r" where
  "Double_ReadFrom R r = read_be R 8 r"

definition Boolean_WriteTo :: "'w writer \<Rightarrow> bool \<Rightarrow> 'w \<Rightarrow> (nat \<times> go_err option) \<times> 'w" where
  "Boolean_WriteTo W b w = W [if b then 1 else 0] w"

definition Boolean_ReadFrom :: "'r reader \<Rightarrow> 'r \<Rightarrow> bool res \<times> 'r" where
  "Boolean_ReadFrom R r =
     (case ReadByte R r of (Inl e, r') \<Rightarrow> (Inl e, r') | (Inr val, r') \<Rightarrow> (Inr (val \<noteq> 0), r'))"

text \<open>The coordinates are Go \<^verbatim>\<open>int\<close>s: 64 bits, compared as signed numbers.\<close>

record Position =
  pos_X :: i64
  pos_Y :: i64
  pos_Z :: i64

definition Position_WriteTo :: "'w writer \<Rightarrow> Position \<Rightarrow> 'w \<Rightarrow> (nat \<times> go_err option) \<times> 'w" where
  "Position_WriteTo W p w =
     (let val = push_bit 38 (pos_X p AND 0x3FFFFFF) OR push_bit 12 (pos_Z p AND 0x3FFFFFF) OR
                (pos_Y p AND 0xFFF)
      in W (be_put 8 val) w)"

definition Position_of_bits :: "i64 \<Rightarrow> Position" where
  "Position_of_bits val =
     (let x = drop_bit 38 val; y = val AND 0xFFF; z = drop_bit 12 val AND 0x3FFFFFF;
          x' = (if sint x \<ge> 0x2000000 then x - 0x4000000 else x);
          z' = (if sint z \<ge> 0x2000000 then z - 0x4000000 else z);
          y' = (if sint y \<ge> 0x800 then y - 0x1000 else y)
      in \<lparr>pos_X = x', pos_Y = y', pos_Z = z'\<rparr>)"

definition Position_ReadFrom :: "'r reader \<Rightarrow> 'r \<Rightarrow> Position res \<times> 'r" where
  "Position_ReadFrom R r =
     (case read_be R 8 r of
        (Inl e, r') \<Rightarrow> (Inl e, r')
      | (Inr val, r') \<Rightarrow> (Inr (Position_of_bits val), r'))"

definition Angle_WriteTo :: "'w writer \<Rightarrow> byte \<Rightarrow> 'w \<Rightarrow> (nat \<times> go_err option) \<times> 'w" where
  "Angle_WriteTo W a w = W [a] w"

definition Angle_ReadFrom :: "'r reader \<Rightarrow> 'r \<Rightarrow> byte res \<times> 'r" where
  "Angle_ReadFrom R r = ReadByte R r"

definition UUID_WriteTo :: "'w writer \<Rightarrow> byte list \<Rightarrow> 'w \<Rightarrow> (nat \<times> go_err option) \<times> 'w" where
  "UUID_WriteTo W u w = W u w"

definition UUID_ReadFrom :: "'r reader \<Rightarrow> 'r \<Rightarrow> byte list res \<times> 'r" where
  "UUID_ReadFrom R r = ReadFull R 16 r"

definition ByteArray_WriteTo :: "'w writer \<Rightarrow> byte list \<Rightarrow> 'w \<Rightarrow> (nat \<times> go_err option) \<times> 'w" where
  "ByteArray_WriteTo W ba w = W ba w"

definition ByteArray_ReadFrom :: "'r reader \<Rightarrow> int \<Rightarrow> 'r \<Rightarrow> byte list res \<times> 'r" where
  "ByteArray_ReadFrom R len r = (if len < 0 then (Inl Panic, r) else ReadFull R (nat len) r)"

record NBT =
  nbt_Data :: "byte list"

definition NBT_WriteTo :: "'w writer \<Rightarrow> NBT \<Rightarrow> 'w \<Rightarrow> (nat \<times> go_err option) \<times> 'w" where
  "NBT_WriteTo W nbt w = W (nbt_Data nbt) w"

text \<open>
  \<^verbatim>\<open>NBT.ReadFrom\<close> reads until two consecutive zero bytes. Whether its loop ends depends on
  the reader, so it is a partial function of it.
\<close>

partial_function (option) NBT_loop ::
  "'r reader \<Rightarrow> byte list \<Rightarrow> 'r \<Rightarrow> (byte list res \<times> 'r) option" where
  "NBT_loop R buf r =
     (case ReadByte R r of
        (Inl e, r') \<Rightarrow> Some (Inl e, r')
      | (Inr b, r') \<Rightarrow>
          let buf' = buf @ [b] in
          if b = 0 \<and> length buf' > 1 \<and> buf' ! (length buf' - 2) = 0 then Some (Inr buf', r')
          else NBT_loop R buf' r')"

definition NBT_ReadFrom :: "'r reader \<Rightarrow> 'r \<Rightarrow> (NBT res \<times> 'r) option" where
  "NBT_ReadFrom R r =
     map_option (\<lambda>(x, r'). (case x of Inl e \<Rightarrow> Inl e | Inr buf \<Rightarrow> Inr \<lparr>nbt_Data = buf\<rparr>, r'))
       (NBT_loop R [] r)"

record Slot =
  slot_Present :: bool
  slot_ItemID :: i32
  slot_Count :: byte
  slot_NBT :: NBT

definition Slot_WriteTo :: "'w writer \<Rightarrow> Slot \<Rightarrow> 'w \<Rightarrow> (nat \<times> go_err option) \<times> 'w" where
  "Slot_WriteTo W s w =
     (if \<not> slot_Present s then Boolean_WriteTo W False w
      else then_write (Boolean_WriteTo W True w) (\<lambda>w.
           then_write (VarInt_WriteTo W (slot_ItemID s) w) (\<lambda>w.
           then_write (Byte_WriteTo W (slot_Count s) w) (\<lambda>w.
           NBT_WriteTo W (slot_NBT s) w))))"

text \<open>
  \<^verbatim>\<open>Slot.ReadFrom\<close> fills the fields of its receiver \<open>s\<close> one by one: the result is the error and
  what the receiver then holds, the fields read so far included.
\<close>

definition Slot_ReadFrom :: "'r reader \<Rightarrow> Slot \<Rightarrow> 'r \<Rightarrow> ((go_err option \<times> Slot) \<times> 'r) option" where
  "Slot_ReadFrom R s r =
     (case Boolean_ReadFrom R r of
        (Inl e, r) \<Rightarrow> Some ((Some e, s), r)
      | (Inr present, r) \<Rightarrow>
          let s = s\<lparr>slot_Present := present\<rparr> in
          if \<not> present then Some ((None, s), r)
          else case VarInt_ReadFrom R (slot_ItemID s) r of
            ((Some e, _), r) \<Rightarrow> Some ((Some e, s), r)
          | ((None, item), r) \<Rightarrow>
              let s = s\<lparr>slot_ItemID := item\<rparr> in
              case Byte_ReadFrom R r of
                (Inl e, r) \<Rightarrow> Some ((Some e, s), r)
              | (Inr cnt, r) \<Rightarrow>
                  let s = s\<lparr>slot_Count := cnt\<rparr> in
                  map_option (\<lambda>(x, r).
                      case x of Inl e \<Rightarrow> ((Some e, s), r)
                      | Inr nbt \<Rightarrow> ((None, s\<lparr>slot_NBT := nbt\<rparr>), r))
                    (NBT_ReadFrom R r))"

fun BitSet_write_loop :: "'w writer \<Rightarrow> i64 list \<Rightarrow> 'w \<Rightarrow> (nat \<times> go_err option) \<times> 'w" where
  "BitSet_write_loop W [] w = ((0, None), w)"
| "BitSet_write_loop W (v # vs) w =
     then_write (W (be_put 8 v) w) (BitSet_write_loop W vs)"

definition BitSet_WriteTo :: "'w writer \<Rightarrow> i64 list \<Rightarrow> 'w \<Rightarrow> (nat \<times> go_err option) \<times> 'w" where
  "BitSet_WriteTo W bs w =
     then_write (VarInt_WriteTo W (word_of_nat (length bs)) w) (BitSet_write_loop W bs)"

fun BitSet_read_loop :: "'r reader \<Rightarrow> nat \<Rightarrow> 'r \<Rightarrow> i64 list res \<times> 'r" where
  "BitSet_read_loop R 0 r = (Inr [], r)"
| "BitSet_read_loop R (Suc i) r =
     (case read_be R 8 r of
        (Inl e, r') \<Rightarrow> (Inl e, r')
      | (Inr v, r') \<Rightarrow>
          case BitSet_read_loop R i r' of
            (Inl e, r'') \<Rightarrow> (Inl e, r'') | (Inr vs, r'') \<Rightarrow> (Inr (v # vs), r''))"

definition BitSet_ReadFrom :: "'r reader \<Rightarrow> 'r \<Rightarrow> i64 list res \<times> 'r" where
  "BitSet_ReadFrom R r =
     (case ReadVarInt R r of
        (Inl e, r') \<Rightarrow> (Inl e, r')
      | (Inr len, r') \<Rightarrow>
          if sint len < 0 then (Inl Panic, r') else BitSet_read_loop R (nat (sint len)) r')"

section \<open>What the writers put on the wire\<close>

text \<open>
  \<open>emits written ok f bs\<close>: the write \<open>f\<close> appends a prefix of \<open>bs\<close> to what its sink has passed on,
  reports the length of that prefix, keeps the sink's invariant, and the prefix is all of \<open>bs\<close> when
  it reports no error.
\<close>

definition emits ::
  "('w \<Rightarrow> byte list) \<Rightarrow> ('w \<Rightarrow> bool) \<Rightarrow> ('w \<Rightarrow> (nat \<times> go_err option) \<times> 'w) \<Rightarrow> byte list \<Rightarrow> bool" where
  "emits written ok f bs \<longleftrightarrow>
     (\<forall>w n e w'. ok w \<longrightarrow> f w = ((n, e), w') \<longrightarrow>
        n \<le> length bs \<and> written w' = written w @ take n bs \<and> ok w' \<and> (e = None \<longrightarrow> n = length bs))"

lemma emits_then_write:
  assumes f: "emits written ok f bs" and g: "emits written ok g cs"
  shows "emits written ok (\<lambda>w. then_write (f w) g) (bs @ cs)"
proof (unfold emits_def, intro allI impI)
  fix w n e w'
  assume ok: "ok w" and eq: "then_write (f w) g = ((n, e), w')"
  obtain m e1 w1 where f1: "f w = ((m, e1), w1)" by (metis prod.exhaust)
  have F: "m \<le> length bs" "written w1 = written w @ take m bs" "ok w1" "e1 = None \<Longrightarrow> m = length bs"
    using f ok f1 unfolding emits_def by blast+
  show "n \<le> length (bs @ cs) \<and> written w' = written w @ take n (bs @ cs) \<and> ok w' \<and>
      (e = None \<longrightarrow> n = length (bs @ cs))"
  proof (cases e1)
    case (Some er)
    with eq f1 F show ?thesis by (auto simp: then_write_def)
  next
    case None
    obtain k e2 w2 where g1: "g w1 = ((k, e2), w2)" by (metis prod.exhaust)
    have "k \<le> length cs" "written w2 = written w1 @ take k cs" "ok w2" "e2 = None \<Longrightarrow> k = length cs"
      using g F(3) g1 unfolding emits_def by blast+
    with eq f1 F None g1 show ?thesis by (auto simp: then_write_def)
  qed
qed

lemma emits_nothing: "emits written ok (\<lambda>w. ((0, None), w)) []"
  by (simp add: emits_def)

text \<open>The encodings.\<close>

definition String_enc :: "gostring \<Rightarrow> byte list" where
  "String_enc s = leb (word_of_nat (length s) :: i32) @ s"

definition Position_bits :: "Position \<Rightarrow> i64" where
  "Position_bits p =
     push_bit 38 (pos_X p AND 0x3FFFFFF) OR push_bit 12 (pos_Z p AND 0x3FFFFFF) OR (pos_Y p AND 0xFFF)"

definition Slot_enc :: "Slot \<Rightarrow> byte list" where
  "Slot_enc s =
     (if \<not> slot_Present s then [0]
      else [1] @ leb (slot_ItemID s) @ [slot_Count s] @ nbt_Data (slot_NBT s))"

definition BitSet_enc :: "i64 list \<Rightarrow> byte list" where
  "BitSet_enc bs = leb (word_of_nat (length bs) :: i32) @ concat (map (be_put 8) bs)"

lemmas write_defs =
  Byte_WriteTo_def UnsignedByte_WriteTo_def Short_WriteTo_def UnsignedShort_WriteTo_def
  Int_WriteTo_def Long_WriteTo_def Float_WriteTo_def Double_WriteTo_def Boolean_WriteTo_def
  Angle_WriteTo_def UUID_WriteTo_def ByteArray_WriteTo_def NBT_WriteTo_def

context byte_sink
begin

lemma emits_W: "emits written ok (W bs) bs"
  unfolding emits_def using write_prefix write_complete by blast

lemma emits_VarInt: "emits written ok (VarInt_WriteTo W v) (leb v)"
  using emits_W by (simp add: VarInt_WriteTo_leb [abs_def])

lemma emits_simple:
  "emits written ok (Byte_WriteTo W b) [b]"
  "emits written ok (Boolean_WriteTo W x) [if x then 1 else 0]"
  "emits written ok (Short_WriteTo W s) (be_put 2 s)"
  "emits written ok (Int_WriteTo W i) (be_put 4 i)"
  "emits written ok (Long_WriteTo W l) (be_put 8 l)"
  "emits written ok (NBT_WriteTo W nbt) (nbt_Data nbt)"
  using emits_W by (simp_all add: write_defs [abs_def])

lemma emits_String: "emits written ok (String_WriteTo W s) (String_enc s)"
  unfolding String_WriteTo_def [abs_def] String_enc_def
  by (rule emits_then_write [OF emits_VarInt emits_W])

lemma emits_Position: "emits written ok (Position_WriteTo W p) (be_put 8 (Position_bits p))"
  using emits_W by (simp add: Position_WriteTo_def [abs_def] Position_bits_def)

lemma emits_Slot: "emits written ok (Slot_WriteTo W s) (Slot_enc s)"
proof (cases "slot_Present s")
  case True
  have "emits written ok (\<lambda>w. then_write (Boolean_WriteTo W True w) (\<lambda>w.
           then_write (VarInt_WriteTo W (slot_ItemID s) w) (\<lambda>w.
           then_write (Byte_WriteTo W (slot_Count s) w) (\<lambda>w.
           NBT_WriteTo W (slot_NBT s) w))))
        ([if True then 1 else 0] @ leb (slot_ItemID s) @ [slot_Count s] @ nbt_Data (slot_NBT s))"
    by (intro emits_then_write emits_simple emits_VarInt)
  with True show ?thesis by (simp add: Slot_WriteTo_def [abs_def] Slot_enc_def)
next
  case False
  then show ?thesis
    using emits_simple(2) [of False] by (simp add: Slot_WriteTo_def [abs_def] Slot_enc_def)
qed

lemma emits_BitSet_loop:
  "emits written ok (BitSet_write_loop W vs) (concat (map (be_put 8) vs))"
proof (induction vs)
  case Nil
  then show ?case using emits_nothing by simp
next
  case (Cons v vs)
  then show ?case using emits_then_write [OF emits_W Cons] by simp
qed

lemma emits_BitSet: "emits written ok (BitSet_WriteTo W vs) (BitSet_enc vs)"
  unfolding BitSet_WriteTo_def [abs_def] BitSet_enc_def
  by (rule emits_then_write [OF emits_VarInt emits_BitSet_loop])

end

section \<open>What the readers make of it\<close>

text \<open>
  \<open>delivers content stop f bs v\<close>: on a source whose next bytes are \<open>bs\<close>, the read \<open>f\<close> succeeds with
  \<open>v\<close> and consumes exactly these bytes.
\<close>

definition delivers ::
  "('r \<Rightarrow> byte list) \<Rightarrow> ('r \<Rightarrow> go_err) \<Rightarrow> ('r \<Rightarrow> 'a res \<times> 'r) \<Rightarrow> byte list \<Rightarrow> 'a \<Rightarrow> bool" where
  "delivers content stop f bs v \<longleftrightarrow>
     (\<forall>r rest. content r = bs @ rest \<longrightarrow>
        (\<exists>r'. f r = (Inr v, r') \<and> content r' = rest \<and> stop r' = stop r))"

lemma deliversE:
  assumes "delivers content stop f bs v" and "content r = bs @ rest"
  obtains r' where "f r = (Inr v, r')" "content r' = rest" "stop r' = stop r"
  using assms unfolding delivers_def by blast

lemmas read_defs =
  Byte_ReadFrom_def UnsignedByte_ReadFrom_def Short_ReadFrom_def UnsignedShort_ReadFrom_def
  Int_ReadFrom_def Long_ReadFrom_def Float_ReadFrom_def Double_ReadFrom_def Angle_ReadFrom_def
  UUID_ReadFrom_def

context byte_source
begin

lemma delivers_ReadByte: "delivers content stop (ReadByte R) [b] b"
  unfolding delivers_def by (auto elim: ReadByte_cons_obtain)

lemma delivers_ReadFull: "delivers content stop (ReadFull R (length bs)) bs bs"
  unfolding delivers_def by (auto elim: ReadFull_append_obtain)

lemma delivers_ReadVarInt: "delivers content stop (ReadVarInt R) (leb v) v"
  unfolding delivers_def by (auto elim: ReadVarInt_leb_obtain)

lemma delivers_read_be:
  assumes "LENGTH('a) \<le> 8 * k"
  shows "delivers content stop (read_be R k) (be_put k v) (v :: 'a::len word)"
  unfolding delivers_def
proof (intro allI impI)
  fix r rest assume "content r = be_put k v @ rest"
  then obtain r' where "ReadFull R k r = (Inr (be_put k v), r')" "content r' = rest" "stop r' = stop r"
    by (rule ReadFull_append_obtain) simp
  then show "\<exists>r'. read_be R k r = (Inr v, r') \<and> content r' = rest \<and> stop r' = stop r"
    using be_get_be_put [OF assms, of v] by (simp add: read_be_def)
qed

lemma delivers_Boolean: "delivers content stop (Boolean_ReadFrom R) [if b then 1 else 0] b"
  unfolding delivers_def
proof (intro allI impI)
  fix r rest assume "content r = [if b then 1 else 0] @ rest"
  then obtain r' where "ReadByte R r = (Inr (if b then 1 else 0), r')" "content r' = rest"
      "stop r' = stop r"
    using ReadByte_cons_obtain [of r "if b then 1 else 0" rest] by auto
  then show "\<exists>r'. Boolean_ReadFrom R r = (Inr b, r') \<and> content r' = rest \<and> stop r' = stop r"
    by (simp add: Boolean_ReadFrom_def)
qed

lemma delivers_String:
  assumes "length s \<le> 32767"
  shows "delivers content stop (String_ReadFrom R) (String_enc s) s"
  unfolding delivers_def
proof (intro allI impI)
  fix r rest assume "content r = String_enc s @ rest"
  then obtain r' where r': "ReadVarInt R r = (Inr (word_of_nat (length s)), r')"
      "content r' = s @ rest" "stop r' = stop r"
    using ReadVarInt_leb_obtain [of r "word_of_nat (length s)" "s @ rest"]
    by (auto simp: String_enc_def)
  obtain r'' where "ReadFull R (length s) r' = (Inr s, r'')" "content r'' = rest" "stop r'' = stop r'"
    using ReadFull_append_obtain [OF r'(2) refl] by blast
  then show "\<exists>r'. String_ReadFrom R r = (Inr s, r') \<and> content r' = rest \<and> stop r' = stop r"
    using r' assms by (simp add: String_ReadFrom_def sint_i32_of_nat)
qed

lemma delivers_BitSet_loop:
  "delivers content stop (BitSet_read_loop R (length vs)) (concat (map (be_put 8) vs)) vs"
proof (induction vs)
  case Nil
  then show ?case by (simp add: delivers_def)
next
  case (Cons v vs)
  show ?case
    unfolding delivers_def
  proof (intro allI impI)
    fix r rest assume "content r = concat (map (be_put 8) (v # vs)) @ rest"
    then have c: "content r = be_put 8 v @ concat (map (be_put 8) vs) @ rest" by simp
    have v8: "delivers content stop (read_be R 8) (be_put 8 v) v"
      by (rule delivers_read_be) simp
    obtain r1 where r1: "read_be R 8 r = (Inr v, r1)"
        "content r1 = concat (map (be_put 8) vs) @ rest" "stop r1 = stop r"
      using deliversE [OF v8 c] by blast
    obtain r2 where "BitSet_read_loop R (length vs) r1 = (Inr vs, r2)" "content r2 = rest"
        "stop r2 = stop r1"
      using deliversE [OF Cons r1(2)] by blast
    with r1 show "\<exists>r'. BitSet_read_loop R (length (v # vs)) r = (Inr (v # vs), r') \<and>
        content r' = rest \<and> stop r' = stop r"
      by simp
  qed
qed

lemma delivers_BitSet:
  assumes "length vs < 2 ^ 31"
  shows "delivers content stop (BitSet_ReadFrom R) (BitSet_enc vs) vs"
  unfolding delivers_def
proof (intro allI impI)
  fix r rest assume "content r = BitSet_enc vs @ rest"
  then obtain r' where r': "ReadVarInt R r = (Inr (word_of_nat (length vs)), r')"
      "content r' = concat (map (be_put 8) vs) @ rest" "stop r' = stop r"
    using ReadVarInt_leb_obtain [of r "word_of_nat (length vs)" "concat (map (be_put 8) vs) @ rest"]
    by (auto simp: BitSet_enc_def)
  obtain r'' where "BitSet_read_loop R (length vs) r' = (Inr vs, r'')" "content r'' = rest"
      "stop r'' = stop r'"
    using deliversE [OF delivers_BitSet_loop r'(2)] by blast
  with r' assms
  show "\<exists>r'. BitSet_ReadFrom R r = (Inr vs, r') \<and> content r' = rest \<and> stop r' = stop r"
    by (simp add: BitSet_ReadFrom_def sint_i32_of_nat)
qed

end

subsection \<open>Positions\<close>

text \<open>What survives of a position: each coordinate cut to its field and sign-extended.\<close>

definition Position_fields :: "Position \<Rightarrow> Position" where
  "Position_fields p =
     \<lparr>pos_X = signed_take_bit 25 (pos_X p), pos_Y = signed_take_bit 11 (pos_Y p),
      pos_Z = signed_take_bit 25 (pos_Z p)\<rparr>"

lemma sint_take_bit_small:
  fixes w :: i64
  assumes "m < 64"
  shows "sint (take_bit m w) = take_bit m (uint w)"
proof -
  have "take_bit m (uint w) < 2 ^ m" by simp
  also have "(2 ^ m :: int) \<le> 2 ^ 63" using assms by (intro power_increasing) auto
  finally have "signed_take_bit 63 (take_bit m (uint w)) = take_bit m (uint w)"
    by (intro signed_take_bit_int_eq_self) (auto intro: order_trans [of _ 0])
  then show ?thesis by (simp add: sint_uint unsigned_take_bit_eq)
qed

lemma sign_extend_field:
  fixes w :: i64
  assumes "k < 62" and m: "m = Suc k"
  shows "(if sint (take_bit m w) \<ge> 2 ^ k then take_bit m w - 2 ^ m else take_bit m w) =
    signed_take_bit k w"
proof (cases "bit w k")
  case True
  let ?t = "take_bit (Suc k) w"
  have "take_bit (Suc k) (uint w) = take_bit k (uint w) + 2 ^ k"
    using True assms by (simp add: take_bit_Suc_from_most bit_uint_iff)
  then have le: "sint ?t \<ge> 2 ^ k" using assms by (simp add: sint_take_bit_small)
  have "?t - 2 ^ Suc k = ?t + NOT (mask (Suc k))"
    by (simp flip: minus_exp_eq_not_mask)
  also have "\<dots> = ?t OR NOT (mask (Suc k))"
    by (rule disjunctive_add_eq_or) (auto intro!: bit_word_eqI simp: bit_simps)
  also have "\<dots> = signed_take_bit k w"
    using True by (intro bit_word_eqI) (auto simp: bit_simps min_def le_less_Suc_eq)
  finally show ?thesis using le by (simp add: m)
next
  case False
  have "take_bit (Suc k) (uint w) = take_bit k (uint w)"
    using False by (simp add: take_bit_Suc_from_most bit_uint_iff)
  then have "\<not> sint (take_bit (Suc k) w) \<ge> 2 ^ k"
    using assms by (simp add: sint_take_bit_small not_le)
  moreover have "take_bit (Suc k) w = signed_take_bit k w"
    using False by (intro bit_word_eqI) (auto simp: bit_simps min_def not_less_eq less_Suc_eq)
  ultimately show ?thesis by (simp add: m)
qed

lemma field_masks:
  "w AND 0x3FFFFFF = take_bit 26 (w :: i64)" "w AND 0xFFF = take_bit 12 (w :: i64)"
  by (simp_all add: take_bit_eq_mask mask_eq_exp_minus_1)

lemma Position_bits_fields:
  "drop_bit 38 (Position_bits p) = take_bit 26 (pos_X p)"
  "take_bit 26 (drop_bit 12 (Position_bits p)) = take_bit 26 (pos_Z p)"
  "take_bit 12 (Position_bits p) = take_bit 12 (pos_Y p)"
  unfolding Position_bits_def field_masks
  by (rule bit_word_eqI, auto simp: bit_simps)+

lemma sign_extend_26:
  "(if sint (take_bit 26 w) \<ge> 0x2000000 then take_bit 26 w - 0x4000000 else take_bit 26 w) =
   signed_take_bit 25 (w :: i64)"
  using sign_extend_field [of 25 26 w] by (simp split: if_splits)

lemma sign_extend_12:
  "(if sint (take_bit 12 w) \<ge> 0x800 then take_bit 12 w - 0x1000 else take_bit 12 w) =
   signed_take_bit 11 (w :: i64)"
  using sign_extend_field [of 11 12 w] by (simp split: if_splits)

lemma Position_of_bits_bits: "Position_of_bits (Position_bits p) = Position_fields p"
  unfolding Position_of_bits_def Position_fields_def Let_def field_masks Position_bits_fields
    sign_extend_26 sign_extend_12 by (rule refl)

subsection \<open>NBT: terminated by two zero bytes\<close>

text \<open>Two adjacent zero bytes somewhere in the list.\<close>

fun double0 :: "byte list \<Rightarrow> bool" where
  "double0 (a # b # bs) \<longleftrightarrow> a = 0 \<and> b = 0 \<or> double0 (b # bs)"
| "double0 _ \<longleftrightarrow> False"

text \<open>NBT data that the reader takes back whole: the first double zero is its end.\<close>

definition nbt_wf :: "byte list \<Rightarrow> bool" where
  "nbt_wf d \<longleftrightarrow> double0 d \<and> \<not> double0 (butlast d)"

lemma double0_snoc: "double0 (bs @ [b]) \<longleftrightarrow> double0 bs \<or> bs \<noteq> [] \<and> last bs = 0 \<and> b = 0"
  by (induction bs rule: double0.induct) auto

lemma double0_append: "double0 xs \<Longrightarrow> double0 (xs @ ys)"
  by (induction xs rule: double0.induct) auto

lemma double0_prefix: "\<not> double0 (xs @ ys) \<Longrightarrow> \<not> double0 xs"
  using double0_append by blast

lemma NBT_stop_iff:
  "\<not> double0 buf \<Longrightarrow>
   (b = 0 \<and> length (buf @ [b]) > 1 \<and> (buf @ [b]) ! (length (buf @ [b]) - 2) = 0)
     \<longleftrightarrow> double0 (buf @ [b])"
  by (cases "buf = []") (auto simp: double0_snoc nth_append last_conv_nth)

lemma NBT_loop_step:
  assumes "\<not> double0 buf" and "ReadByte R r = (Inr b, r')"
  shows "NBT_loop R buf r =
    (if double0 (buf @ [b]) then Some (Inr (buf @ [b]), r') else NBT_loop R (buf @ [b]) r')"
  using NBT_stop_iff [OF assms(1), of b] assms(2)
  by (subst NBT_loop.simps) (simp add: Let_def)

context byte_source
begin

lemma NBT_loop_found:
  assumes "content r = bs @ rest" and "nbt_wf (buf @ bs)" and "bs \<noteq> []"
  obtains r' where "NBT_loop R buf r = Some (Inr (buf @ bs), r')" "content r' = rest"
    "stop r' = stop r"
proof -
  have "\<exists>r'. NBT_loop R buf r = Some (Inr (buf @ bs), r') \<and> content r' = rest \<and> stop r' = stop r"
    using assms
  proof (induction bs arbitrary: buf r)
    case Nil
    then show ?case by simp
  next
    case (Cons b bs)
    obtain r1 where r1: "ReadByte R r = (Inr b, r1)" "content r1 = bs @ rest" "stop r1 = stop r"
      using ReadByte_cons_obtain [of r b "bs @ rest"] Cons.prems(1) by auto
    have nd: "\<not> double0 buf"
      using Cons.prems(2) by (auto simp: nbt_wf_def butlast_append double0_prefix)
    show ?case
    proof (cases "bs = []")
      case True
      with Cons.prems(2) have "double0 (buf @ [b])" by (simp add: nbt_wf_def)
      with True r1 NBT_loop_step [OF nd r1(1)] show ?thesis by auto
    next
      case False
      then have "\<not> double0 (buf @ [b])"
        using Cons.prems(2) by (auto simp: nbt_wf_def butlast_append double0_prefix)
      with r1 NBT_loop_step [OF nd r1(1)] Cons.IH [OF r1(2), of "buf @ [b]"] Cons.prems(2) False
      show ?thesis by auto
    qed
  qed
  then show thesis using that by blast
qed

end

context byte_source
begin

text \<open>On a source of finitely many bytes the loop always returns.\<close>

lemma NBT_loop_total:
  assumes "\<not> double0 buf"
  shows "(\<exists>d r'. NBT_loop R buf r = Some (Inr d, r') \<and> nbt_wf d \<and> buf @ content r = d @ content r') \<or>
    \<not> double0 (buf @ content r) \<and> (\<exists>r'. NBT_loop R buf r = Some (Inl (stop r), r') \<and> content r' = [])"
  using assms
proof (induction "content r" arbitrary: buf r)
  case Nil
  then obtain r' where "ReadByte R r = (Inl (stop r), r')" "content r' = []"
    using ReadByte_nil_obtain by metis
  then have "NBT_loop R buf r = Some (Inl (stop r), r')" by (subst NBT_loop.simps) simp
  with Nil \<open>content r' = []\<close> show ?case by (metis append_Nil2)
next
  case (Cons b bs)
  obtain r1 where r1: "ReadByte R r = (Inr b, r1)" "content r1 = bs" "stop r1 = stop r"
    using ReadByte_cons_obtain [OF Cons.hyps(2) [symmetric]] by blast
  have c: "buf @ content r = (buf @ [b]) @ content r1" using r1 Cons.hyps(2) by simp
  show ?case
  proof (cases "double0 (buf @ [b])")
    case True
    with NBT_loop_step [OF Cons.prems r1(1)] Cons.prems c show ?thesis
      by (auto simp: nbt_wf_def)
  next
    case False
    with NBT_loop_step [OF Cons.prems r1(1)]
    have "NBT_loop R buf r = NBT_loop R (buf @ [b]) r1" by simp
    with Cons.hyps(1) [OF r1(2) [symmetric] False] show ?thesis unfolding c r1(3) [symmetric] by simp
  qed
qed

lemma NBT_ReadFrom_wf:
  assumes "content r = d @ rest" and "nbt_wf d"
  obtains r' where "NBT_ReadFrom R r = Some (Inr \<lparr>nbt_Data = d\<rparr>, r')" "content r' = rest"
    "stop r' = stop r"
proof -
  have "d \<noteq> []" using assms(2) by (auto simp: nbt_wf_def)
  with assms obtain r' where "NBT_loop R [] r = Some (Inr ([] @ d), r')" "content r' = rest"
      "stop r' = stop r"
    using NBT_loop_found [of r d rest "[]"] by auto
  then show thesis by (intro that [of r']) (simp_all add: NBT_ReadFrom_def)
qed

lemma Slot_ReadFrom_absent:
  assumes "content r = 0 # rest"
  obtains r' where "Slot_ReadFrom R s r = Some ((None, s\<lparr>slot_Present := False\<rparr>), r')"
    "content r' = rest"
proof -
  obtain r' where "Boolean_ReadFrom R r = (Inr False, r')" "content r' = rest"
    using deliversE [OF delivers_Boolean [of False], of r rest] assms by auto
  then show thesis by (intro that [of r']) (simp_all add: Slot_ReadFrom_def)
qed

text \<open>A present slot is read field by field; only the NBT payload can still fail.\<close>

lemma Slot_ReadFrom_present:
  assumes "content r = [1] @ leb item @ [cnt] @ bs"
  obtains r' where "content r' = bs" "stop r' = stop r"
    "Slot_ReadFrom R s r =
       map_option (\<lambda>(x, r'').
           case x of Inl e \<Rightarrow> ((Some e, s\<lparr>slot_Present := True, slot_ItemID := item, slot_Count := cnt\<rparr>), r'')
           | Inr nbt \<Rightarrow>
               ((None, s\<lparr>slot_Present := True, slot_ItemID := item, slot_Count := cnt, slot_NBT := nbt\<rparr>), r''))
         (NBT_ReadFrom R r')"
proof -
  obtain r1 where r1: "Boolean_ReadFrom R r = (Inr True, r1)" "content r1 = leb item @ [cnt] @ bs"
      "stop r1 = stop r"
    using deliversE [OF delivers_Boolean [of True], of r "leb item @ [cnt] @ bs"] assms by auto
  obtain r2 where r2: "ReadVarInt R r1 = (Inr item, r2)" "content r2 = [cnt] @ bs" "stop r2 = stop r1"
    using deliversE [OF delivers_ReadVarInt r1(2)] by blast
  obtain r3 where r3: "ReadByte R r2 = (Inr cnt, r3)" "content r3 = bs" "stop r3 = stop r2"
    using deliversE [OF delivers_ReadByte r2(2)] by blast
  have "Slot_ReadFrom R s r =
       map_option (\<lambda>(x, r'').
           case x of Inl e \<Rightarrow> ((Some e, s\<lparr>slot_Present := True, slot_ItemID := item, slot_Count := cnt\<rparr>), r'')
           | Inr nbt \<Rightarrow>
               ((None, s\<lparr>slot_Present := True, slot_ItemID := item, slot_Count := cnt, slot_NBT := nbt\<rparr>), r''))
         (NBT_ReadFrom R r3)"
    using r1 r2 r3 by (simp add: Slot_ReadFrom_def VarInt_ReadFrom_def Byte_ReadFrom_def Let_def)
  with r1 r2 r3 show thesis by (intro that [of r3]) simp_all
qed

end

section \<open>Properties\<close>

text \<open>
  \<open>roundtrips wr rd v\<close>: whenever \<open>wr\<close> reports success on a connection, \<open>rd\<close> at the receiving end
  returns \<open>v\<close> and leaves exactly the bytes that follow.
\<close>

definition roundtrips ::
  "(outconn \<Rightarrow> (nat \<times> go_err option) \<times> outconn) \<Rightarrow> (inconn \<Rightarrow> 'a res \<times> inconn) \<Rightarrow> 'a \<Rightarrow> bool" where
  "roundtrips wr rd v \<longleftrightarrow>
     (\<forall>out n out' c rest. wr out = ((n, None), out') \<longrightarrow>
        pending c = drop (length (sent out)) (sent out') @ rest \<longrightarrow>
        (\<exists>c'. rd c = (Inr v, c') \<and> pending c' = rest))"

lemma emits_sent:
  assumes "emits sent (\<lambda>_. True) wr bs" and "wr out = ((n, None), out')"
  shows "drop (length (sent out)) (sent out') = bs"
  using assms unfolding emits_def by fastforce

lemma roundtripsI:
  assumes "emits sent (\<lambda>_. True) wr bs" and "delivers pending fin rd bs v"
  shows "roundtrips wr rd v"
  unfolding roundtrips_def using emits_sent [OF assms(1)] deliversE [OF assms(2)] by metis

text \<open>Every fixed-width type of the protocol survives the wire: bytes, shorts, ints, longs,
  floats, doubles, booleans, angles, UUIDs and raw byte arrays.\<close>

theorem scalar_roundtrip:
  "roundtrips (Byte_WriteTo conn_Write b) (Byte_ReadFrom conn_reader) b \<and>
   roundtrips (UnsignedByte_WriteTo conn_Write b) (UnsignedByte_ReadFrom conn_reader) b \<and>
   roundtrips (Short_WriteTo conn_Write s) (Short_ReadFrom conn_reader) s \<and>
   roundtrips (UnsignedShort_WriteTo conn_Write s) (UnsignedShort_ReadFrom conn_reader) s \<and>
   roundtrips (Int_WriteTo conn_Write i) (Int_ReadFrom conn_reader) i \<and>
   roundtrips (Long_WriteTo conn_Write l) (Long_ReadFrom conn_reader) l \<and>
   roundtrips (Float_WriteTo conn_Write i) (Float_ReadFrom conn_reader) i \<and>
   roundtrips (Double_WriteTo conn_Write l) (Double_ReadFrom conn_reader) l \<and>
   roundtrips (Boolean_WriteTo conn_Write x) (Boolean_ReadFrom conn_reader) x \<and>
   roundtrips (Angle_WriteTo conn_Write b) (Angle_ReadFrom conn_reader) b \<and>
   roundtrips (UUID_WriteTo conn_Write (be_put 16 u)) (UUID_ReadFrom conn_reader) (be_put 16 (u :: 128 word)) \<and>
   roundtrips (ByteArray_WriteTo conn_Write ba) (ByteArray_ReadFrom conn_reader (int (length ba))) ba"
proof -
  have byte: "roundtrips (conn_Write [y]) (ReadByte conn_reader) y" for y
    by (rule roundtripsI [OF conn_snk.emits_W conn_src.delivers_ReadByte])
  have be: "roundtrips (conn_Write (be_put k y)) (read_be conn_reader k) y"
    if "LENGTH('a) \<le> 8 * k" for k and y :: "'a::len word"
    by (rule roundtripsI [OF conn_snk.emits_W conn_src.delivers_read_be [OF that]])
  have raw: "roundtrips (conn_Write y) (ReadFull conn_reader (length y)) y" for y
    by (rule roundtripsI [OF conn_snk.emits_W conn_src.delivers_ReadFull])
  have bool: "roundtrips (Boolean_WriteTo conn_Write x) (Boolean_ReadFrom conn_reader) x"
    by (rule roundtripsI [OF conn_snk.emits_simple(2) conn_src.delivers_Boolean])
  show ?thesis
    using byte be [of 2 s] be [of 4 i] be [of 8 l] raw [of "be_put 16 u"] raw [of ba] bool
    by (simp add: write_defs [abs_def] read_defs [abs_def] ByteArray_ReadFrom_def [abs_def])
qed

text \<open>C28: strings up to 32767 bytes survive the wire, and the reader refuses a longer one with
  \<^verbatim>\<open>ErrPacketTooLarge\<close> although the writer sends it.\<close>

theorem String_roundtrip:
  assumes "length s < 2 ^ 31"
  shows "if length s \<le> 32767
    then roundtrips (String_WriteTo conn_Write s) (String_ReadFrom conn_reader) s
    else (\<forall>out n out' c. String_WriteTo conn_Write s out = ((n, None), out') \<longrightarrow>
            pending c = drop (length (sent out)) (sent out') \<longrightarrow>
            fst (String_ReadFrom conn_reader c) = Inl ErrPacketTooLarge)"
proof (cases "length s \<le> 32767")
  case True
  then show ?thesis
    using roundtripsI [OF conn_snk.emits_String conn_src.delivers_String] by simp
next
  case False
  have "fst (String_ReadFrom conn_reader c) = Inl ErrPacketTooLarge"
    if "String_WriteTo conn_Write s out = ((n, None), out')"
      "pending c = drop (length (sent out)) (sent out')" for out n out' c
  proof -
    have "pending c = leb (word_of_nat (length s) :: i32) @ s"
      using emits_sent [OF conn_snk.emits_String that(1)] that(2) by (simp add: String_enc_def)
    then obtain c' where "ReadVarInt conn_reader c = (Inr (word_of_nat (length s)), c')"
      by (rule conn_src.ReadVarInt_leb_obtain)
    with False assms show ?thesis by (simp add: String_ReadFrom_def sint_i32_of_nat)
  qed
  with False show ?thesis by simp
qed

theorem String_roundtrip_witness:
  "roundtrips (String_WriteTo conn_Write [0x68, 0x69]) (String_ReadFrom conn_reader) [0x68, 0x69]"
  using String_roundtrip [of "[0x68, 0x69]"] by simp

text \<open>A block position survives the wire exactly when its coordinates fit their fields (26 bits
  for X and Z, 12 for Y, signed); otherwise each coordinate comes back reduced to its field.\<close>

theorem Position_roundtrip:
  "roundtrips (Position_WriteTo conn_Write p) (Position_ReadFrom conn_reader) (Position_fields p) \<and>
   (Position_fields p = p \<longleftrightarrow>
      - (2 ^ 25) \<le> sint (pos_X p) \<and> sint (pos_X p) < 2 ^ 25 \<and>
      - (2 ^ 25) \<le> sint (pos_Z p) \<and> sint (pos_Z p) < 2 ^ 25 \<and>
      - (2 ^ 11) \<le> sint (pos_Y p) \<and> sint (pos_Y p) < 2 ^ 11)"
proof
  have "delivers pending fin (Position_ReadFrom conn_reader) (be_put 8 (Position_bits p)) (Position_fields p)"
    unfolding delivers_def
  proof (intro allI impI)
    fix c :: inconn and rest assume c: "pending c = be_put 8 (Position_bits p) @ rest"
    have d: "delivers pending fin (read_be conn_reader 8) (be_put 8 (Position_bits p)) (Position_bits p)"
      by (rule conn_src.delivers_read_be) simp
    obtain c' where "read_be conn_reader 8 c = (Inr (Position_bits p), c')" "pending c' = rest" "fin c' = fin c"
      using deliversE [OF d c] by blast
    then show "\<exists>r'. Position_ReadFrom conn_reader c = (Inr (Position_fields p), r') \<and>
        pending r' = rest \<and> fin r' = fin c"
      by (simp add: Position_ReadFrom_def Position_of_bits_bits)
  qed
  then show "roundtrips (Position_WriteTo conn_Write p) (Position_ReadFrom conn_reader) (Position_fields p)"
    by (rule roundtripsI [OF conn_snk.emits_Position])
  have fit: "signed_take_bit k w = w \<longleftrightarrow> - (2 ^ k) \<le> sint w \<and> sint w < 2 ^ k" if "k < 63"
    for k and w :: i64
  proof -
    have "sint (signed_take_bit k w) = signed_take_bit k (sint w)"
      using that by (intro bit_eqI) (auto simp: bit_simps min_def)
    then show ?thesis
      using signed_take_bit_int_eq_self_iff [of k "sint w"] by (metis signed_word_eqI)
  qed
  show "Position_fields p = p \<longleftrightarrow>
      - (2 ^ 25) \<le> sint (pos_X p) \<and> sint (pos_X p) < 2 ^ 25 \<and>
      - (2 ^ 25) \<le> sint (pos_Z p) \<and> sint (pos_Z p) < 2 ^ 25 \<and>
      - (2 ^ 11) \<le> sint (pos_Y p) \<and> sint (pos_Y p) < 2 ^ 11"
    using fit [of 25 "pos_X p"] fit [of 25 "pos_Z p"] fit [of 11 "pos_Y p"]
    by (cases p) (auto simp: Position_fields_def)
qed


text \<open>Bit sets survive the wire; a length prefix that is negative as an \<^verbatim>\<open>int32\<close> makes the
  reader panic in \<^verbatim>\<open>make\<close>, whatever follows it.\<close>

theorem BitSet_roundtrip:
  assumes "length vs < 2 ^ 31" and "sint n < 0" and "pending c = leb (n :: i32) @ rest"
  shows "roundtrips (BitSet_WriteTo conn_Write vs) (BitSet_ReadFrom conn_reader) vs \<and>
    fst (BitSet_ReadFrom conn_reader c) = Inl Panic"
proof
  show "roundtrips (BitSet_WriteTo conn_Write vs) (BitSet_ReadFrom conn_reader) vs"
    by (rule roundtripsI [OF conn_snk.emits_BitSet conn_src.delivers_BitSet [OF assms(1)]])
  obtain c' where "ReadVarInt conn_reader c = (Inr n, c')"
    using assms(3) by (rule conn_src.ReadVarInt_leb_obtain)
  with assms(2) show "fst (BitSet_ReadFrom conn_reader c) = Inl Panic"
    by (simp add: BitSet_ReadFrom_def)
qed

theorem BitSet_roundtrip_witness:
  "roundtrips (BitSet_WriteTo conn_Write [7, 0]) (BitSet_ReadFrom conn_reader) [7, 0] \<and>
   fst (BitSet_ReadFrom conn_reader \<lparr>pending = [0xFF, 0xFF, 0xFF, 0xFF, 0x0F], fin = EOF\<rparr>) = Inl Panic"
  by (rule BitSet_roundtrip [of _ "0xFFFFFFFF" _ "[]"]) (simp_all add: leb_i32)

text \<open>C29: an inventory slot survives the wire when it is absent (only the presence flag of the
  receiver is written) or when its NBT payload ends at its first pair of zero bytes.\<close>

theorem Slot_roundtrip:
  assumes "slot_Present s \<Longrightarrow> nbt_wf (nbt_Data (slot_NBT s))"
    and "Slot_WriteTo conn_Write s out = ((n, None), out')"
    and "pending c = drop (length (sent out)) (sent out') @ rest"
  shows "\<exists>c'. Slot_ReadFrom conn_reader s0 c =
      Some ((None, if slot_Present s then s else s0\<lparr>slot_Present := False\<rparr>), c') \<and> pending c' = rest"
proof (cases "slot_Present s")
  case True
  let ?d = "nbt_Data (slot_NBT s)"
  have "pending c = [1] @ leb (slot_ItemID s) @ [slot_Count s] @ ?d @ rest"
    using emits_sent [OF conn_snk.emits_Slot assms(2)] assms(3) True by (simp add: Slot_enc_def)
  then obtain c1 where c1: "pending c1 = ?d @ rest" "fin c1 = fin c"
    and rd: "Slot_ReadFrom conn_reader s0 c =
       map_option (\<lambda>(x, r'').
           case x of Inl e \<Rightarrow> ((Some e, s0\<lparr>slot_Present := True, slot_ItemID := slot_ItemID s,
               slot_Count := slot_Count s\<rparr>), r'')
           | Inr nbt \<Rightarrow> ((None, s0\<lparr>slot_Present := True, slot_ItemID := slot_ItemID s,
               slot_Count := slot_Count s, slot_NBT := nbt\<rparr>), r''))
         (NBT_ReadFrom conn_reader c1)"
    by (rule conn_src.Slot_ReadFrom_present)
  obtain c2 where c2: "NBT_ReadFrom conn_reader c1 = Some (Inr \<lparr>nbt_Data = ?d\<rparr>, c2)" "pending c2 = rest"
    using conn_src.NBT_ReadFrom_wf [OF c1(1)] assms(1) True by blast
  have "s0\<lparr>slot_Present := True, slot_ItemID := slot_ItemID s, slot_Count := slot_Count s,
      slot_NBT := \<lparr>nbt_Data = ?d\<rparr>\<rparr> = s"
    using True by (cases s) (cases "slot_NBT s", simp)
  with rd c2 True show ?thesis by simp
next
  case False
  have "pending c = 0 # rest"
    using emits_sent [OF conn_snk.emits_Slot assms(2)] assms(3) False by (simp add: Slot_enc_def)
  then obtain c' where "Slot_ReadFrom conn_reader s0 c = Some ((None, s0\<lparr>slot_Present := False\<rparr>), c')"
      "pending c' = rest"
    by (rule conn_src.Slot_ReadFrom_absent)
  with False show ?thesis by simp
qed

definition sample_slot :: Slot where
  "sample_slot = \<lparr>slot_Present = True, slot_ItemID = 42, slot_Count = 10,
     slot_NBT = \<lparr>nbt_Data = [10, 0, 0]\<rparr>\<rparr>"

theorem Slot_roundtrip_witness:
  "\<exists>c'. Slot_ReadFrom conn_reader sample_slot \<lparr>pending = [1, 42, 10, 10, 0, 0, 99], fin = EOF\<rparr> =
     Some ((None, sample_slot), c') \<and> pending c' = [99]"
  using Slot_roundtrip [of sample_slot "\<lparr>sent = [], room = None, ofail = EOF\<rparr>" 6
      "\<lparr>sent = [1, 42, 10, 10, 0, 0], room = None, ofail = EOF\<rparr>"
      "\<lparr>pending = [1, 42, 10, 10, 0, 0, 99], fin = EOF\<rparr>" "[99]" sample_slot]
  by (simp add: sample_slot_def nbt_wf_def Slot_WriteTo_def then_write_def Boolean_WriteTo_def
      VarInt_WriteTo_leb leb_i32 Byte_WriteTo_def NBT_WriteTo_def conn_Write_def)

text \<open>A present slot with an empty NBT payload cannot be read back: on the stream that holds
  just this slot the reader fails with the error the stream ends with, after it has already
  overwritten the other fields of its receiver.\<close>

theorem Slot_empty_NBT_unreadable:
  assumes "slot_Present s" and "nbt_Data (slot_NBT s) = []"
    and "Slot_WriteTo conn_Write s out = ((n, None), out')"
    and "pending c = drop (length (sent out)) (sent out')"
  shows "\<exists>c'. Slot_ReadFrom conn_reader s0 c = Some ((Some (fin c), s\<lparr>slot_NBT := slot_NBT s0\<rparr>), c')"
proof -
  have "pending c = [1] @ leb (slot_ItemID s) @ [slot_Count s] @ []"
    using emits_sent [OF conn_snk.emits_Slot assms(3)] assms(1,2,4) by (simp add: Slot_enc_def)
  then obtain c1 where c1: "pending c1 = []" "fin c1 = fin c"
    and rd: "Slot_ReadFrom conn_reader s0 c =
       map_option (\<lambda>(x, r'').
           case x of Inl e \<Rightarrow> ((Some e, s0\<lparr>slot_Present := True, slot_ItemID := slot_ItemID s,
               slot_Count := slot_Count s\<rparr>), r'')
           | Inr nbt \<Rightarrow> ((None, s0\<lparr>slot_Present := True, slot_ItemID := slot_ItemID s,
               slot_Count := slot_Count s, slot_NBT := nbt\<rparr>), r''))
         (NBT_ReadFrom conn_reader c1)"
    by (rule conn_src.Slot_ReadFrom_present)
  have "\<exists>c2. NBT_ReadFrom conn_reader c1 = Some (Inl (fin c), c2)"
    using conn_src.NBT_loop_total [of "[]" c1] c1 by (auto simp: NBT_ReadFrom_def nbt_wf_def)
  moreover have "s0\<lparr>slot_Present := True, slot_ItemID := slot_ItemID s, slot_Count := slot_Count s\<rparr> =
      s\<lparr>slot_NBT := slot_NBT s0\<rparr>"
    using assms(1) by (cases s0, cases s) simp
  ultimately show ?thesis using rd by auto
qed

theorem Slot_empty_NBT_unreadable_witness:
  "\<exists>c'. Slot_ReadFrom conn_reader sample_slot \<lparr>pending = [1, 42, 10], fin = EOF\<rparr> =
     Some ((Some EOF, sample_slot), c')"
  using Slot_empty_NBT_unreadable [of "sample_slot\<lparr>slot_NBT := \<lparr>nbt_Data = []\<rparr>\<rparr>"
      "\<lparr>sent = [], room = None, ofail = EOF\<rparr>" 3
      "\<lparr>sent = [1, 42, 10], room = None, ofail = EOF\<rparr>"
      "\<lparr>pending = [1, 42, 10], fin = EOF\<rparr>" sample_slot]
  by (simp add: sample_slot_def Slot_WriteTo_def then_write_def Boolean_WriteTo_def
      VarInt_WriteTo_leb leb_i32 Byte_WriteTo_def NBT_WriteTo_def conn_Write_def)

text \<open>\<^verbatim>\<open>NBT.ReadFrom\<close> returns on every connection that ends: with the bytes up to and including
  the first pair of zero bytes if there is one, and with the error the connection ends with
  otherwise.\<close>

theorem NBT_ReadFrom_returns:
  "if double0 (pending c)
   then \<exists>d c'. NBT_ReadFrom conn_reader c = Some (Inr \<lparr>nbt_Data = d\<rparr>, c') \<and> nbt_wf d \<and>
      pending c = d @ pending c'
   else \<exists>c'. NBT_ReadFrom conn_reader c = Some (Inl (fin c), c') \<and> pending c' = []"
  using conn_src.NBT_loop_total [of "[]" c] double0_append
  by (auto simp: NBT_ReadFrom_def nbt_wf_def)

text \<open>The byte count every composite writer reports is the number of bytes of its encoding that
  reached the connection, also when the connection fails half way.\<close>

theorem WriteTo_counts:
  "emits sent (\<lambda>_. True) (String_WriteTo conn_Write s) (String_enc s) \<and>
   emits sent (\<lambda>_. True) (Slot_WriteTo conn_Write sl) (Slot_enc sl) \<and>
   emits sent (\<lambda>_. True) (BitSet_WriteTo conn_Write vs) (BitSet_enc vs) \<and>
   emits sent (\<lambda>_. True) (Position_WriteTo conn_Write p) (be_put 8 (Position_bits p))"
  by (intro conjI conn_snk.emits_String conn_snk.emits_Slot conn_snk.emits_BitSet
      conn_snk.emits_Position)

end
