(* ===== verification/Compress.thy ===== *)
theory Compress
  imports Internal_Helpers
begin

text \<open>
  Package \<^verbatim>\<open>compress\<close>: the threshold manager, the zlib entry points and their object pools.

  The compressor (\<^verbatim>\<open>klauspost/compress/zlib\<close>) and the decompressor (\<^verbatim>\<open>compress/zlib\<close>) are
  not part of the repository: they are the fields of a record \<open>zlib\<close> that every definition takes.
  \<open>zl_deflate data\<close> is what a writer leaves in its buffer after \<^verbatim>\<open>Write(data)\<close> and
  \<^verbatim>\<open>Close\<close>, or \<open>None\<close> when one of the two fails; \<open>zl_inflate src\<close> is \<open>None\<close>
  when the header of \<open>src\<close> is refused (\<^verbatim>\<open>NewReader\<close> or \<^verbatim>\<open>Reset\<close> fails) and otherwise the bytes the
  reader delivers with the error that ends them (\<open>None\<close> for a clean end of stream).
  What a caller may rely on is \<open>zlib_lossless\<close>: inflating a deflated string gives it back.

  A pooled object is reset before every use, so a pool only has to be modelled by how many objects
  it holds and whether they are still open.
\<close>

section \<open>The external codec\<close>

record zlib =
  zl_deflate :: "byte list \<Rightarrow> byte list option"
  zl_inflate :: "byte list \<Rightarrow> (byte list \<times> go_err option) option"

definition zlib_lossless :: "zlib \<Rightarrow> bool" where
  "zlib_lossless z \<longleftrightarrow> (\<forall>d c. zl_deflate z d = Some c \<longrightarrow> zl_inflate z c = Some (d, None))"

text \<open>A concrete codec that stores the data behind a one-byte header; used in witnesses.\<close>

definition stored_zlib :: zlib where
  "stored_zlib =
     \<lparr>zl_deflate = (\<lambda>d. Some (0x78 # d)),
      zl_inflate = (\<lambda>c. case c of [] \<Rightarrow> None | h # d \<Rightarrow> if h = 0x78 then Some (d, None) else None)\<rparr>"

lemma stored_zlib_lossless: "zlib_lossless stored_zlib"
  by (auto simp: zlib_lossless_def stored_zlib_def)

section \<open>The threshold manager\<close>

record ThresholdManager =
  tm_threshold :: int

definition NewThresholdManager :: "int \<Rightarrow> ThresholdManager" where
  "NewThresholdManager t = \<lparr>tm_threshold = t\<rparr>"

definition Threshold :: "ThresholdManager \<Rightarrow> int" where
  "Threshold tm = tm_threshold tm"

definition SetThreshold :: "ThresholdManager \<Rightarrow> int \<Rightarrow> ThresholdManager" where
  "SetThreshold tm t = tm\<lparr>tm_threshold := t\<rparr>"

definition ShouldCompress :: "ThresholdManager \<Rightarrow> int \<Rightarrow> bool" where
  "ShouldCompress tm dataLength =
     (if tm_threshold tm < 0 then False else dataLength \<ge> tm_threshold tm)"

definition IsEnabled :: "ThresholdManager \<Rightarrow> bool" where
  "IsEnabled tm \<longleftrightarrow> tm_threshold tm \<ge> 0"

section \<open>Pools of zlib objects\<close>

text \<open>
  An object of a \<^verbatim>\<open>sync.Pool\<close>: \<open>True\<close> while it is open, \<open>False\<close> once it has been closed.
  \<^verbatim>\<open>Get\<close> hands out any pooled object; the model hands out the newest. \<^verbatim>\<open>Reset\<close> reopens it.
\<close>

type_synonym zpool = "bool list"

record zpools =
  writerPool :: zpool
  readerPool :: zpool

text \<open>\<^verbatim>\<open>getWriter\<close>: a pooled writer is reset, otherwise a new one is made (which cannot fail at the
  default level).\<close>

definition getWriter :: "zpools \<Rightarrow> bool \<times> zpools" where
  "getWriter ps =
     (case writerPool ps of
        v # vs \<Rightarrow> (True, ps\<lparr>writerPool := vs\<rparr>)
      | [] \<Rightarrow> (True, ps))"

definition putWriter :: "zpools \<Rightarrow> bool \<Rightarrow> zpools" where
  "putWriter ps zw = ps\<lparr>writerPool := zw # writerPool ps\<rparr>"

text \<open>
  \<^verbatim>\<open>getReader(r)\<close> on a source holding \<open>src\<close>: resetting a pooled reader and making a new one both
  read the header and fail when it is refused; a reader that failed to reset is dropped.
\<close>

definition getReader :: "zlib \<Rightarrow> zpools \<Rightarrow> byte list \<Rightarrow> (byte list \<times> go_err option) option \<times> zpools" where
  "getReader z ps src =
     (case readerPool ps of
        v # vs \<Rightarrow> (zl_inflate z src, ps\<lparr>readerPool := vs\<rparr>)
      | [] \<Rightarrow> (zl_inflate z src, ps))"

definition putReader :: "zpools \<Rightarrow> zpools" where
  "putReader ps = ps\<lparr>readerPool := False # readerPool ps\<rparr>"

text \<open>
  \<^verbatim>\<open>pool.go\<close> offers the same pools as objects. \<open>level_ok\<close> stands for the compression levels
  \<^verbatim>\<open>NewWriterLevel\<close> accepts.
\<close>

record ZlibWriterPool =
  zwp_pool :: zpool
  zwp_level :: int

definition NewZlibWriterPool :: "int \<Rightarrow> ZlibWriterPool" where
  "NewZlibWriterPool level = \<lparr>zwp_pool = [], zwp_level = level\<rparr>"

definition ZlibWriterPool_Get ::
  "(int \<Rightarrow> bool) \<Rightarrow> ZlibWriterPool \<Rightarrow> bool res \<times> ZlibWriterPool" where
  "ZlibWriterPool_Get level_ok zwp =
     (case zwp_pool zwp of
        v # vs \<Rightarrow> (Inr True, zwp\<lparr>zwp_pool := vs\<rparr>)
      | [] \<Rightarrow> (if level_ok (zwp_level zwp) then Inr True else Inl (NetErr 0), zwp))"

definition ZlibWriterPool_Put :: "ZlibWriterPool \<Rightarrow> bool \<Rightarrow> ZlibWriterPool" where
  "ZlibWriterPool_Put zwp zw = zwp\<lparr>zwp_pool := False # zwp_pool zwp\<rparr>"

definition NewZlibReaderPool :: zpool where
  "NewZlibReaderPool = []"

definition ZlibReaderPool_Get ::
  "zlib \<Rightarrow> zpool \<Rightarrow> byte list \<Rightarrow> (byte list \<times> go_err option) option \<times> zpool" where
  "ZlibReaderPool_Get z zrp src =
     (case zrp of v # vs \<Rightarrow> (zl_inflate z src, vs) | [] \<Rightarrow> (zl_inflate z src, []))"

definition ZlibReaderPool_Put :: "zpool \<Rightarrow> zpool" where
  "ZlibReaderPool_Put zrp = False # zrp"

section \<open>Compression and decompression\<close>

definition Compress :: "zlib \<Rightarrow> zpools \<Rightarrow> byte list \<Rightarrow> byte list res \<times> zpools" where
  "Compress z ps data =
     (case getWriter ps of (w, ps) \<Rightarrow>
        case zl_deflate z data of
          None \<Rightarrow> (Inl ErrCompressionFailed, putWriter ps w)
        | Some c \<Rightarrow> (Inr c, putWriter ps False))"

text \<open>
  \<^verbatim>\<open>io.CopyN(&buf, r, maxSize)\<close>: the error of the stream is met only when it ends before
  \<open>maxSize\<close> bytes, and a clean end (\<^verbatim>\<open>io.EOF\<close>) is accepted by the caller.
\<close>

definition Decompress :: "zlib \<Rightarrow> zpools \<Rightarrow> byte list \<Rightarrow> nat \<Rightarrow> byte list res \<times> zpools" where
  "Decompress z ps data maxSize =
     (case getReader z ps data of
        (None, ps) \<Rightarrow> (Inl ErrCompressionFailed, ps)
      | (Some (out, err), ps) \<Rightarrow>
          (if maxSize \<le> length out then Inr (take maxSize out)
           else case err of None \<Rightarrow> Inr out | Some _ \<Rightarrow> Inl ErrCompressionFailed,
           putReader ps))"

text \<open>\<^verbatim>\<open>CompressBuffer(src, dst)\<close> appends to \<open>dst\<close>.\<close>

definition CompressBuffer ::
  "zlib \<Rightarrow> zpools \<Rightarrow> byte list \<Rightarrow> byte list \<Rightarrow> (go_err option \<times> byte list) \<times> zpools" where
  "CompressBuffer z ps src dst =
     (case getWriter ps of (w, ps) \<Rightarrow>
        case zl_deflate z src of
          None \<Rightarrow> ((Some ErrCompressionFailed, dst), putWriter ps w)
        | Some c \<Rightarrow> ((None, dst @ c), putWriter ps False))"

definition DecompressBuffer ::
  "zlib \<Rightarrow> zpools \<Rightarrow> byte list \<Rightarrow> byte list \<Rightarrow> (go_err option \<times> byte list) \<times> zpools" where
  "DecompressBuffer z ps src dst =
     (case getReader z ps src of
        (None, ps) \<Rightarrow> ((Some ErrCompressionFailed, dst), ps)
      | (Some (out, err), ps) \<Rightarrow>
          ((case err of None \<Rightarrow> None | Some _ \<Rightarrow> Some ErrCompressionFailed, dst @ out),
           putReader ps))"

section \<open>Properties\<close>

lemma Decompress_result:
  "fst (Decompress z ps data n) =
     (case zl_inflate z data of
        None \<Rightarrow> Inl ErrCompressionFailed
      | Some (out, err) \<Rightarrow>
          if n \<le> length out then Inr (take n out)
          else case err of None \<Rightarrow> Inr out | Some _ \<Rightarrow> Inl ErrCompressionFailed)"
  by (auto simp: Decompress_def getReader_def split: option.splits list.splits)

lemma Decompress_length: "fst (Decompress z ps data n) = Inr out \<Longrightarrow> length out \<le> n"
  by (auto simp: Decompress_result split: option.splits if_splits)

lemma Compress_result:
  "fst (Compress z ps data) =
     (case zl_deflate z data of None \<Rightarrow> Inl ErrCompressionFailed | Some c \<Rightarrow> Inr c)"
  by (auto simp: Compress_def getWriter_def split: option.splits list.splits)

text \<open>With a lossless codec, decompressing compressed data with a limit gives the data cut to
  the limit, whatever the pools hold, and never more than the limit.\<close>

theorem Compress_Decompress:
  assumes "zlib_lossless z" and "fst (Compress z ps data) = Inr c"
  shows "fst (Decompress z ps' c n) = Inr (take n data)"
proof -
  from assms(2) have "zl_deflate z data = Some c"
    by (simp add: Compress_result split: option.splits)
  with assms(1) have "zl_inflate z c = Some (data, None)"
    by (simp add: zlib_lossless_def)
  then show ?thesis by (simp add: Decompress_result)
qed

theorem Compress_Decompress_witness:
  "fst (Decompress stored_zlib \<lparr>writerPool = [], readerPool = []\<rparr> [0x78, 1, 2, 3] 2) = Inr (take 2 [1, 2, 3])"
  by (rule Compress_Decompress [OF stored_zlib_lossless, of "\<lparr>writerPool = [], readerPool = []\<rparr>"])
    (simp add: Compress_result stored_zlib_def)

end
