(* ===== verification/Packets.thy ===== *)
theory Packets
  imports Wire_Types Compress
begin

unbundle bit_operations_syntax

text \<open>
  \<^verbatim>\<open>packet/packet.go\<close>: reading and writing whole packets, with and without compression, and raw
  frames for forwarding.

  The operations are modelled with the buffer pool and the zlib pools they share threaded through
  as a record \<open>mem\<close>: every \<^verbatim>\<open>GetBuffer\<close> and \<^verbatim>\<open>PutBuffer\<close> of the source is one here, on every
  branch. \<open>frame\<close>, \<open>frame_body\<close>, \<open>next_body\<close> and \<open>parse_body\<close> are the specification, which
  knows no buffers; the lemmas show that the operations compute them whatever the pool hands out,
  and that they keep the pool's ownership invariant.
\<close>

section \<open>Model\<close>

record Packet =
  pkt_ID :: i32
  pkt_Data :: "byte list"

text \<open>\<^verbatim>\<open>RawPacket.Buf\<close> is a pooled slice, \<^verbatim>\<open>nil\<close> after \<^verbatim>\<open>Release\<close> and in the zero value.\<close>

record RawPacket =
  raw_Buf :: "slice option"

text \<open>The package-level state the code shares: the buffer pool and the zlib pools.\<close>

record mem =
  bufs :: pool
  zps :: zpools

definition RawPacket_Len :: "RawPacket \<Rightarrow> nat" where
  "RawPacket_Len rp = (case raw_Buf rp of None \<Rightarrow> 0 | Some s \<Rightarrow> length (vis s))"

definition RawPacket_PacketID :: "RawPacket \<Rightarrow> i32 res" where
  "RawPacket_PacketID rp =
     (let buf = (case raw_Buf rp of None \<Rightarrow> [] | Some s \<Rightarrow> vis s) in
      if length buf = 0 then Inl ErrPacketTooShort
      else case ReadVarIntFromBytes buf of
        Inl e \<Rightarrow> Inl e
      | Inr (_, afterLen) \<Rightarrow>
          case ReadVarIntFromBytes afterLen of Inl e \<Rightarrow> Inl e | Inr (i, _) \<Rightarrow> Inr i)"

definition RawPacket_Release :: "mem \<Rightarrow> RawPacket \<Rightarrow> RawPacket \<times> mem" where
  "RawPacket_Release m rp =
     (case raw_Buf rp of
        None \<Rightarrow> (rp, m)
      | Some s \<Rightarrow> (rp\<lparr>raw_Buf := None\<rparr>, m\<lparr>bufs := PutBuffer (bufs m) s\<rparr>))"

subsection \<open>Reading\<close>

text \<open>The loop of \<^verbatim>\<open>readVarInt\<close>: one byte at a time, with no resynchronisation.\<close>

function readVarInt_loop :: "'r reader \<Rightarrow> 'r \<Rightarrow> i32 \<Rightarrow> nat \<Rightarrow> i32 res \<times> 'r" where
  "readVarInt_loop R r val shift =
     (case ReadFull R 1 r of
        (Inl e, r') \<Rightarrow> (Inl e, r')
      | (Inr buf, r') \<Rightarrow>
          let b = buf ! 0; val' = val OR push_bit shift (ucast (b AND 0x7F)) in
          if b AND 0x80 = 0 then (Inr val', r')
          else if 35 \<le> shift + 7 then (Inl ErrMalformedVarInt, r')
          else readVarInt_loop R r' val' (shift + 7))"
  by pat_completeness auto
termination
  by (relation "measure (\<lambda>(R, r, val, shift). 35 - shift)") auto

declare readVarInt_loop.simps [simp del]

definition readVarInt :: "'r reader \<Rightarrow> 'r \<Rightarrow> i32 res \<times> 'r" where
  "readVarInt R r = readVarInt_loop R r 0 0"

definition zeroBuffer :: "byte list \<Rightarrow> byte list" where
  "zeroBuffer buf = map (\<lambda>_. 0) buf"

text \<open>\<^verbatim>\<open>decompressPayload(src, dst)\<close>: the new content of \<open>dst\<close>, zero-padded when the payload was
  shorter than announced.\<close>

definition decompressPayload ::
  "zlib \<Rightarrow> zpools \<Rightarrow> byte list \<Rightarrow> byte list \<Rightarrow> byte list res \<times> zpools" where
  "decompressPayload z ps src dst =
     (case Decompress z ps src (length dst) of
        (Inl e, ps') \<Rightarrow> (Inl e, ps')
      | (Inr result, ps') \<Rightarrow>
          let n = min (length dst) (length result);
              dst' = copy_at dst 0 result
          in (Inr (if n < length dst' then take n dst' @ zeroBuffer (drop n dst') else dst'), ps'))"

definition readCompressed :: "zlib \<Rightarrow> mem \<Rightarrow> slice \<Rightarrow> Packet res \<times> mem" where
  "readCompressed z m body =
     (case ReadVarIntFromBytes (vis body) of
        Inl e \<Rightarrow> (Inl e, m\<lparr>bufs := PutBuffer (bufs m) body\<rparr>)
      | Inr (dataLen, remaining) \<Rightarrow>
          if dataLen = 0 then
            (case ReadVarIntFromBytes remaining of
               Inl e \<Rightarrow> (Inl e, m\<lparr>bufs := PutBuffer (bufs m) body\<rparr>)
             | Inr (i, data) \<Rightarrow>
                 (Inr \<lparr>pkt_ID = i, pkt_Data = data\<rparr>, m\<lparr>bufs := PutBuffer (bufs m) body\<rparr>))
          else if sint dataLen > MaxCompressedSize then
            (Inl ErrPacketTooLarge, m\<lparr>bufs := PutBuffer (bufs m) body\<rparr>)
          else case GetBuffer (bufs m) (sint dataLen) of
            Inl e \<Rightarrow> (Inl e, m)
          | Inr (decompressed, bp) \<Rightarrow>
              case decompressPayload z (zps m) remaining (vis decompressed) of
                (Inl e, ps) \<Rightarrow>
                  (Inl e, \<lparr>bufs = PutBuffer (PutBuffer bp body) decompressed, zps = ps\<rparr>)
              | (Inr dst, ps) \<Rightarrow>
                  let m' = \<lparr>bufs = PutBuffer (PutBuffer bp body) (decompressed\<lparr>vis := dst\<rparr>), zps = ps\<rparr> in
                  case ReadVarIntFromBytes dst of
                    Inl e \<Rightarrow> (Inl e, m')
                  | Inr (i, rawData) \<Rightarrow> (Inr \<lparr>pkt_ID = i, pkt_Data = rawData\<rparr>, m'))"

definition ReadPacket ::
  "zlib \<Rightarrow> int \<Rightarrow> 'r reader \<Rightarrow> mem \<Rightarrow> 'r \<Rightarrow> Packet res \<times> mem \<times> 'r" where
  "ReadPacket z threshold R m r =
     (case readVarInt R r of
        (Inl e, r') \<Rightarrow> (Inl e, m, r')
      | (Inr packetLen, r') \<Rightarrow>
          if sint packetLen < 0 \<or> sint packetLen > MaxPacketSize then (Inl ErrPacketTooLarge, m, r')
          else case GetBuffer (bufs m) (sint packetLen) of
            Inl e \<Rightarrow> (Inl e, m, r')
          | Inr (body, bp) \<Rightarrow>
              case ReadFull R (length (vis body)) r' of
                (Inl e, r'') \<Rightarrow>
                  (Inl e,
                   m\<lparr>bufs := PutBuffer bp
                       (body\<lparr>vis := copy_at (vis body) 0 (Partial R (length (vis body)) r')\<rparr>)\<rparr>, r'')
              | (Inr bs, r'') \<Rightarrow>
                  let body' = body\<lparr>vis := bs\<rparr> in
                  if threshold \<ge> 0 then
                    (case readCompressed z (m\<lparr>bufs := bp\<rparr>) body' of (res, m') \<Rightarrow> (res, m', r''))
                  else case ReadVarIntFromBytes (vis body') of
                    Inl e \<Rightarrow> (Inl e, m\<lparr>bufs := PutBuffer bp body'\<rparr>, r'')
                  | Inr (i, remaining) \<Rightarrow>
                      (Inr \<lparr>pkt_ID = i, pkt_Data = remaining\<rparr>, m\<lparr>bufs := PutBuffer bp body'\<rparr>, r''))"

text \<open>\<^verbatim>\<open>readUntilVarInt(buf)\<close> from index \<open>i\<close> on: the count (or error) and the buffer.\<close>

function readUntilVarInt_loop ::
  "'r reader \<Rightarrow> byte list \<Rightarrow> nat \<Rightarrow> 'r \<Rightarrow> (nat res \<times> byte list) \<times> 'r" where
  "readUntilVarInt_loop R buf i r =
     (if i < MaxVarIntLen then
        (case ReadFull R 1 r of
           (Inl e, r') \<Rightarrow> ((Inl e, buf), r')
         | (Inr bs, r') \<Rightarrow>
             let buf' = copy_at buf i bs in
             if buf' ! i AND 0x80 = 0 then ((Inr (i + 1), buf'), r')
             else readUntilVarInt_loop R buf' (i + 1) r')
      else ((Inl ErrMalformedVarInt, buf), r))"
  by pat_completeness auto
termination
  by (relation "measure (\<lambda>(R, buf, i, r). MaxVarIntLen - i)") auto

declare readUntilVarInt_loop.simps [simp del]

definition readUntilVarInt :: "'r reader \<Rightarrow> byte list \<Rightarrow> 'r \<Rightarrow> (nat res \<times> byte list) \<times> 'r" where
  "readUntilVarInt R buf r = readUntilVarInt_loop R buf 0 r"

text \<open>The decoding loop of \<^verbatim>\<open>ReadRawPacket\<close> over \<^verbatim>\<open>buf[:n]\<close>.\<close>

fun raw_len_loop :: "byte list \<Rightarrow> i32 \<Rightarrow> nat \<Rightarrow> i32" where
  "raw_len_loop [] val shift = val"
| "raw_len_loop (b # bs) val shift =
     (let val' = val OR push_bit shift (ucast (b AND 0x7F)) in
      if b AND 0x80 = 0 then val' else raw_len_loop bs val' (shift + 7))"

definition ReadRawPacket :: "'r reader \<Rightarrow> mem \<Rightarrow> 'r \<Rightarrow> RawPacket res \<times> mem \<times> 'r" where
  "ReadRawPacket R m r =
     (case GetBuffer (bufs m) (int MaxVarIntLen) of
        Inl e \<Rightarrow> (Inl e, m, r)
      | Inr (buf, bp) \<Rightarrow>
          case readUntilVarInt R (vis buf) r of
            ((Inl e, b), r') \<Rightarrow> (Inl e, m\<lparr>bufs := PutBuffer bp (buf\<lparr>vis := b\<rparr>)\<rparr>, r')
          | ((Inr n, b), r') \<Rightarrow>
              let buf = buf\<lparr>vis := b\<rparr>; packetLen = raw_len_loop (take n b) 0 0 in
              if sint packetLen < 0 \<or> sint packetLen > MaxPacketSize then
                (Inl ErrPacketTooLarge, m\<lparr>bufs := PutBuffer bp buf\<rparr>, r')
              else case GetBuffer bp (int n + sint packetLen) of
                Inl e \<Rightarrow> (Inl e, m\<lparr>bufs := bp\<rparr>, r')
              | Inr (fullBuf, bp) \<Rightarrow>
                  let f = copy_at (vis fullBuf) 0 (take n b); bp = PutBuffer bp buf in
                  case ReadFull R (length f - n) r' of
                    (Inl e, r'') \<Rightarrow>
                      (Inl e,
                       m\<lparr>bufs := PutBuffer bp
                           (fullBuf\<lparr>vis := copy_at f n (Partial R (length f - n) r')\<rparr>)\<rparr>, r'')
                  | (Inr bs, r'') \<Rightarrow>
                      (Inr \<lparr>raw_Buf = Some (fullBuf\<lparr>vis := copy_at f n bs\<rparr>)\<rparr>, m\<lparr>bufs := bp\<rparr>, r''))"

subsection \<open>Writing\<close>

definition writeCompressed ::
  "zlib \<Rightarrow> int \<Rightarrow> 'w writer \<Rightarrow> Packet \<Rightarrow> nat \<Rightarrow> nat \<Rightarrow> mem \<Rightarrow> 'w \<Rightarrow> go_err option \<times> mem \<times> 'w" where
  "writeCompressed z threshold W p idLen totalLen m w =
     (if int totalLen < threshold then
        (let dataLen = 0; lenLen = 1; pktLen = lenLen + idLen + length (pkt_Data p);
             lenOfLen = VarIntLen (word_of_nat pktLen) in
         case GetBuffer (bufs m) (int (lenOfLen + pktLen)) of
           Inl e \<Rightarrow> (Some e, m, w)
         | Inr (buf, bp) \<Rightarrow>
             case PutVarInt (vis buf) (word_of_nat pktLen) of
               Inl e \<Rightarrow> (Some e, m\<lparr>bufs := bp\<rparr>, w)
             | Inr (b, n1) \<Rightarrow>
                 case at_off n1 (\<lambda>b. PutVarInt b dataLen) b of
                   Inl e \<Rightarrow> (Some e, m\<lparr>bufs := bp\<rparr>, w)
                 | Inr (b, n2) \<Rightarrow>
                     case at_off (n1 + n2) (\<lambda>b. PutVarInt b (pkt_ID p)) b of
                       Inl e \<Rightarrow> (Some e, m\<lparr>bufs := bp\<rparr>, w)
                     | Inr (b, n3) \<Rightarrow>
                         let n = n1 + n2 + n3; b = copy_at b n (pkt_Data p) in
                         case W (take (n + length (pkt_Data p)) b) w of
                           ((_, err), w') \<Rightarrow> (err, m\<lparr>bufs := PutBuffer bp (buf\<lparr>vis := b\<rparr>)\<rparr>, w'))
      else case GetBuffer (bufs m) (int totalLen) of
        Inl e \<Rightarrow> (Some e, m, w)
      | Inr (payload, bp) \<Rightarrow>
          case PutVarInt (vis payload) (pkt_ID p) of
            Inl e \<Rightarrow> (Some e, m\<lparr>bufs := bp\<rparr>, w)
          | Inr (b, k) \<Rightarrow>
              let b = copy_at b k (pkt_Data p) in
              case Compress z (zps m) (take (k + length (pkt_Data p)) b) of
                (Inl e, ps) \<Rightarrow>
                  (Some e, \<lparr>bufs = PutBuffer bp (payload\<lparr>vis := b\<rparr>), zps = ps\<rparr>, w)
              | (Inr compressed, ps) \<Rightarrow>
                  let bp = PutBuffer bp (payload\<lparr>vis := b\<rparr>); dataLen = totalLen;
                      dataLenLen = VarIntLen (word_of_nat dataLen);
                      bodyLen = dataLenLen + length compressed;
                      packetLenLen = VarIntLen (word_of_nat bodyLen);
                      totalBufLen = packetLenLen + bodyLen in
                  case GetBuffer bp (int totalBufLen) of
                    Inl e \<Rightarrow> (Some e, \<lparr>bufs = bp, zps = ps\<rparr>, w)
                  | Inr (buf, bp) \<Rightarrow>
                      case PutVarInt (vis buf) (word_of_nat bodyLen) of
                        Inl e \<Rightarrow> (Some e, \<lparr>bufs = bp, zps = ps\<rparr>, w)
                      | Inr (b, n1) \<Rightarrow>
                          case at_off n1 (\<lambda>b. PutVarInt b (word_of_nat dataLen)) b of
                            Inl e \<Rightarrow> (Some e, \<lparr>bufs = bp, zps = ps\<rparr>, w)
                          | Inr (b, n2) \<Rightarrow>
                              let n = n1 + n2; b = copy_at b n compressed in
                              case W (take (n + length compressed) b) w of
                                ((_, err), w') \<Rightarrow>
                                  (err, \<lparr>bufs = PutBuffer bp (buf\<lparr>vis := b\<rparr>), zps = ps\<rparr>, w'))"

definition WritePacket ::
  "zlib \<Rightarrow> int \<Rightarrow> 'w writer \<Rightarrow> Packet \<Rightarrow> mem \<Rightarrow> 'w \<Rightarrow> go_err option \<times> mem \<times> 'w" where
  "WritePacket z threshold W p m w =
     (let idLen = VarInt_Len (pkt_ID p); totalLen = idLen + length (pkt_Data p) in
      if threshold \<ge> 0 then writeCompressed z threshold W p idLen totalLen m w
      else
        let lenLen = VarIntLen (word_of_nat totalLen); pktLen = lenLen + totalLen in
        case GetBuffer (bufs m) (int pktLen) of
          Inl e \<Rightarrow> (Some e, m, w)
        | Inr (buf, bp) \<Rightarrow>
            case PutVarInt (vis buf) (word_of_nat totalLen) of
              Inl e \<Rightarrow> (Some e, m\<lparr>bufs := bp\<rparr>, w)
            | Inr (b, n1) \<Rightarrow>
                case at_off n1 (\<lambda>b. PutVarInt b (pkt_ID p)) b of
                  Inl e \<Rightarrow> (Some e, m\<lparr>bufs := bp\<rparr>, w)
                | Inr (b, n2) \<Rightarrow>
                    let n = n1 + n2; b = copy_at b n (pkt_Data p) in
                    case W (take (n + length (pkt_Data p)) b) w of
                      ((_, err), w') \<Rightarrow> (err, m\<lparr>bufs := PutBuffer bp (buf\<lparr>vis := b\<rparr>)\<rparr>, w'))"

record PacketCodec =
  pc_reader_threshold :: int
  pc_writer_threshold :: int
  pc_threshold :: int

definition NewPacketCodec :: "int \<Rightarrow> PacketCodec" where
  "NewPacketCodec t = \<lparr>pc_reader_threshold = t, pc_writer_threshold = t, pc_threshold = t\<rparr>"

definition PacketCodec_SetThreshold :: "PacketCodec \<Rightarrow> int \<Rightarrow> PacketCodec" where
  "PacketCodec_SetThreshold pc t =
     pc\<lparr>pc_threshold := t, pc_reader_threshold := t, pc_writer_threshold := t\<rparr>"

section \<open>The frame of a packet\<close>

text \<open>
  The bytes of a packet on the wire, independent of buffers: a length prefix and a body. Without
  compression (negative threshold) the body is the packet ID and the data; with compression it is
  the uncompressed length (0 for a packet below the threshold) and the payload.
\<close>

definition payload :: "Packet \<Rightarrow> byte list" where
  "payload p = leb (pkt_ID p) @ pkt_Data p"

definition frame_body :: "zlib \<Rightarrow> int \<Rightarrow> Packet \<Rightarrow> byte list res" where
  "frame_body z threshold p =
     (if threshold < 0 then Inr (payload p)
      else if int (length (payload p)) < threshold then Inr (0 # payload p)
      else case zl_deflate z (payload p) of
        None \<Rightarrow> Inl ErrCompressionFailed
      | Some c \<Rightarrow> Inr (leb (word_of_nat (length (payload p)) :: i32) @ c))"

definition frame :: "byte list \<Rightarrow> byte list" where
  "frame fb = leb (word_of_nat (length fb) :: i32) @ fb"

section \<open>Filling a buffer of exactly the right size\<close>

lemma fill2:
  assumes "length buf = length a + length b + length d"
  shows "store buf a = Inr (a @ drop (length a) buf, length a)"
    and "at_off (length a) (\<lambda>x. store x b) (a @ drop (length a) buf) =
      Inr (a @ b @ drop (length a + length b) buf, length b)"
    and "take (length a + length b + length d)
        (copy_at (a @ b @ drop (length a + length b) buf) (length a + length b) d) = a @ b @ d"
  using assms by (simp_all add: store_def at_off_def copy_at_def add.commute)

lemma fill1:
  assumes "length buf = length a + length d"
  shows "store buf a = Inr (a @ drop (length a) buf, length a)"
    and "take (length a + length d) (copy_at (a @ drop (length a) buf) (length a) d) = a @ d"
  using assms by (simp_all add: store_def copy_at_def)

lemma fill3:
  assumes "length buf = length a + length b + length c + length d"
  shows "store buf a = Inr (a @ drop (length a) buf, length a)"
    and "at_off (length a) (\<lambda>x. store x b) (a @ drop (length a) buf) =
      Inr (a @ b @ drop (length a + length b) buf, length b)"
    and "at_off (length a + length b) (\<lambda>x. store x c) (a @ b @ drop (length a + length b) buf) =
      Inr (a @ b @ c @ drop (length a + length b + length c) buf, length c)"
    and "take (length a + length b + length c + length d)
        (copy_at (a @ b @ c @ drop (length a + length b + length c) buf)
          (length a + length b + length c) d) = a @ b @ c @ d"
  using assms by (simp_all add: store_def at_off_def copy_at_def ac_simps)

section \<open>The writer sends the frame\<close>

lemma GetBuffer_nat_obtain:
  obtains s q where "GetBuffer p (int n) = Inr (s, q)" "length (vis s) = n"
  using GetBuffer_obtain [of "int n" p] by (metis nat_int of_nat_0_le_iff)

text \<open>
  \<open>sends W fr m w x\<close>: the result \<open>x\<close> of a packet write is that of handing \<open>fr\<close> to \<open>W\<close> in one
  call, and the shared buffers are left consistent, other owners' buffers untouched.
\<close>

definition sends ::
  "'w writer \<Rightarrow> byte list res \<Rightarrow> mem \<Rightarrow> 'w \<Rightarrow> go_err option \<times> mem \<times> 'w \<Rightarrow> bool" where
  "sends W fr m w x \<longleftrightarrow>
     (case fr of Inl e \<Rightarrow> fst x = Some e \<and> snd (snd x) = w
      | Inr bs \<Rightarrow> fst x = snd (fst (W bs w)) \<and> snd (snd x) = snd (W bs w)) \<and>
     (pool_ok (bufs m) \<longrightarrow> pool_ok (bufs (fst (snd x)))) \<and>
     (pool_ok (bufs m) \<longrightarrow> (\<forall>j. owned (bufs m) j \<longrightarrow> owned (bufs (fst (snd x))) j))"

lemma WritePacket_plain:
  assumes "threshold < 0"
  shows "sends W (Inr (frame (payload p))) m w (WritePacket z threshold W p m w)"
proof -
  let ?t = "word_of_nat (length (payload p)) :: i32"
  have t: "VarInt_Len (pkt_ID p) + length (pkt_Data p) = length (payload p)"
    by (simp add: payload_def VarInt_Len_def VarIntLen_leb)
  obtain buf bp where g: "GetBuffer (bufs m) (int (VarIntLen ?t + length (payload p))) = Inr (buf, bp)"
    and l: "length (vis buf) = VarIntLen ?t + length (payload p)"
    by (rule GetBuffer_nat_obtain)
  have l': "length (vis buf) = length (leb ?t) + length (leb (pkt_ID p)) + length (pkt_Data p)"
    using l by (simp add: payload_def VarIntLen_leb)
  obtain n e w' where W: "W (frame (payload p)) w = ((n, e), w')" by (metis prod.exhaust)
  note f = fill2 [OF l']
  have W2: "W (leb ?t @ leb (pkt_ID p) @ pkt_Data p) w = ((n, e), w')"
    using W by (simp add: frame_def payload_def)
  define b where "b = copy_at (leb ?t @ leb (pkt_ID p) @ drop (length (leb ?t) + length (leb (pkt_ID p))) (vis buf))
      (length (leb ?t) + length (leb (pkt_ID p))) (pkt_Data p)"
  have "WritePacket z threshold W p m w = (e, m\<lparr>bufs := PutBuffer bp (buf\<lparr>vis := b\<rparr>)\<rparr>, w')"
    using assms g W2 unfolding WritePacket_def t Let_def
    by (simp add: PutVarInt_leb f b_def)
  with W bufs.borrow [OF _ g, of "buf\<lparr>vis := b\<rparr>"] show ?thesis
    by (simp add: sends_def)
qed

lemma WritePacket_small:
  assumes "0 \<le> threshold" and "int (length (payload p)) < threshold"
  shows "sends W (Inr (frame (0 # payload p))) m w (WritePacket z threshold W p m w)"
proof -
  let ?t = "word_of_nat (length (0 # payload p)) :: i32"
  have t: "VarInt_Len (pkt_ID p) + length (pkt_Data p) = length (payload p)"
    "1 + VarInt_Len (pkt_ID p) + length (pkt_Data p) = length (0 # payload p)"
    by (simp_all add: payload_def VarInt_Len_def VarIntLen_leb)
  have z: "leb (0 :: i32) = [0]" by (simp add: leb_i32)
  obtain buf bp where g: "GetBuffer (bufs m) (int (VarIntLen ?t + length (0 # payload p))) = Inr (buf, bp)"
    and l: "length (vis buf) = VarIntLen ?t + length (0 # payload p)"
    by (rule GetBuffer_nat_obtain)
  have l': "length (vis buf) =
      length (leb ?t) + length (leb (0 :: i32)) + length (leb (pkt_ID p)) + length (pkt_Data p)"
    using l by (simp add: payload_def VarIntLen_leb z)
  obtain n e w' where W: "W (frame (0 # payload p)) w = ((n, e), w')" by (metis prod.exhaust)
  note f = fill3 [OF l']
  have W2: "W (leb ?t @ leb (0 :: i32) @ leb (pkt_ID p) @ pkt_Data p) w = ((n, e), w')"
    using W by (simp add: frame_def payload_def z)
  define b where "b = copy_at (leb ?t @ leb (0 :: i32) @ leb (pkt_ID p) @
        drop (length (leb ?t) + length (leb (0 :: i32)) + length (leb (pkt_ID p))) (vis buf))
      (length (leb ?t) + length (leb (0 :: i32)) + length (leb (pkt_ID p))) (pkt_Data p)"
  have "WritePacket z threshold W p m w = (e, m\<lparr>bufs := PutBuffer bp (buf\<lparr>vis := b\<rparr>)\<rparr>, w')"
    using assms g W2 unfolding WritePacket_def writeCompressed_def t Let_def
    by (simp add: PutVarInt_leb f b_def del: list.size)
  with W bufs.borrow [OF _ g, of "buf\<lparr>vis := b\<rparr>"] show ?thesis
    by (simp add: sends_def)
qed

text \<open>The compressing branch borrows two buffers, one after the other.\<close>

lemma borrow_twice:
  assumes "pool_ok p" and "GetBuffer p n = Inr (s, p1)" and "sid s' = sid s"
    and "GetBuffer (PutBuffer p1 s') k = Inr (t, p2)" and "sid t' = sid t"
  shows "pool_ok (PutBuffer p2 t')" and "owned p j \<Longrightarrow> owned (PutBuffer p2 t') j"
proof -
  have "pool_ok (PutBuffer p1 s')" and o: "owned p j \<Longrightarrow> owned (PutBuffer p1 s') j"
    using bufs.borrow [OF assms(1-3)] by auto
  from bufs.borrow [OF this(1) assms(4,5)] o
  show "pool_ok (PutBuffer p2 t')" and "owned p j \<Longrightarrow> owned (PutBuffer p2 t') j" by auto
qed

lemma WritePacket_big:
  assumes th: "0 \<le> threshold" "threshold \<le> int (length (payload p))"
  shows "sends W (case zl_deflate z (payload p) of None \<Rightarrow> Inl ErrCompressionFailed
      | Some c \<Rightarrow> Inr (frame (leb (word_of_nat (length (payload p)) :: i32) @ c)))
    m w (WritePacket z threshold W p m w)"
proof -
  let ?t = "word_of_nat (length (payload p)) :: i32"
  have t: "VarInt_Len (pkt_ID p) + length (pkt_Data p) = length (payload p)"
    by (simp add: payload_def VarInt_Len_def VarIntLen_leb)
  obtain buf bp where g: "GetBuffer (bufs m) (int (length (payload p))) = Inr (buf, bp)"
    and l: "length (vis buf) = length (payload p)"
    by (rule GetBuffer_nat_obtain)
  have l': "length (vis buf) = length (leb (pkt_ID p)) + length (pkt_Data p)"
    using l by (simp add: payload_def)
  note f = fill1 [OF l']
  define b where "b = copy_at (leb (pkt_ID p) @ drop (length (leb (pkt_ID p))) (vis buf))
      (length (leb (pkt_ID p))) (pkt_Data p)"
  have tb: "take (length (leb (pkt_ID p)) + length (pkt_Data p)) b = payload p"
    using f(2) by (simp add: b_def payload_def)
  note step = WritePacket_def writeCompressed_def t Let_def
  obtain cr ps where C: "Compress z (zps m) (payload p) = (cr, ps)" by force
  show ?thesis
  proof (cases "zl_deflate z (payload p)")
    case None
    then have "cr = Inl ErrCompressionFailed" using Compress_result [of z "zps m" "payload p"] C by simp
    with th g C have "WritePacket z threshold W p m w =
        (Some ErrCompressionFailed, \<lparr>bufs = PutBuffer bp (buf\<lparr>vis := b\<rparr>), zps = ps\<rparr>, w)"
      unfolding step by (simp add: PutVarInt_leb f(1) tb flip: b_def)
    with None bufs.borrow [OF _ g, of "buf\<lparr>vis := b\<rparr>"] show ?thesis by (simp add: sends_def)
  next
    case (Some c)
    then have cr: "cr = Inr c" using Compress_result [of z "zps m" "payload p"] C by simp
    let ?u = "word_of_nat (length (leb ?t @ c)) :: i32"
    obtain buf2 bp2 where g2: "GetBuffer (PutBuffer bp (buf\<lparr>vis := b\<rparr>))
        (int (VarIntLen ?u + (VarIntLen ?t + length c))) = Inr (buf2, bp2)"
      and l2: "length (vis buf2) = VarIntLen ?u + (VarIntLen ?t + length c)"
      by (rule GetBuffer_nat_obtain)
    have l2': "length (vis buf2) = length (leb ?u) + length (leb ?t) + length c"
      using l2 by (simp add: VarIntLen_leb)
    note f2 = fill2 [OF l2']
    define b2 where "b2 = copy_at (leb ?u @ leb ?t @ drop (length (leb ?u) + length (leb ?t)) (vis buf2))
      (length (leb ?u) + length (leb ?t)) c"
    obtain n e w' where W: "W (frame (leb ?t @ c)) w = ((n, e), w')" by (metis prod.exhaust)
    have W2: "W (leb ?u @ leb ?t @ c) w = ((n, e), w')" using W by (simp add: frame_def)
    have u: "word_of_nat (VarIntLen ?t + length c) = ?u" by (simp add: VarIntLen_leb)
    have "WritePacket z threshold W p m w =
        (e, \<lparr>bufs = PutBuffer bp2 (buf2\<lparr>vis := b2\<rparr>), zps = ps\<rparr>, w')"
      using th g C cr g2 W2 unfolding step
      by (simp add: PutVarInt_leb f(1) tb f2(1,2) f2(3) [folded b2_def] u b_def [symmetric] b2_def [symmetric] del: of_nat_add length_append)
    with W Some borrow_twice [OF _ g _ g2, of "buf2\<lparr>vis := b2\<rparr>"] show ?thesis
      by (simp add: sends_def)
  qed
qed

lemma WritePacket_frame:
  "sends W (map_sum id frame (frame_body z threshold p)) m w (WritePacket z threshold W p m w)"
  using WritePacket_plain [of threshold W p m w z] WritePacket_small [of threshold p W m w z]
    WritePacket_big [of threshold p W z m w]
  by (auto simp: frame_body_def not_less split: option.splits)

section \<open>What the reader makes of a byte stream\<close>

text \<open>
  The reference parser, again independent of buffers and pools. \<open>parse_body\<close> reads the body of
  a frame; an announced length larger than the inflated payload is filled up with zeros, a smaller
  one cuts it. A negative announced length ends in a panic (\<^verbatim>\<open>GetBuffer\<close> of a negative size).
\<close>

definition parse_payload :: "byte list \<Rightarrow> Packet res" where
  "parse_payload bs =
     (case ReadVarIntFromBytes bs of
        Inl e \<Rightarrow> Inl e | Inr (i, data) \<Rightarrow> Inr \<lparr>pkt_ID = i, pkt_Data = data\<rparr>)"

definition inflate_to :: "zlib \<Rightarrow> nat \<Rightarrow> byte list \<Rightarrow> byte list res" where
  "inflate_to z n src =
     (case zl_inflate z src of
        None \<Rightarrow> Inl ErrCompressionFailed
      | Some (out, err) \<Rightarrow>
          if n \<le> length out then Inr (take n out)
          else case err of None \<Rightarrow> Inr (out @ replicate (n - length out) 0)
               | Some _ \<Rightarrow> Inl ErrCompressionFailed)"

definition parse_body :: "zlib \<Rightarrow> int \<Rightarrow> byte list \<Rightarrow> Packet res" where
  "parse_body z threshold bs =
     (if threshold < 0 then parse_payload bs
      else case ReadVarIntFromBytes bs of
        Inl e \<Rightarrow> Inl e
      | Inr (dataLen, rest) \<Rightarrow>
          if dataLen = 0 then parse_payload rest
          else if sint dataLen > MaxCompressedSize then Inl ErrPacketTooLarge
          else if sint dataLen < 0 then Inl Panic
          else case inflate_to z (nat (sint dataLen)) rest of
            Inl e \<Rightarrow> Inl e | Inr out \<Rightarrow> parse_payload out)"

text \<open>The bytes of the next frame's body in a stream that ends with error \<open>e\<close>.\<close>

definition next_body :: "byte list \<Rightarrow> go_err \<Rightarrow> (byte list \<times> byte list) res" where
  "next_body bs e =
     (case number_shape 5 bs of
        DShort \<Rightarrow> Inl e
      | DBad _ \<Rightarrow> Inl ErrMalformedVarInt
      | DDone v rest \<Rightarrow>
          let n = sint (word_of_nat v :: i32) in
          if n < 0 \<or> n > MaxPacketSize then Inl ErrPacketTooLarge
          else if length rest < nat n then Inl (if rest = [] then e else short_err e)
          else Inr (take (nat n) rest, drop (nat n) rest))"

lemma decompressPayload_result:
  "fst (decompressPayload z ps src dst) = inflate_to z (length dst) src"
proof -
  obtain r ps' where D: "Decompress z ps src (length dst) = (r, ps')" by force
  have len: "length out \<le> length dst" if "r = Inr out" for out
    using Decompress_length [of z ps src "length dst" out] D that by simp
  have r: "r = (case zl_inflate z src of
        None \<Rightarrow> Inl ErrCompressionFailed
      | Some (out, err) \<Rightarrow>
          if length dst \<le> length out then Inr (take (length dst) out)
          else case err of None \<Rightarrow> Inr out | Some _ \<Rightarrow> Inl ErrCompressionFailed)"
    using Decompress_result [of z ps src "length dst"] D by simp
  have fill: "(let n = min (length dst) (length out); dst' = copy_at dst 0 out
      in if n < length dst' then take n dst' @ zeroBuffer (drop n dst') else dst') =
      out @ replicate (length dst - length out) 0" if "length out \<le> length dst" for out
    using that by (auto simp: copy_at_def Let_def zeroBuffer_def map_replicate_const)
  have res: "fst (decompressPayload z ps src dst) =
      (case r of Inl e \<Rightarrow> Inl e | Inr out \<Rightarrow> Inr (out @ replicate (length dst - length out) 0))"
    unfolding decompressPayload_def D using fill len by (auto simp: Let_def split: sum.splits)
  show ?thesis
    unfolding res r by (simp add: inflate_to_def split: option.splits)
qed

lemma decompressPayload_length:
  "decompressPayload z ps src dst = (Inr d, ps') \<Longrightarrow> length d = length dst"
  using decompressPayload_result [of z ps src dst]
  by (auto simp: inflate_to_def split: option.splits if_splits)

lemma readCompressed_result:
  "0 \<le> threshold \<Longrightarrow> fst (readCompressed z m body) = parse_body z threshold (vis body)"
proof -
  assume th: "0 \<le> threshold"
  have G: "GetBuffer p k = Inl Panic" if "k < 0" for p k
    using that by (auto simp: GetBuffer_def make_slice_def BufferPoolMax_def split: list.splits)
  show ?thesis
  proof (cases "ReadVarIntFromBytes (vis body)")
    case (Inl e) with th show ?thesis by (simp add: readCompressed_def parse_body_def)
  next
    case (Inr x)
    obtain dl rest where x: "x = (dl, rest)" by force
    consider "dl = 0" | "sint dl > MaxCompressedSize" | "sint dl < 0"
      | "dl \<noteq> 0" "0 \<le> sint dl" "sint dl \<le> MaxCompressedSize" by linarith
    then show ?thesis
    proof cases
      case 4
      obtain s q where g: "GetBuffer (bufs m) (sint dl) = Inr (s, q)" "length (vis s) = nat (sint dl)"
        using GetBuffer_obtain [OF 4(2)] .
      show ?thesis
        using Inr x 4 g th decompressPayload_result [of z "zps m" rest "vis s"]
        by (auto simp: readCompressed_def parse_body_def parse_payload_def Let_def
            split: sum.splits prod.splits)
    qed (use Inr x th in \<open>auto simp: readCompressed_def parse_body_def parse_payload_def G
           MaxCompressedSize_def split: sum.splits\<close>)
  qed
qed

context byte_source
begin

lemma readVarInt_loop_dec:
  "case dec_var 35 (content r) val shift of
     DDone v rest \<Rightarrow>
       fst (readVarInt_loop R r val shift) = Inr v \<and>
       content (snd (readVarInt_loop R r val shift)) = rest \<and>
       stop (snd (readVarInt_loop R r val shift)) = stop r
   | DBad rest \<Rightarrow> fst (readVarInt_loop R r val shift) = Inl ErrMalformedVarInt
   | DShort \<Rightarrow> fst (readVarInt_loop R r val shift) = Inl (stop r)"
proof (induction "content r" arbitrary: r val shift)
  case Nil
  then obtain r' where "ReadFull R 1 r = (Inl (stop r), r')"
    using ReadFull_short_obtain [of r 1] by auto
  with Nil show ?case by (simp add: readVarInt_loop.simps [of _ r] flip: Nil)
next
  case (Cons b bs)
  obtain r' where r': "ReadFull R 1 r = (Inr [b], r')" "content r' = bs" "stop r' = stop r"
    using ReadFull_append_obtain [of r "[b]" bs 1] Cons.hyps(2) by (metis One_nat_def append_Cons append_Nil length_Cons list.size(3))
  let ?v = "val OR push_bit shift (ucast (b AND 0x7F))"
  have d: "dec_var 35 (content r) val shift =
      (if b AND 0x80 = 0 then DDone ?v bs else if 35 \<le> shift + 7 then DBad bs
       else dec_var 35 bs ?v (shift + 7))"
    by (simp add: Let_def flip: Cons.hyps(2))
  have l: "readVarInt_loop R r val shift =
      (if b AND 0x80 = 0 then (Inr ?v, r') else if 35 \<le> shift + 7 then (Inl ErrMalformedVarInt, r')
       else readVarInt_loop R r' ?v (shift + 7))"
    by (subst readVarInt_loop.simps) (simp add: r' [unfolded One_nat_def] Let_def)
  show ?case
    unfolding d l using Cons.hyps(1) [OF r'(2) [symmetric], of ?v "shift + 7"] r'
    by (simp split: dec.splits)
qed

lemma readVarInt_shape:
  "case number_shape 5 (content r) of
     DDone v rest \<Rightarrow>
       \<exists>r'. readVarInt R r = (Inr (word_of_nat v), r') \<and> content r' = rest \<and> stop r' = stop r
   | DBad rest \<Rightarrow> fst (readVarInt R r) = Inl ErrMalformedVarInt
   | DShort \<Rightarrow> fst (readVarInt R r) = Inl (stop r)"
  using readVarInt_loop_dec [of r 0 0] dec_var_shape [of 5 "content r", where ?'a = 32]
  by (cases "readVarInt R r") (auto simp: readVarInt_def split: dec.splits)

lemma ReadPacket_result:
  "fst (ReadPacket z threshold R m r) =
     (case next_body (content r) (stop r) of Inl e \<Rightarrow> Inl e | Inr (body, _) \<Rightarrow> parse_body z threshold body)"
proof (cases "number_shape 5 (content r)")
  case (DDone v rest)
  then obtain r' where r': "readVarInt R r = (Inr (word_of_nat v), r')" "content r' = rest" "stop r' = stop r"
    using readVarInt_shape [of r] by auto
  let ?n = "sint (word_of_nat v :: i32)"
  show ?thesis
  proof (cases "?n < 0 \<or> ?n > MaxPacketSize")
    case True with DDone r' show ?thesis by (auto simp: ReadPacket_def next_body_def)
  next
    case False
    then have "0 \<le> ?n" by simp
    then obtain s q where g: "GetBuffer (bufs m) ?n = Inr (s, q)" "length (vis s) = nat ?n"
      by (rule GetBuffer_obtain)
    show ?thesis
    proof (cases "nat ?n \<le> length rest")
      case True
      obtain r'' where r'': "ReadFull R (nat ?n) r' = (Inr (take (nat ?n) rest), r'')"
        using ReadFull_append_obtain [of r' "take (nat ?n) rest" "drop (nat ?n) rest" "nat ?n"] True r'
        by auto
      have "parse_body z threshold bs = (case ReadVarIntFromBytes bs of
        Inl e \<Rightarrow> Inl e | Inr (i, data) \<Rightarrow> Inr \<lparr>pkt_ID = i, pkt_Data = data\<rparr>)" if "\<not> 0 \<le> threshold" for bs
        using that by (simp add: parse_body_def parse_payload_def)
      with True False DDone r' r'' g readCompressed_result [of threshold z "m\<lparr>bufs := q\<rparr>" "s\<lparr>vis := take (nat ?n) rest\<rparr>"]
      show ?thesis
        by (auto simp: ReadPacket_def next_body_def Let_def split: prod.splits sum.splits)
    next
      case short: False
      obtain r'' where "ReadFull R (nat ?n) r' = (Inl (if rest = [] then stop r else short_err (stop r)), r'')"
        using ReadFull_short_obtain [of r' "nat ?n"] short r'(2,3) by (metis not_le)
      with short False DDone r' g show ?thesis
        by (auto simp: ReadPacket_def next_body_def Let_def)
    qed
  qed
qed (use readVarInt_shape [of r] in \<open>auto simp: ReadPacket_def next_body_def split: prod.splits sum.splits\<close>)

end

lemma next_body_DDone:
  assumes "number_shape 5 bs = DDone v rest" and "u = (word_of_nat v :: i32)"
  shows "next_body bs e =
    (if sint u < 0 \<or> sint u > MaxPacketSize then Inl ErrPacketTooLarge
     else if length rest < nat (sint u) then Inl (if rest = [] then e else short_err e)
     else Inr (take (nat (sint u)) rest, drop (nat (sint u)) rest))"
  unfolding next_body_def assms Let_def by (rule dec.case)

text \<open>The equation of \<^verbatim>\<open>ReadPacket\<close> once the frame has been read.\<close>

lemma ReadPacket_framed:
  assumes "readVarInt R r = (Inr u, r')" and "0 \<le> sint u" and "sint u \<le> MaxPacketSize"
    and "GetBuffer (bufs m) (sint u) = Inr (s, q)" and "ReadFull R (length (vis s)) r' = (Inr bs, r'')"
  shows "ReadPacket z threshold R m r =
    (if threshold \<ge> 0
     then (fst (readCompressed z (m\<lparr>bufs := q\<rparr>) (s\<lparr>vis := bs\<rparr>)),
           snd (readCompressed z (m\<lparr>bufs := q\<rparr>) (s\<lparr>vis := bs\<rparr>)), r'')
     else (parse_payload bs, m\<lparr>bufs := PutBuffer q (s\<lparr>vis := bs\<rparr>)\<rparr>, r''))"
  using assms by (simp add: ReadPacket_def parse_payload_def Let_def split: prod.splits sum.splits)

context byte_source
begin

text \<open>A read packet takes exactly its frame off the stream.\<close>

lemma ReadPacket_rest:
  assumes "next_body (content r) (stop r) = Inr (body, rest)"
  shows "content (snd (snd (ReadPacket z threshold R m r))) = rest \<and>
    stop (snd (snd (ReadPacket z threshold R m r))) = stop r"
proof (cases "number_shape 5 (content r)")
  case (DDone v tl)
  define u where "u = (word_of_nat v :: i32)"
  from DDone obtain r' where r': "readVarInt R r = (Inr u, r')" "content r' = tl" "stop r' = stop r"
    using readVarInt_shape [of r] unfolding u_def by auto
  from assms have n: "0 \<le> sint u" "sint u \<le> MaxPacketSize" "nat (sint u) \<le> length tl"
    and b: "body = take (nat (sint u)) tl" "rest = drop (nat (sint u)) tl"
    by (auto simp: next_body_DDone [OF DDone u_def] split: if_splits)
  obtain s q where g: "GetBuffer (bufs m) (sint u) = Inr (s, q)" "length (vis s) = nat (sint u)"
    using GetBuffer_obtain [OF n(1)] .
  obtain r'' where "ReadFull R (nat (sint u)) r' = (Inr body, r'')" "content r'' = rest" "stop r'' = stop r"
    using ReadFull_append_obtain [of r' body rest "nat (sint u)"] n(3) r'(2,3) b
    by (metis append_take_drop_id length_take min.absorb2)
  with ReadPacket_framed [OF r'(1) n(1,2) g(1)] g(2) show ?thesis by simp
qed (use assms in \<open>auto simp: next_body_def\<close>)

end

subsection \<open>Pool safety\<close>

lemma readCompressed_pool:
  assumes ok: "pool_ok (bufs m)" and own: "owned (bufs m) (sid body)"
  shows "pool_ok (bufs (snd (readCompressed z m body))) \<and>
    (\<forall>j. owned (bufs m) j \<and> j \<noteq> sid body \<longrightarrow> owned (bufs (snd (readCompressed z m body))) j)"
proof -
  let ?P = "\<lambda>p. pool_ok p \<and> (\<forall>j. owned (bufs m) j \<and> j \<noteq> sid body \<longrightarrow> owned p j)"
  have one: "?P (PutBuffer (bufs m) body)"
    using ok own PutBuffer_ok PutBuffer_keeps_owned by auto
  have two: "?P (PutBuffer (PutBuffer q body) d')"
    if "GetBuffer (bufs m) k = Inr (d, q)" "sid d' = sid d" for k d q d'
  proof -
    from that own ok have q: "pool_ok q" "owned q (sid d)" "owned q (sid body)" "sid d \<noteq> sid body"
      using GetBuffer_ok GetBuffer_keeps_owned by blast+
    moreover have "owned q j \<and> sid d \<noteq> j" if "owned (bufs m) j" for j
      using that \<open>GetBuffer (bufs m) k = Inr (d, q)\<close> GetBuffer_keeps_owned by blast
    ultimately show ?thesis
      using that(2) PutBuffer_ok [of q body] PutBuffer_ok [of "PutBuffer q body" d']
        PutBuffer_keeps_owned [of q _ body] PutBuffer_keeps_owned [of "PutBuffer q body" _ d']
      by metis
  qed
  have "?P (bufs m)" using ok by simp
  with one two show ?thesis
    unfolding readCompressed_def
    by (auto simp: Let_def split: sum.splits prod.splits)
qed

lemma ReadPacket_pool:
  assumes ok: "pool_ok (bufs m)"
  shows "pool_ok (bufs (fst (snd (ReadPacket z threshold R m r)))) \<and>
    (\<forall>j. owned (bufs m) j \<longrightarrow> owned (bufs (fst (snd (ReadPacket z threshold R m r)))) j)"
proof -
  let ?P = "\<lambda>p. pool_ok p \<and> (\<forall>j. owned (bufs m) j \<longrightarrow> owned p j)"
  have put: "?P (PutBuffer q s')"
    if "GetBuffer (bufs m) k = Inr (s, q)" "sid s' = sid s" for k s q s'
    using bufs.borrow [OF ok that] by blast
  have cmp: "?P (bufs (snd (readCompressed z (m\<lparr>bufs := q\<rparr>) s')))"
    if "GetBuffer (bufs m) k = Inr (s, q)" "sid s' = sid s" for k s q s'
  proof -
    have "pool_ok q" "owned q (sid s')" "\<forall>j. owned (bufs m) j \<longrightarrow> owned q j \<and> sid s' \<noteq> j"
      using that ok GetBuffer_ok GetBuffer_keeps_owned by metis+
    then show ?thesis using readCompressed_pool [of "m\<lparr>bufs := q\<rparr>" s' z] by auto
  qed
  show ?thesis
  proof (cases "\<exists>u r'. readVarInt R r = (Inr u, r') \<and> 0 \<le> sint u \<and> sint u \<le> MaxPacketSize")
    case False
    then have "fst (snd (ReadPacket z threshold R m r)) = m"
      by (auto simp: ReadPacket_def not_le not_less split: prod.splits sum.splits)
    with ok show ?thesis by simp
  next
    case True
    then obtain u r' where u: "readVarInt R r = (Inr u, r')" "0 \<le> sint u" "sint u \<le> MaxPacketSize" by blast
    obtain s q where g: "GetBuffer (bufs m) (sint u) = Inr (s, q)"
      using GetBuffer_obtain [OF u(2)] by metis
    show ?thesis
    proof (cases "fst (ReadFull R (length (vis s)) r')")
      case (Inl e)
      then obtain r'' where "ReadFull R (length (vis s)) r' = (Inl e, r'')" by (metis prod.collapse)
      with u g put [OF g, of "s\<lparr>vis := copy_at (vis s) 0 (Partial R (length (vis s)) r')\<rparr>"]
      show ?thesis by (simp add: ReadPacket_def)
    next
      case (Inr bs)
      then obtain r'' where "ReadFull R (length (vis s)) r' = (Inr bs, r'')" by (metis prod.collapse)
      note eq = ReadPacket_framed [OF u g this, of z threshold]
      show ?thesis
        unfolding eq using put [OF g, of "s\<lparr>vis := bs\<rparr>"] cmp [OF g, of "s\<lparr>vis := bs\<rparr>"] by simp
    qed
  qed
qed

subsection \<open>Raw packets\<close>

lemma raw_len_loop_dec:
  "dec_var lim bs val shift = DDone v rest \<Longrightarrow> raw_len_loop bs val shift = v"
  by (induction bs arbitrary: val shift) (auto simp: Let_def split: if_splits)

lemma raw_len_number:
  assumes "list_all contd cs" "\<not> contd b" "length cs < 5"
  shows "raw_len_loop (cs @ [b]) 0 0 = word_of_nat (leb_value (cs @ [b]))"
  by (rule raw_len_loop_dec [of 35 _ _ _ _ "[]"]) (subst dec_var_number, use assms in simp_all)

context byte_source
begin

lemma ReadFull_1_obtain:
  assumes "content r = b # bs"
  obtains r' where "ReadFull R (Suc 0) r = (Inr [b], r')" "content r' = bs" "stop r' = stop r"
  using ReadFull_append_obtain [of r "[b]" bs "Suc 0"] assms by auto

lemma ReadFull_1_nil_obtain:
  assumes "content r = []"
  obtains r' where "ReadFull R (Suc 0) r = (Inl (stop r), r')"
  using ReadFull_short_obtain [of r "Suc 0"] assms by auto

lemma readUntilVarInt_number:
  assumes "content r = cs @ b # rest" "list_all contd cs" "\<not> contd b" "i + length cs < 5" "length buf = 5"
  shows "\<exists>buf' r'. readUntilVarInt_loop R buf i r = ((Inr (i + Suc (length cs)), buf'), r') \<and>
    take (i + Suc (length cs)) buf' = take i buf @ cs @ [b] \<and> length buf' = 5 \<and>
    content r' = rest \<and> stop r' = stop r"
  using assms
proof (induction cs arbitrary: r i buf)
  case Nil
  then obtain r' where r': "ReadFull R (Suc 0) r = (Inr [b], r')" "content r' = rest" "stop r' = stop r"
    using ReadFull_1_obtain [of r b rest] by auto
  let ?b = "copy_at buf i [b]"
  have c: "?b = take i buf @ b # drop (Suc i) buf" "length ?b = 5" "?b ! i = b"
    using Nil.prems by (simp_all add: copy_at_def nth_append take_Cons')
  with r' Nil.prems have "readUntilVarInt_loop R buf i r = ((Inr (i + 1), ?b), r')"
    by (subst readUntilVarInt_loop.simps) (simp add: MaxVarIntLen_def Let_def contd_def)
  moreover have "take (i + 1) ?b = take i buf @ [b]" using c Nil.prems by simp
  ultimately show ?case using c r' by simp
next
  case (Cons d cs)
  then obtain r' where r': "ReadFull R (Suc 0) r = (Inr [d], r')" "content r' = cs @ b # rest" "stop r' = stop r"
    using ReadFull_1_obtain [of r d "cs @ b # rest"] by (metis append_Cons)
  let ?b = "copy_at buf i [d]"
  have c: "?b = take i buf @ d # drop (Suc i) buf" "length ?b = 5" "?b ! i = d"
    using Cons.prems by (simp_all add: copy_at_def nth_append take_Cons')
  with r' Cons.prems have step: "readUntilVarInt_loop R buf i r = readUntilVarInt_loop R ?b (i + 1) r'"
    by (subst readUntilVarInt_loop.simps) (simp add: MaxVarIntLen_def Let_def contd_def)
  have t: "take (i + 1) ?b = take i buf @ [d]" using c Cons.prems by simp
  from Cons.IH [of r' "i + 1" ?b] r' c(2) Cons.prems
  obtain buf' r2 where "readUntilVarInt_loop R ?b (i + 1) r' = ((Inr (i + 1 + Suc (length cs)), buf'), r2)"
    "take (i + 1 + Suc (length cs)) buf' = take (i + 1) ?b @ cs @ [b]" "length buf' = 5"
    "content r2 = rest" "stop r2 = stop r'" by auto
  with step t r' show ?case by simp
qed

lemma readUntilVarInt_error:
  assumes "list_all contd (take (5 - i) (content r))" "i \<le> 5" "length buf = 5"
  shows "fst (fst (readUntilVarInt_loop R buf i r)) =
    Inl (if length (content r) < 5 - i then stop r else ErrMalformedVarInt)"
  using assms
proof (induction "5 - i" arbitrary: r i buf)
  case 0
  then show ?case by (subst readUntilVarInt_loop.simps) (simp add: MaxVarIntLen_def)
next
  case (Suc k)
  show ?case
  proof (cases "content r")
    case Nil
    then obtain r' where "ReadFull R (Suc 0) r = (Inl (stop r), r')" by (rule ReadFull_1_nil_obtain)
    with Nil Suc show ?thesis by (subst readUntilVarInt_loop.simps) (simp add: MaxVarIntLen_def)
  next
    case (Cons d ds)
    then obtain r' where r': "ReadFull R (Suc 0) r = (Inr [d], r')" "content r' = ds" "stop r' = stop r"
      by (rule ReadFull_1_obtain)
    let ?b = "copy_at buf i [d]"
    have i: "i < 5" "5 - i = Suc (5 - (i + 1))" using Suc by auto
    have c: "length ?b = 5" "?b ! i = d"
      using Suc.prems i by (simp_all add: copy_at_def nth_append take_Cons')
    have d: "contd d" "list_all contd (take (5 - (i + 1)) ds)"
      using Suc.prems(1) Cons i(2) by auto
    with r' i c have "readUntilVarInt_loop R buf i r = readUntilVarInt_loop R ?b (i + 1) r'"
      by (subst readUntilVarInt_loop.simps) (simp add: MaxVarIntLen_def Let_def contd_def)
    with Suc.hyps(1) [of "i + 1" r' ?b] Suc.hyps(2) r' c d i Cons show ?thesis by auto
  qed
qed

end

context byte_source
begin

text \<open>With the length prefix read, what remains is to read the body behind it.\<close>

lemma ReadRawPacket_number:
  assumes g: "GetBuffer (bufs m) (int MaxVarIntLen) = Inr (buf, bp)" "length (vis buf) = 5"
    and number: "content r = cs @ b # suf" "list_all contd cs" "\<not> contd b" "length cs < 5"
  shows "case next_body (content r) (stop r) of
     Inl e \<Rightarrow> fst (ReadRawPacket R m r) = Inl e
   | Inr (body, rest) \<Rightarrow>
       \<exists>s. fst (ReadRawPacket R m r) = Inr \<lparr>raw_Buf = Some s\<rparr> \<and>
           content r = vis s @ rest \<and>
           content (snd (snd (ReadRawPacket R m r))) = rest \<and>
           stop (snd (snd (ReadRawPacket R m r))) = stop r"
proof -
  have sh: "number_shape 5 (content r) = DDone (leb_value (cs @ [b])) suf"
    using number by (simp add: number_shape_def list_all_iff takeWhile_append)
  define u :: i32 where "u = word_of_nat (leb_value (cs @ [b]))"
  note nb = next_body_DDone [OF sh u_def]
  define n where "n = Suc (length cs)"
  obtain b' r' where ru: "readUntilVarInt R (vis buf) r = ((Inr n, b'), r')"
    "take n b' = cs @ [b]" "content r' = suf" "stop r' = stop r"
    using readUntilVarInt_number [of r cs b suf 0 "vis buf"] number g
    by (auto simp: readUntilVarInt_def n_def)
  have raw: "raw_len_loop (take n b') 0 0 = u"
    using raw_len_number [of cs b] number ru by (simp add: u_def)
  show ?thesis
  proof (cases "sint u < 0 \<or> sint u > MaxPacketSize")
    case True
    with g ru raw show ?thesis
      by (auto simp: nb ReadRawPacket_def Let_def)
  next
    case False
    then have "0 \<le> int n + sint u" by simp
    then obtain s q where g2: "GetBuffer bp (int n + sint u) = Inr (s, q)"
      "length (vis s) = nat (int n + sint u)" by (rule GetBuffer_obtain)
    have l: "length (vis s) = n + nat (sint u)" "length (vis s) - n = nat (sint u)"
      using g2 False by (simp_all add: nat_add_distrib)
    show ?thesis
    proof (cases "length suf < nat (sint u)")
      case True
      obtain r'' where "ReadFull R (nat (sint u)) r' = (Inl (if suf = [] then stop r else short_err (stop r)), r'')"
        using ReadFull_short_obtain [of r' "nat (sint u)"] True ru(3,4) by metis
      with True False g ru(1) raw g2 l show ?thesis
        by (simp add: nb ReadRawPacket_def Let_def)
    next
      case full: False
      let ?bs = "take (nat (sint u)) suf"
      obtain r'' where r'': "ReadFull R (nat (sint u)) r' = (Inr ?bs, r'')"
        "content r'' = drop (nat (sint u)) suf" "stop r'' = stop r"
        using ReadFull_append_obtain [of r' ?bs "drop (nat (sint u)) suf" "nat (sint u)"] full ru(3,4)
        by auto
      have c: "copy_at (copy_at (vis s) 0 (take n b')) n ?bs = cs @ b # ?bs"
        using l full ru(2) by (simp add: copy_at_def n_def)
      show ?thesis
        using full False g ru(1) raw g2 l r'' number(1)
        by (simp add: nb [unfolded number(1)] ReadRawPacket_def Let_def c)
    qed
  qed
qed

lemma ReadRawPacket_result:
  "case next_body (content r) (stop r) of
     Inl e \<Rightarrow> fst (ReadRawPacket R m r) = Inl e
   | Inr (body, rest) \<Rightarrow>
       \<exists>s. fst (ReadRawPacket R m r) = Inr \<lparr>raw_Buf = Some s\<rparr> \<and>
           content r = vis s @ rest \<and>
           content (snd (snd (ReadRawPacket R m r))) = rest \<and>
           stop (snd (snd (ReadRawPacket R m r))) = stop r"
proof -
  obtain buf bp where g: "GetBuffer (bufs m) (int MaxVarIntLen) = Inr (buf, bp)" "length (vis buf) = 5"
    using GetBuffer_nat_obtain [of "bufs m" MaxVarIntLen] by (auto simp: MaxVarIntLen_def)
  show ?thesis
  proof (cases rule: contd_split [of "content r" 5])
    case (number cs b suf)
    with g show ?thesis by (intro ReadRawPacket_number)
  next
    case (malformed cs rest)
    then have "5 \<le> length (takeWhile contd (content r))"
      by (simp add: list_all_iff takeWhile_append)
    moreover have "fst (fst (readUntilVarInt R (vis buf) r)) = Inl ErrMalformedVarInt"
      using readUntilVarInt_error [of 0 r "vis buf"] malformed g by (simp add: readUntilVarInt_def)
    ultimately show ?thesis
      using g by (auto simp: next_body_def number_shape_def ReadRawPacket_def split: prod.splits sum.splits)
  next
    case truncated
    then have "length (takeWhile contd (content r)) = length (content r)"
      by (metis list_all_iff takeWhile_eq_all_conv)
    moreover have "fst (fst (readUntilVarInt R (vis buf) r)) = Inl (stop r)"
      using readUntilVarInt_error [of 0 r "vis buf"] truncated g by (simp add: readUntilVarInt_def)
    ultimately show ?thesis
      using g truncated by (auto simp: next_body_def number_shape_def ReadRawPacket_def split: prod.splits sum.splits)
  qed
qed

end

lemma ReadRawPacket_pool:
  assumes ok: "pool_ok (bufs m)"
  shows "pool_ok (bufs (fst (snd (ReadRawPacket R m r)))) \<and>
    (\<forall>j. owned (bufs m) j \<longrightarrow> owned (bufs (fst (snd (ReadRawPacket R m r)))) j) \<and>
    (\<forall>s. fst (ReadRawPacket R m r) = Inr \<lparr>raw_Buf = Some s\<rparr> \<longrightarrow>
       owned (bufs (fst (snd (ReadRawPacket R m r)))) (sid s) \<and> \<not> owned (bufs m) (sid s))"
proof -
  let ?P = "\<lambda>p. pool_ok p \<and> (\<forall>j. owned (bufs m) j \<longrightarrow> owned p j)"
  obtain buf bp where g: "GetBuffer (bufs m) (int MaxVarIntLen) = Inr (buf, bp)"
    by (rule GetBuffer_nat_obtain)
  have bp: "?P bp" and put1: "?P (PutBuffer bp (buf\<lparr>vis := b\<rparr>))" for b
    using ok GetBuffer_ok [OF ok g] GetBuffer_keeps_owned [OF _ g]
      bufs.borrow [OF ok g, of "buf\<lparr>vis := b\<rparr>"] by auto
  have two: "?P (PutBuffer q (buf\<lparr>vis := b\<rparr>)) \<and> owned (PutBuffer q (buf\<lparr>vis := b\<rparr>)) (sid f) \<and>
      \<not> owned (bufs m) (sid f)" and three: "?P (PutBuffer (PutBuffer q (buf\<lparr>vis := b\<rparr>)) (f\<lparr>vis := b'\<rparr>))"
    if g2: "GetBuffer bp k = Inr (f, q)" for k f q b b'
  proof -
    have q: "pool_ok q" "owned q (sid f)" "owned q (sid buf)" "sid f \<noteq> sid buf"
      using GetBuffer_ok [OF _ g2] GetBuffer_keeps_owned [OF _ g2] GetBuffer_ok [OF ok g] bp by blast+
    have j: "owned q j \<and> sid f \<noteq> j \<and> sid buf \<noteq> j" if "owned (bufs m) j" for j
      using that bp GetBuffer_keeps_owned [OF _ g2] GetBuffer_keeps_owned [OF _ g] by blast
    let ?q = "PutBuffer q (buf\<lparr>vis := b\<rparr>)"
    have "pool_ok ?q" "owned ?q (sid f)" "\<forall>j. owned (bufs m) j \<longrightarrow> owned ?q j"
      using q j PutBuffer_ok [of q "buf\<lparr>vis := b\<rparr>"] PutBuffer_keeps_owned [of q _ "buf\<lparr>vis := b\<rparr>"]
      by auto
    with j show "?P ?q \<and> owned ?q (sid f) \<and> \<not> owned (bufs m) (sid f)" "?P (PutBuffer ?q (f\<lparr>vis := b'\<rparr>))"
      using PutBuffer_ok [of ?q "f\<lparr>vis := b'\<rparr>"] PutBuffer_keeps_owned [of ?q _ "f\<lparr>vis := b'\<rparr>"]
      by auto
  qed
  obtain x b r' where ru: "readUntilVarInt R (vis buf) r = ((x, b), r')" by (metis prod.exhaust)
  show ?thesis
  proof (cases x)
    case (Inl e)
    with g ru put1 [of b] show ?thesis by (simp add: ReadRawPacket_def)
  next
    case (Inr n)
    define u where "u = raw_len_loop (take n b) 0 0"
    show ?thesis
    proof (cases "sint u < 0 \<or> sint u > MaxPacketSize")
      case True
      with Inr g ru put1 [of b] show ?thesis by (auto simp: ReadRawPacket_def Let_def u_def)
    next
      case False
      then have "0 \<le> int n + sint u" by simp
      then obtain f q where g2: "GetBuffer bp (int n + sint u) = Inr (f, q)"
        by (rule GetBuffer_obtain)
      let ?f = "copy_at (vis f) 0 (take n b)"
      obtain y r'' where rf: "ReadFull R (length ?f - n) r' = (y, r'')" by force
      show ?thesis
        using Inr g ru False g2 rf two [OF g2, of b]
          three [OF g2, of b "copy_at ?f n (Partial R (length ?f - n) r')"]
        by (cases y) (auto simp: ReadRawPacket_def Let_def simp flip: u_def)
    qed
  qed
qed

lemma number_shape_leb:
  obtains v where "number_shape 5 (leb (u :: i32) @ rest) = DDone v rest" "u = word_of_nat v"
  using dec_var_shape [of 5 "leb u @ rest", where ?'a = 32] dec_var_leb_i32 [of u rest]
  by (auto split: dec.splits)

lemma next_body_frame:
  assumes "int (length fb) \<le> MaxPacketSize"
  shows "next_body (frame fb @ rest) e = Inr (fb, rest)"
proof -
  have l: "length fb < 2 ^ 31" using assms by (simp add: MaxPacketSize_def)
  obtain v where "number_shape 5 (leb (word_of_nat (length fb) :: i32) @ fb @ rest) = DDone v (fb @ rest)"
    "(word_of_nat (length fb) :: i32) = word_of_nat v" by (rule number_shape_leb)
  from next_body_DDone [OF this] assms show ?thesis
    by (simp add: frame_def sint_i32_of_nat [OF l])
qed

lemma parse_payload_payload [simp]: "parse_payload (payload p) = Inr p"
  by (simp add: parse_payload_def payload_def)

lemma parse_frame_body:
  assumes z: "zlib_lossless z" and fb: "frame_body z t p = Inr fb"
    and l: "int (length (payload p)) \<le> MaxCompressedSize" and t: "0 \<le> t \<longleftrightarrow> 0 \<le> t'"
  shows "parse_body z t' fb = Inr p"
proof -
  consider "t < 0" | "0 \<le> t" "int (length (payload p)) < t" | "0 \<le> t" "t \<le> int (length (payload p))"
    by linarith
  then show ?thesis
  proof cases
    case 1
    with fb t show ?thesis by (auto simp: frame_body_def parse_body_def)
  next
    case 2
    have "ReadVarIntFromBytes (0 # payload p) = Inr (0, payload p)"
      using ReadVarIntFromBytes_leb [of 0 "payload p"] by (simp add: leb_i32)
    with 2 fb t show ?thesis by (auto simp: frame_body_def parse_body_def)
  next
    case 3
    define u where "u = (word_of_nat (length (payload p)) :: i32)"
    from 3 fb obtain c where c: "zl_deflate z (payload p) = Some c" and f: "fb = leb u @ c"
      by (auto simp: frame_body_def u_def split: option.splits)
    have s: "sint u = int (length (payload p))"
      unfolding u_def using l by (intro sint_i32_of_nat) (simp add: MaxCompressedSize_def)
    moreover have "length (payload p) \<noteq> 0" by (simp add: payload_def)
    ultimately have nz: "u \<noteq> 0" by auto
    have "zl_inflate z c = Some (payload p, None)" using z c by (simp add: zlib_lossless_def)
    with 3 t f s nz l show ?thesis by (simp add: parse_body_def inflate_to_def)
  qed
qed

section \<open>Properties\<close>

text \<open>C1: a packet that \<^verbatim>\<open>WritePacket\<close> sends without error is the packet \<^verbatim>\<open>ReadPacket\<close> returns at
  the other end, with or without compression and whatever the two buffer pools hold, and the bytes
  that follow it stay unread. The sizes must be within the two limits of \<^verbatim>\<open>internal\<close>, which only
  the reader enforces, and the two ends must agree on whether compression is on (not on the
  threshold).\<close>

theorem Packet_roundtrip:
  assumes "zlib_lossless z" and "0 \<le> t \<longleftrightarrow> 0 \<le> t'"
    and "frame_body z t p = Inr fb" and "int (length fb) \<le> MaxPacketSize"
    and "int (length (payload p)) \<le> MaxCompressedSize"
    and "WritePacket z t conn_Write p m out = (None, m', out')"
    and "pending c = drop (length (sent out)) (sent out') @ rest"
  shows "\<exists>m2' c'. ReadPacket z t' conn_reader m2 c = (Inr p, m2', c') \<and>
    pending c' = rest \<and> fin c' = fin c"
proof -
  have "snd (fst (conn_Write (frame fb) out)) = None" "out' = snd (conn_Write (frame fb) out)"
    using WritePacket_frame [of conn_Write z t p m out] assms(3,6) by (auto simp: sends_def)
  then have "sent out' = sent out @ frame fb"
    using conn_snk.write_all [where w = out and bs = "frame fb"] by (metis prod.collapse)
  with assms(7) have "pending c = frame fb @ rest" by simp
  with next_body_frame [OF assms(4)] have nb: "next_body (pending c) (fin c) = Inr (fb, rest)" by simp
  from conn_src.ReadPacket_result [of z t' m2 c] nb parse_frame_body [OF assms(1,3,5,2)]
  have "fst (ReadPacket z t' conn_reader m2 c) = Inr p" by simp
  with conn_src.ReadPacket_rest [OF nb, of z t' m2] show ?thesis
    by (metis prod.collapse)
qed

definition empty_mem :: mem where
  "empty_mem = \<lparr>bufs = \<lparr>chan = [], next_sid = 0\<rparr>, zps = \<lparr>writerPool = [], readerPool = []\<rparr>\<rparr>"

theorem Packet_roundtrip_witness:
  "\<exists>m2' c'. ReadPacket stored_zlib 0 conn_reader empty_mem
      \<lparr>pending = [5, 3, 0x78, 7, 1, 2, 9], fin = EOF\<rparr> = (Inr \<lparr>pkt_ID = 7, pkt_Data = [1, 2]\<rparr>, m2', c') \<and>
    pending c' = [9] \<and> fin c' = EOF"
proof -
  have b: "frame_body stored_zlib 2 \<lparr>pkt_ID = 7, pkt_Data = [1, 2]\<rparr> = Inr [3, 0x78, 7, 1, 2]"
    by (simp add: frame_body_def payload_def leb_i32 stored_zlib_def)
  have f: "frame [3, 0x78, 7, 1, 2] = [5, 3, 0x78, 7, 1, 2]" by (simp add: frame_def leb_i32)
  let ?o = "\<lparr>sent = [], room = None, ofail = EOF\<rparr>" and ?p = "\<lparr>pkt_ID = 7, pkt_Data = [1, 2]\<rparr> :: Packet"
  let ?x = "WritePacket stored_zlib 2 conn_Write ?p empty_mem ?o"
  have w: "fst ?x = None" "snd (snd ?x) = \<lparr>sent = [5, 3, 0x78, 7, 1, 2], room = None, ofail = EOF\<rparr>"
    using WritePacket_frame [of conn_Write stored_zlib 2 ?p empty_mem ?o]
    by (simp_all add: sends_def b f conn_Write_def)
  then have x: "?x = (None, fst (snd ?x), \<lparr>sent = [5, 3, 0x78, 7, 1, 2], room = None, ofail = EOF\<rparr>)"
    by (metis prod.collapse)
  show ?thesis
    using Packet_roundtrip [OF stored_zlib_lossless _ b _ _ x, where t' = 0 and ?m2.0 = empty_mem and rest = "[9]"
        and c = "\<lparr>pending = [5, 3, 0x78, 7, 1, 2, 9], fin = EOF\<rparr>"]
    by (simp add: MaxPacketSize_def MaxCompressedSize_def payload_def leb_i32)
qed



text \<open>C5: \<^verbatim>\<open>ReadPacket\<close> on any byte stream and any pool content: the result is that of the reference
  parser on the body of the next frame, or the error of the length prefix, of the size limit or of
  the stream; a returned or refused body takes exactly its frame off the stream; the pool stays
  consistent and buffers owned by others stay theirs.\<close>

theorem ReadPacket_spec:
  "fst (ReadPacket z t conn_reader m c) =
     (case next_body (pending c) (fin c) of Inl e \<Rightarrow> Inl e | Inr (body, _) \<Rightarrow> parse_body z t body) \<and>
   (\<forall>body rest. next_body (pending c) (fin c) = Inr (body, rest) \<longrightarrow>
      pending (snd (snd (ReadPacket z t conn_reader m c))) = rest) \<and>
   (pool_ok (bufs m) \<longrightarrow>
      pool_ok (bufs (fst (snd (ReadPacket z t conn_reader m c)))) \<and>
      (\<forall>j. owned (bufs m) j \<longrightarrow> owned (bufs (fst (snd (ReadPacket z t conn_reader m c)))) j))"
  using conn_src.ReadPacket_result [of z t m c] conn_src.ReadPacket_rest [of c _ _ z t m]
    ReadPacket_pool [of m z t conn_reader c]
  by blast

theorem ReadPacket_spec_witness:
  "fst (ReadPacket stored_zlib (-1) conn_reader empty_mem \<lparr>pending = [3, 7], fin = EOF\<rparr>) = Inl ErrUnexpectedEOF \<and>
   pool_ok (bufs (fst (snd (ReadPacket stored_zlib (-1) conn_reader empty_mem \<lparr>pending = [3, 7], fin = EOF\<rparr>))))"
  using ReadPacket_spec [of stored_zlib "-1" empty_mem "\<lparr>pending = [3, 7], fin = EOF\<rparr>"]
  by (simp add: next_body_def number_shape_def contd_def MaxPacketSize_def short_err_def pool_ok_def
      empty_mem_def)

text \<open>C7: \<^verbatim>\<open>ReadRawPacket\<close> accepts exactly the frames \<^verbatim>\<open>ReadPacket\<close> accepts the body of, with the same
  errors, and the buffer it returns holds the frame byte for byte as it stood on the stream, in the
  ownership of the caller until \<^verbatim>\<open>Release\<close> gives it back.\<close>

theorem ReadRawPacket_spec:
  "(case next_body (pending c) (fin c) of
      Inl e \<Rightarrow> fst (ReadRawPacket conn_reader m c) = Inl e
    | Inr (body, rest) \<Rightarrow>
        \<exists>s. fst (ReadRawPacket conn_reader m c) = Inr \<lparr>raw_Buf = Some s\<rparr> \<and> pending c = vis s @ rest \<and>
            pending (snd (snd (ReadRawPacket conn_reader m c))) = rest \<and>
            (pool_ok (bufs m) \<longrightarrow>
               owned (bufs (fst (snd (ReadRawPacket conn_reader m c)))) (sid s) \<and>
               pool_ok (bufs (snd (RawPacket_Release (fst (snd (ReadRawPacket conn_reader m c)))
                 \<lparr>raw_Buf = Some s\<rparr>))))) \<and>
   (pool_ok (bufs m) \<longrightarrow>
      pool_ok (bufs (fst (snd (ReadRawPacket conn_reader m c)))) \<and>
      (\<forall>j. owned (bufs m) j \<longrightarrow> owned (bufs (fst (snd (ReadRawPacket conn_reader m c)))) j))"
  using conn_src.ReadRawPacket_result [where r = c and m = m] ReadRawPacket_pool [of m conn_reader c]
  by (auto simp: RawPacket_Release_def PutBuffer_ok split: sum.splits)

theorem ReadRawPacket_spec_witness:
  "\<exists>s. fst (ReadRawPacket conn_reader empty_mem \<lparr>pending = [2, 7, 1, 9], fin = EOF\<rparr>) = Inr \<lparr>raw_Buf = Some s\<rparr> \<and>
     vis s = [2, 7, 1] \<and>
     owned (bufs (fst (snd (ReadRawPacket conn_reader empty_mem \<lparr>pending = [2, 7, 1, 9], fin = EOF\<rparr>)))) (sid s)"
proof -
  have s: "s = [2, 7, 1]" if "[2, 7, 1, 9] = s @ [9]" for s :: "byte list"
    using that by (metis append1_eq_conv append_Cons append_Nil)
  show ?thesis
    using ReadRawPacket_spec [where c = "\<lparr>pending = [2, 7, 1, 9], fin = EOF\<rparr>" and m = empty_mem]
    by (auto simp: next_body_def number_shape_def contd_def MaxPacketSize_def pool_ok_def empty_mem_def dest!: s)
qed

text \<open>The identifier \<^verbatim>\<open>RawPacket.PacketID\<close> reports for a frame is the packet's own identifier only
  without compression. On a compressed connection it is the length field in front of it: 0 for
  a packet below the threshold, the length of the payload for a compressed one.\<close>

theorem RawPacket_PacketID_frame:
  assumes "frame_body z t p = Inr fb" and "raw_Buf rp = Some s" and "vis s = frame fb"
  shows "RawPacket_PacketID rp =
    (if t < 0 then Inr (pkt_ID p)
     else if int (length (payload p)) < t then Inr 0
     else Inr (word_of_nat (length (payload p))))"
proof -
  have z: "ReadVarIntFromBytes (0 # payload p) = Inr (0, payload p)"
    using ReadVarIntFromBytes_leb [of 0 "payload p"] by (simp add: leb_i32)
  have "RawPacket_PacketID rp = (case ReadVarIntFromBytes fb of Inl e \<Rightarrow> Inl e | Inr (i, _) \<Rightarrow> Inr i)"
    using assms(2,3) by (simp add: RawPacket_PacketID_def frame_def)
  with assms(1) show ?thesis
    using ReadVarIntFromBytes_leb [of "pkt_ID p" "pkt_Data p", folded payload_def]
    by (auto simp: frame_body_def z split: if_splits option.splits)
qed

theorem RawPacket_PacketID_frame_witness:
  "RawPacket_PacketID \<lparr>raw_Buf = Some \<lparr>sid = 0, vis = [3, 0, 7, 1], hid = []\<rparr>\<rparr> = Inr 0"
  using RawPacket_PacketID_frame [of stored_zlib 256 "\<lparr>pkt_ID = 7, pkt_Data = [1]\<rparr>" "[0, 7, 1]"]
  by (simp add: frame_body_def payload_def frame_def leb_i32)

text \<open>A frame whose announced uncompressed length is negative makes the reader of a compressed
  connection panic: any five-byte VarInt with bit 31 set does, whatever follows it.\<close>

theorem ReadPacket_negative_length_panics:
  fixes n :: i32
  assumes "0 \<le> t" and "sint n < 0" and "pending c = frame (leb n @ data) @ rest"
    and "int (length (leb n @ data)) \<le> MaxPacketSize"
  shows "fst (ReadPacket z t conn_reader m c) = Inl Panic"
proof -
  have "next_body (pending c) (fin c) = Inr (leb n @ data, rest)"
    using next_body_frame [OF assms(4)] assms(3) by simp
  moreover have "parse_body z t (leb n @ data) = Inl Panic"
    using assms(1,2) by (auto simp: parse_body_def MaxCompressedSize_def)
  ultimately show ?thesis by (simp add: conn_src.ReadPacket_result)
qed

theorem ReadPacket_negative_length_panics_witness:
  "fst (ReadPacket stored_zlib 256 conn_reader empty_mem
     \<lparr>pending = [5, 0x80, 0x80, 0x80, 0x80, 0x08], fin = EOF\<rparr>) = Inl Panic"
  by (rule ReadPacket_negative_length_panics [of _ "0x80000000" _ "[]" "[]"])
    (simp_all add: leb_i32 frame_def MaxPacketSize_def)

end
