(* ===== verification/Batch.thy ===== *)
theory Batch
  imports Packets
begin

text \<open>
  \<^verbatim>\<open>conn/batch.go\<close>: the batching writer, over an arbitrary destination. It is proved to satisfy the
  contract \<open>byte_sink\<close> of a writer when its buffer has no hidden capacity and the destination does
  not fail, so everything proved of a packet writer over a byte sink holds over it; the theorems at
  the end show what happens when the buffer does have hidden capacity, and on a second \<^verbatim>\<open>Close\<close>.
\<close>

section \<open>Model\<close>

text \<open>
  \<open>bw_timer\<close> is \<open>None\<close> when there is no flush timer (\<^verbatim>\<open>flushInterval <= 0\<close>) and otherwise tells
  whether it is running. \<open>bw_dst\<close> is the state of the destination; its \<^verbatim>\<open>Write\<close> method is a
  parameter of the operations.
\<close>

record 'w BatchWriter =
  bw_dst :: 'w
  bw_buf :: slice
  bw_buffered :: nat
  bw_threshold :: int
  bw_flushInt :: int
  bw_closed :: bool
  bw_timer :: "bool option"

definition NewBatchWriter :: "'w \<Rightarrow> int \<Rightarrow> int \<Rightarrow> pool \<Rightarrow> ('w BatchWriter \<times> pool) res" where
  "NewBatchWriter dst flushInterval bufferSize p =
     (case GetBuffer p bufferSize of
        Inl e \<Rightarrow> Inl e
      | Inr (buf, p') \<Rightarrow>
          Inr (\<lparr>bw_dst = dst, bw_buf = buf, bw_buffered = 0, bw_threshold = bufferSize div 2,
                bw_flushInt = flushInterval, bw_closed = False,
                bw_timer = (if flushInterval > 0 then Some False else None)\<rparr>, p'))"

definition flushLocked :: "'w writer \<Rightarrow> 'w BatchWriter \<Rightarrow> go_err option \<times> 'w BatchWriter" where
  "flushLocked W bw =
     (if bw_buffered bw = 0 then (None, bw)
      else case W (take (bw_buffered bw) (vis (bw_buf bw))) (bw_dst bw) of
        ((_, err), dst') \<Rightarrow>
          (err, bw\<lparr>bw_dst := dst', bw_buffered := 0, bw_timer := map_option (\<lambda>_. False) (bw_timer bw)\<rparr>))"

definition BatchWriter_Write ::
  "'w writer \<Rightarrow> byte list \<Rightarrow> 'w BatchWriter \<Rightarrow> (nat \<times> go_err option) \<times> 'w BatchWriter" where
  "BatchWriter_Write W data bw =
     (if bw_closed bw then ((0, Some ErrConnectionClosed), bw)
      else
        case (if int (length data) > int (cap (bw_buf bw)) - int (bw_buffered bw)
              then flushLocked W bw else (None, bw)) of
          (Some err, bw) \<Rightarrow> ((0, Some err), bw)
        | (None, bw) \<Rightarrow>
            if length data > cap (bw_buf bw) then
              (case W data (bw_dst bw) of ((n, err), dst') \<Rightarrow> ((n, err), bw\<lparr>bw_dst := dst'\<rparr>))
            else
              let n = min (length (vis (bw_buf bw)) - bw_buffered bw) (length data);
                  bw = bw\<lparr>bw_buf := (bw_buf bw)\<lparr>vis := copy_at (vis (bw_buf bw)) (bw_buffered bw) data\<rparr>,
                          bw_buffered := bw_buffered bw + n\<rparr>
              in if int (bw_buffered bw) \<ge> bw_threshold bw then
                   (case flushLocked W bw of
                      (Some err, bw) \<Rightarrow> ((n, Some err), bw)
                    | (None, bw) \<Rightarrow> ((length data, None), bw))
                 else if bw_flushInt bw > 0 then
                   ((length data, None), bw\<lparr>bw_timer := map_option (\<lambda>_. True) (bw_timer bw)\<rparr>)
                 else ((length data, None), bw))"

definition BatchWriter_Flush :: "'w writer \<Rightarrow> 'w BatchWriter \<Rightarrow> go_err option \<times> 'w BatchWriter" where
  "BatchWriter_Flush W bw = flushLocked W bw"

text \<open>One round of \<^verbatim>\<open>flushLoop\<close>: the timer has fired.\<close>

definition flushLoop_tick :: "'w writer \<Rightarrow> 'w BatchWriter \<Rightarrow> 'w BatchWriter" where
  "flushLoop_tick W bw =
     (if \<not> bw_closed bw \<and> bw_buffered bw > 0 then snd (flushLocked W bw) else bw)"

definition BatchWriter_Close ::
  "'w writer \<Rightarrow> 'w BatchWriter \<Rightarrow> pool \<Rightarrow> go_err option \<times> 'w BatchWriter \<times> pool" where
  "BatchWriter_Close W bw p =
     (let bw = bw\<lparr>bw_closed := True, bw_timer := map_option (\<lambda>_. False) (bw_timer bw)\<rparr> in
      case flushLocked W bw of (err, bw) \<Rightarrow> (err, bw, PutBuffer p (bw_buf bw)))"

definition NewBatchedPacketWriter ::
  "'w \<Rightarrow> int \<Rightarrow> int \<Rightarrow> pool \<Rightarrow> (('w BatchWriter \<times> int) \<times> pool) res" where
  "NewBatchedPacketWriter dst threshold flushInterval p =
     (case NewBatchWriter dst flushInterval 65536 p of
        Inl e \<Rightarrow> Inl e | Inr (bw, p') \<Rightarrow> Inr ((bw, threshold), p'))"

section \<open>A batch writer over a reliable destination is a byte sink\<close>

text \<open>What has been accepted: sent by the destination, or waiting in the buffer.\<close>

definition bw_written :: "outconn BatchWriter \<Rightarrow> byte list" where
  "bw_written bw = sent (bw_dst bw) @ take (bw_buffered bw) (vis (bw_buf bw))"

text \<open>The destination does not fail, and the buffer has no hidden capacity behind its length.\<close>

definition bw_ok :: "outconn BatchWriter \<Rightarrow> bool" where
  "bw_ok bw \<longleftrightarrow> room (bw_dst bw) = None \<and> hid (bw_buf bw) = [] \<and> bw_buffered bw \<le> length (vis (bw_buf bw))"

lemma flushLocked_ok:
  assumes "bw_ok bw"
  shows "fst (flushLocked conn_Write bw) = None \<and> bw_ok (snd (flushLocked conn_Write bw)) \<and>
    bw_buffered (snd (flushLocked conn_Write bw)) = 0 \<and>
    bw_written (snd (flushLocked conn_Write bw)) = bw_written bw \<and>
    sent (bw_dst (snd (flushLocked conn_Write bw))) = bw_written bw \<and>
    bw_closed (snd (flushLocked conn_Write bw)) = bw_closed bw \<and>
    bw_buf (snd (flushLocked conn_Write bw)) = bw_buf bw"
  using assms by (simp add: flushLocked_def conn_Write_def bw_ok_def bw_written_def)

lemma buffer_append:
  assumes "bw_ok bw" and "bw_buffered bw + length data \<le> length (vis (bw_buf bw))"
  defines "bw2 \<equiv> bw\<lparr>bw_buf := (bw_buf bw)\<lparr>vis := copy_at (vis (bw_buf bw)) (bw_buffered bw) data\<rparr>,
                       bw_buffered := bw_buffered bw + length data\<rparr>"
  shows "bw_ok bw2 \<and> bw_written bw2 = bw_written bw @ data"
  using assms by (simp add: bw_ok_def bw_written_def copy_at_fits)

lemma BatchWriter_Write_ok:
  assumes "bw_ok bw" and "BatchWriter_Write conn_Write data bw = ((n, e), bw')"
  shows "bw_ok bw' \<and> bw_closed bw' = bw_closed bw \<and>
    (if bw_closed bw then n = 0 \<and> e = Some ErrConnectionClosed \<and> bw' = bw
     else n = length data \<and> e = None \<and> bw_written bw' = bw_written bw @ data)"
proof (cases "bw_closed bw")
  case True
  then show ?thesis using assms by (simp add: BatchWriter_Write_def)
next
  case False
  define bw1 where "bw1 = (if int (length data) > int (cap (bw_buf bw)) - int (bw_buffered bw)
      then snd (flushLocked conn_Write bw) else bw)"
  note fl = flushLocked_ok [OF assms(1)]
  have f: "(if int (length data) > int (cap (bw_buf bw)) - int (bw_buffered bw)
              then flushLocked conn_Write bw else (None, bw)) = (None, bw1)"
    using fl by (cases "flushLocked conn_Write bw") (simp add: bw1_def)
  have b1: "bw_ok bw1" "bw_written bw1 = bw_written bw" "bw_closed bw1 = bw_closed bw" "bw_buf bw1 = bw_buf bw"
    using fl assms(1) by (simp_all add: bw1_def)
  have b1': "length data \<le> cap (bw_buf bw) \<Longrightarrow> bw_buffered bw1 + length data \<le> cap (bw_buf bw)"
    "length data > cap (bw_buf bw) \<Longrightarrow> bw_buffered bw1 = 0"
    using fl by (simp_all add: bw1_def)
  show ?thesis
  proof (cases "length data > cap (bw_buf bw)")
    case True
    then have "bw_buffered bw1 = 0" by (rule b1'(2))
    with True False f b1 assms(2) show ?thesis
      by (auto simp: BatchWriter_Write_def conn_Write_def bw_ok_def bw_written_def)
  next
    case fits: False
    have c: "cap (bw_buf bw) = length (vis (bw_buf bw))" using assms(1) by (simp add: cap_def bw_ok_def)
    then have l: "bw_buffered bw1 + length data \<le> length (vis (bw_buf bw1))" using b1 b1' fits by simp
    define bw2 where "bw2 = bw1\<lparr>bw_buf := (bw_buf bw1)\<lparr>vis := copy_at (vis (bw_buf bw1)) (bw_buffered bw1) data\<rparr>,
                       bw_buffered := bw_buffered bw1 + length data\<rparr>"
    have b2: "bw_ok bw2" "bw_written bw2 = bw_written bw @ data"
      using buffer_append [OF b1(1) l] b1(2) by (simp_all add: bw2_def)
    have m: "min (length (vis (bw_buf bw1)) - bw_buffered bw1) (length data) = length data" using l by simp
    obtain bw3 where f3: "flushLocked conn_Write bw2 = (None, bw3)" "bw_ok bw3" "bw_written bw3 = bw_written bw2"
      "bw_closed bw3 = bw_closed bw2"
      using flushLocked_ok [OF b2(1)] by (cases "flushLocked conn_Write bw2") auto
    have eq: "BatchWriter_Write conn_Write data bw =
        (if int (bw_buffered bw2) \<ge> bw_threshold bw2 then ((length data, None), bw3)
         else if bw_flushInt bw2 > 0 then
           ((length data, None), bw2\<lparr>bw_timer := map_option (\<lambda>_. True) (bw_timer bw2)\<rparr>)
         else ((length data, None), bw2))"
      unfolding BatchWriter_Write_def f option.case prod.case Let_def m bw2_def [symmetric] f3(1)
      using False fits b1(4) by (simp add: f3(1))
    have "bw_ok (bw2\<lparr>bw_timer := t\<rparr>) = bw_ok bw2" "bw_written (bw2\<lparr>bw_timer := t\<rparr>) = bw_written bw2" for t
      by (simp_all add: bw_ok_def bw_written_def)
    moreover have "bw_closed bw2 = bw_closed bw" using b1(3) by (simp add: bw2_def)
    ultimately show ?thesis using assms(2) b2 f3 False
      unfolding eq by (auto split: if_splits)
  qed
qed

interpretation bw_snk: byte_sink "BatchWriter_Write conn_Write" bw_written bw_ok
proof
  fix w bs n e w'
  assume "bw_ok w" and "BatchWriter_Write conn_Write bs w = ((n, e), w')"
  from BatchWriter_Write_ok [OF this]
  show "n \<le> length bs \<and> bw_written w' = bw_written w @ take n bs \<and> bw_ok w'"
    by (cases "bw_closed w") auto
next
  fix w bs n w'
  assume "bw_ok w" and "BatchWriter_Write conn_Write bs w = ((n, None), w')"
  from BatchWriter_Write_ok [OF this] show "n = length bs" by (cases "bw_closed w") simp_all
qed

section \<open>Properties\<close>

text \<open>The frames of a sequence of packets, and writing such a sequence with a \<^verbatim>\<open>PacketWriter\<close>.\<close>

fun frames :: "zlib \<Rightarrow> int \<Rightarrow> Packet list \<Rightarrow> byte list" where
  "frames z t [] = []"
| "frames z t (p # ps) =
     (case frame_body z t p of Inl _ \<Rightarrow> [] | Inr fb \<Rightarrow> frame fb @ frames z t ps)"

fun write_packets ::
  "zlib \<Rightarrow> int \<Rightarrow> 'w writer \<Rightarrow> Packet list \<Rightarrow> mem \<Rightarrow> 'w \<Rightarrow> go_err option \<times> mem \<times> 'w" where
  "write_packets z t W [] m w = (None, m, w)"
| "write_packets z t W (p # ps) m w =
     (case WritePacket z t W p m w of
        (Some e, m', w') \<Rightarrow> (Some e, m', w')
      | (None, m', w') \<Rightarrow> write_packets z t W ps m' w')"

lemma write_packets_batch:
  assumes "bw_ok bw" and "\<not> bw_closed bw" and "\<forall>p \<in> set ps. \<exists>fb. frame_body z t p = Inr fb"
  shows "\<exists>m' bw'. write_packets z t (BatchWriter_Write conn_Write) ps m bw = (None, m', bw') \<and>
    bw_ok bw' \<and> \<not> bw_closed bw' \<and>
    bw_written bw' = bw_written bw @ frames z t ps"
  using assms
proof (induction ps arbitrary: m bw)
  case (Cons p ps)
  from Cons.prems(3) obtain fb where fb: "frame_body z t p = Inr fb" by auto
  obtain n e bw1 where w: "BatchWriter_Write conn_Write (frame fb) bw = ((n, e), bw1)" by (metis prod.exhaust)
  with BatchWriter_Write_ok [OF Cons.prems(1) w] Cons.prems(2)
  have b1: "e = None" "bw_ok bw1" "bw_written bw1 = bw_written bw @ frame fb" and c1: "\<not> bw_closed bw1"
    by auto
  obtain m1 where W: "WritePacket z t (BatchWriter_Write conn_Write) p m bw = (None, m1, bw1)"
    using WritePacket_frame [of "BatchWriter_Write conn_Write" z t p m bw] fb w b1(1)
    by (cases "WritePacket z t (BatchWriter_Write conn_Write) p m bw") (auto simp: sends_def)
  from Cons.IH [OF b1(2) c1, of m1] Cons.prems(3) W b1(3) fb show ?case by auto
qed simp

text \<open>C13: batching loses and reorders nothing. Packets written through a batch writer whose buffer has no
  hidden capacity, over a connection that does not fail, all succeed; after \<^verbatim>\<open>Flush\<close> (or a tick of
  the flush loop) the connection has sent exactly the frames of the packets, in order.\<close>

theorem BatchWriter_no_loss:
  assumes "NewBatchWriter out flushInterval bufferSize p = Inr (bw, p')" and "hid (bw_buf bw) = []"
    and "room out = None" and "\<forall>q \<in> set ps. \<exists>fb. frame_body z t q = Inr fb"
  shows "\<exists>m' bw' bw''. write_packets z t (BatchWriter_Write conn_Write) ps m bw = (None, m', bw') \<and>
    BatchWriter_Flush conn_Write bw' = (None, bw'') \<and>
    sent (bw_dst bw'') = sent out @ frames z t ps \<and>
    sent (bw_dst (flushLoop_tick conn_Write bw')) = sent out @ frames z t ps"
proof -
  have b: "bw_ok bw" "\<not> bw_closed bw" "bw_written bw = sent out"
    using assms(1-3) by (auto simp: NewBatchWriter_def bw_ok_def bw_written_def split: sum.splits)
  obtain m' bw' where w: "write_packets z t (BatchWriter_Write conn_Write) ps m bw = (None, m', bw')"
    "bw_ok bw'" "\<not> bw_closed bw'" "bw_written bw' = sent out @ frames z t ps"
    using write_packets_batch [OF b(1,2) assms(4)] b(3) by metis
  obtain bw'' where f: "flushLocked conn_Write bw' = (None, bw'')" "sent (bw_dst bw'') = bw_written bw'"
    using flushLocked_ok [OF w(2)] by (cases "flushLocked conn_Write bw'") auto
  have "sent (bw_dst (flushLoop_tick conn_Write bw')) = bw_written bw'"
    using f w(3) by (cases "bw_buffered bw' = 0") (simp_all add: flushLoop_tick_def bw_written_def)
  with w f show ?thesis by (auto simp: BatchWriter_Flush_def)
qed

theorem BatchWriter_no_loss_witness:
  "\<exists>bw p'. NewBatchWriter \<lparr>sent = [], room = None, ofail = EOF\<rparr> 0 16 \<lparr>chan = [], next_sid = 0\<rparr> = Inr (bw, p') \<and>
    (\<exists>m' bw' bw''. write_packets stored_zlib (-1) (BatchWriter_Write conn_Write)
        [\<lparr>pkt_ID = 7, pkt_Data = [1]\<rparr>, \<lparr>pkt_ID = 8, pkt_Data = []\<rparr>] empty_mem bw = (None, m', bw') \<and>
      BatchWriter_Flush conn_Write bw' = (None, bw'') \<and> sent (bw_dst bw'') = [2, 7, 1, 1, 8])"
proof -
  let ?ps = "[\<lparr>pkt_ID = 7, pkt_Data = [1]\<rparr>, \<lparr>pkt_ID = 8, pkt_Data = []\<rparr>]"
  obtain bw p' where n: "NewBatchWriter \<lparr>sent = [], room = None, ofail = EOF\<rparr> 0 16 \<lparr>chan = [], next_sid = 0\<rparr> = Inr (bw, p')"
    and h: "hid (bw_buf bw) = []"
    by (simp add: NewBatchWriter_def GetBuffer_def make_slice_def BufferPoolMax_def)
  have f: "frames stored_zlib (-1) ?ps = [2, 7, 1, 1, 8]"
    by (simp add: frame_body_def payload_def frame_def leb_i32)
  from BatchWriter_no_loss [OF n h, of ?ps stored_zlib "-1" empty_mem] n show ?thesis
    unfolding f by (auto simp: frame_body_def)
qed

text \<open>A batch writer whose pooled buffer has capacity beyond its length silently drops data: the
  test uses the capacity, the copy stops at the length, and the call reports that everything was
  written. \<^verbatim>\<open>GetBuffer\<close> hands out such buffers whenever it reuses one.\<close>

theorem BatchWriter_truncates:
  assumes "\<not> bw_closed bw" and "bw_buffered bw \<le> length (vis (bw_buf bw))"
    and "length (vis (bw_buf bw)) < bw_buffered bw + length data"
    and "bw_buffered bw + length data \<le> cap (bw_buf bw)" and "room (bw_dst bw) = None"
  shows "\<exists>bw'. BatchWriter_Write conn_Write data bw = ((length data, None), bw') \<and>
    bw_written bw' = bw_written bw @ take (length (vis (bw_buf bw)) - bw_buffered bw) data"
proof -
  let ?v = "vis (bw_buf bw)" and ?n = "length (vis (bw_buf bw)) - bw_buffered bw"
  have m: "min ?n (length data) = ?n" using assms(2,3) by simp
  define bw2 where "bw2 = bw\<lparr>bw_buf := (bw_buf bw)\<lparr>vis := copy_at ?v (bw_buffered bw) data\<rparr>,
      bw_buffered := bw_buffered bw + ?n\<rparr>"
  have w2: "bw_written bw2 = bw_written bw @ take ?n data" "room (bw_dst bw2) = None"
    using assms(2,3,5) by (simp_all add: bw2_def bw_written_def copy_at_def)
  obtain bw3 where f: "flushLocked conn_Write bw2 = (None, bw3)" "bw_written bw3 = bw_written bw2"
    using w2(2) by (cases "bw_buffered bw2 = 0") (auto simp: flushLocked_def conn_Write_def bw_written_def)
  have t: "bw_written (bw2\<lparr>bw_timer := x\<rparr>) = bw_written bw2" for x by (simp add: bw_written_def)
  have c: "\<not> int (length data) > int (cap (bw_buf bw)) - int (bw_buffered bw)" "\<not> length data > cap (bw_buf bw)"
    using assms(4) by auto
  have "BatchWriter_Write conn_Write data bw =
        (if int (bw_buffered bw2) \<ge> bw_threshold bw2 then ((length data, None), bw3)
         else if bw_flushInt bw2 > 0 then
           ((length data, None), bw2\<lparr>bw_timer := map_option (\<lambda>_. True) (bw_timer bw2)\<rparr>)
         else ((length data, None), bw2))"
    unfolding BatchWriter_Write_def if_not_P [OF c(1)] option.case prod.case if_not_P [OF c(2)]
      if_not_P [OF assms(1)] Let_def m bw2_def [symmetric] f(1)
    by (simp add: f(1))
  then show ?thesis using w2(1) f(2) t by auto
qed

theorem BatchWriter_truncates_witness:
  "\<exists>bw p' bw'. NewBatchWriter \<lparr>sent = [], room = None, ofail = EOF\<rparr> 0 2 \<lparr>chan = [(0, [9, 9, 9])], next_sid = 1\<rparr> = Inr (bw, p') \<and>
    BatchWriter_Write conn_Write [1, 2, 3] bw = ((length [1 :: byte, 2, 3], None), bw') \<and> bw_written bw' = [1, 2]"
proof -
  let ?o = "\<lparr>sent = [], room = None, ofail = EOF\<rparr>"
  obtain bw p' where n: "NewBatchWriter ?o 0 2 \<lparr>chan = [(0, [9, 9, 9])], next_sid = 1\<rparr> = Inr (bw, p')"
    and b: "bw = \<lparr>bw_dst = ?o, bw_buf = \<lparr>sid = 0, vis = [9, 9], hid = [9]\<rparr>, bw_buffered = 0, bw_threshold = 1,
      bw_flushInt = 0, bw_closed = False, bw_timer = None\<rparr>"
    by (simp add: NewBatchWriter_def GetBuffer_def BufferPoolMax_def)
  with BatchWriter_truncates [of bw "[1, 2, 3]"] show ?thesis
    by (auto simp: cap_def bw_written_def)
qed

text \<open>Closing a batch writer returns its buffer to the pool; closing it twice puts the same array
  into the pool twice, after which two callers of \<^verbatim>\<open>GetBuffer\<close> are given the same memory.\<close>

theorem BatchWriter_double_Close:
  assumes "pool_ok p" and "owned p (sid (bw_buf bw))" and "0 < cap (bw_buf bw)"
    and "int (cap (bw_buf bw)) \<le> BufferPoolMax" and "length (chan p) + 2 \<le> bufPool_cap"
    and "BatchWriter_Close W bw p = (e, bw', p')" and "BatchWriter_Close W bw' p' = (e', bw'', p'')"
  shows "pool_ok p' \<and> \<not> pool_ok p''"
proof -
  have buf: "bw_buf (snd (flushLocked W b)) = bw_buf b" for b
    by (simp add: flushLocked_def split: prod.splits)
  have p: "p' = PutBuffer p (bw_buf bw)" "bw_buf bw' = bw_buf bw"
    using assms(6) buf [of "bw\<lparr>bw_closed := True, bw_timer := map_option (\<lambda>_. False) (bw_timer bw)\<rparr>"]
    by (auto simp: BatchWriter_Close_def Let_def split: prod.splits)
  have p2: "p'' = PutBuffer p' (bw_buf bw)"
    using assms(7) p(2) buf [of "bw'\<lparr>bw_closed := True, bw_timer := map_option (\<lambda>_. False) (bw_timer bw')\<rparr>"]
    by (auto simp: BatchWriter_Close_def Let_def split: prod.splits)
  have "pool_ok p'" unfolding p(1) by (rule PutBuffer_ok [OF assms(1,2)])
  moreover have "\<not> pool_ok p''"
    using assms(3-5) unfolding p2 p(1) by (auto simp: PutBuffer_def pool_ok_def)
  ultimately show ?thesis by blast
qed

theorem BatchWriter_double_Close_witness:
  "pool_ok \<lparr>chan = [(0, [7])], next_sid = 1\<rparr> \<and> \<not> pool_ok \<lparr>chan = [(0, [7]), (0, [7])], next_sid = 1\<rparr>"
proof -
  let ?b = "\<lambda>c. \<lparr>bw_dst = (), bw_buf = \<lparr>sid = 0, vis = [7], hid = []\<rparr>, bw_buffered = 0, bw_threshold = 0,
    bw_flushInt = 0, bw_closed = c, bw_timer = None\<rparr>"
  let ?W = "\<lambda>bs w. ((length bs, None), w)"
  have "BatchWriter_Close ?W (?b False) \<lparr>chan = [], next_sid = 1\<rparr> = (None, ?b True, \<lparr>chan = [(0, [7])], next_sid = 1\<rparr>)"
    "BatchWriter_Close ?W (?b True) \<lparr>chan = [(0, [7])], next_sid = 1\<rparr> =
      (None, ?b True, \<lparr>chan = [(0, [7]), (0, [7])], next_sid = 1\<rparr>)"
    by (simp_all add: BatchWriter_Close_def flushLocked_def PutBuffer_def cap_def BufferPoolMax_def
        bufPool_cap_def Let_def)
  from BatchWriter_double_Close [OF _ _ _ _ _ this] show ?thesis
    by (simp add: pool_ok_def owned_def cap_def BufferPoolMax_def bufPool_cap_def)
qed

end
