(* ===== verification/Priority.thy ===== *)
theory Priority
  imports Packets "HOL-Library.Multiset"
begin

text \<open>
  \<^verbatim>\<open>conn/priority.go\<close>: the multi-level priority queue, and the contract \<open>pop_queue\<close> that the queues
  of package \<^verbatim>\<open>conn\<close> share. The operations run under the queue's mutex, so each is one step of the
  model; \<^verbatim>\<open>PopBlock\<close>, which leaves the mutex to sleep, is modelled up to the point where it returns,
  sleeps or locks up.
\<close>

section \<open>The contract of a queue\<close>

text \<open>
  What every queue of the package promises about taking items out: \<open>content\<close> is what it will
  deliver, in order, and \<^verbatim>\<open>pop\<close> takes the first of it. The client law is that draining the queue
  delivers exactly its content.
\<close>

locale pop_queue =
  fixes pop :: "'q \<Rightarrow> 'x option \<times> 'q"
    and content :: "'q \<Rightarrow> 'x list"
  assumes pop_Cons: "content q = x # xs \<Longrightarrow> fst (pop q) = Some x \<and> content (snd (pop q)) = xs"
    and pop_Nil: "content q = [] \<Longrightarrow> fst (pop q) = None \<and> content (snd (pop q)) = []"

text \<open>Pop until nothing comes, at most \<open>n\<close> times.\<close>

fun drain :: "('q \<Rightarrow> 'x option \<times> 'q) \<Rightarrow> nat \<Rightarrow> 'q \<Rightarrow> 'x list \<times> 'q" where
  "drain pop 0 q = ([], q)"
| "drain pop (Suc n) q =
     (case pop q of
        (None, q') \<Rightarrow> ([], q')
      | (Some x, q') \<Rightarrow> (case drain pop n q' of (xs, q'') \<Rightarrow> (x # xs, q'')))"

context pop_queue
begin

lemma drain_content:
  "fst (drain pop n q) = take n (content q) \<and> content (snd (drain pop n q)) = drop n (content q)"
proof (induction n arbitrary: q)
  case (Suc n)
  show ?case
  proof (cases "content q")
    case Nil
    with pop_Nil [OF Nil] show ?thesis by (cases "pop q") auto
  next
    case (Cons x xs)
    with pop_Cons [OF Cons] Suc [of "snd (pop q)"] show ?thesis
      by (cases "pop q") (auto split: prod.splits)
  qed
qed simp

lemma drain_all: "length (content q) \<le> n \<Longrightarrow> fst (drain pop n q) = content q"
  by (simp add: drain_content)

end

section \<open>Model\<close>

definition Urgent :: int where "Urgent = 0"
definition Normal :: int where "Normal = 1"
definition Low :: int where "Low = 2"

record PriorityItem =
  pi_Data :: Packet
  pi_Priority :: int
  pi_Size :: nat

text \<open>
  \<open>pq_notify\<close> tells whether the channel \<^verbatim>\<open>notify\<close> (of capacity one) holds a token. \<^verbatim>\<open>Close\<close> sets the
  flag and closes the channel under the lock, so \<open>pq_closed\<close> stands for both.
\<close>

record PriorityQueue =
  pq_levels :: "PriorityItem list list"
  pq_cap :: "int list"
  pq_notify :: bool
  pq_closed :: bool

definition NewPriorityQueue :: "int \<Rightarrow> PriorityQueue res" where
  "NewPriorityQueue levels =
     (if levels < 0 then Inl Panic
      else Inr \<lparr>pq_levels = replicate (nat levels) [], pq_cap = replicate (nat levels) 256,
                pq_notify = False, pq_closed = False\<rparr>)"

definition PriorityQueue_Push :: "PriorityItem \<Rightarrow> PriorityQueue \<Rightarrow> unit res \<times> PriorityQueue" where
  "PriorityQueue_Push item pq =
     (if pq_closed pq then (Inl ErrConnectionClosed, pq)
      else
        let level = pi_Priority item;
            level = (if level \<ge> int (length (pq_levels pq)) then int (length (pq_levels pq)) - 1 else level)
        in if level < 0 then (Inl Panic, pq)
           else (Inr (),
                 pq\<lparr>pq_levels := (pq_levels pq)[nat level := pq_levels pq ! nat level @ [item]],
                    pq_notify := True\<rparr>))"

text \<open>The loop over the levels: the front of the first one that is not empty.\<close>

fun take_front :: "'a list list \<Rightarrow> ('a \<times> 'a list list) option" where
  "take_front [] = None"
| "take_front (l # ls) =
     (case l of
        x # xs \<Rightarrow> Some (x, xs # ls)
      | [] \<Rightarrow> (case take_front ls of None \<Rightarrow> None | Some (x, ls') \<Rightarrow> Some (x, [] # ls')))"

definition PriorityQueue_Pop :: "PriorityQueue \<Rightarrow> PriorityItem res \<times> PriorityQueue" where
  "PriorityQueue_Pop pq =
     (let empty = list_all (\<lambda>l. l = []) (pq_levels pq) in
      if pq_closed pq \<and> empty then (Inl ErrConnectionClosed, pq)
      else case take_front (pq_levels pq) of
        Some (item, ls) \<Rightarrow> (Inr item, pq\<lparr>pq_levels := ls\<rparr>)
      | None \<Rightarrow> (Inl ErrQueueEmpty, pq))"

definition PriorityQueue_Len :: "PriorityQueue \<Rightarrow> nat" where
  "PriorityQueue_Len pq = foldl (\<lambda>total l. total + length l) 0 (pq_levels pq)"

text \<open>
  How a call of \<^verbatim>\<open>PopBlock\<close> goes on: it returns an item, it goes to sleep on \<^verbatim>\<open>notify\<close>, or it
  locks up: on a closed queue the condition calls \<^verbatim>\<open>Len\<close>, which locks the mutex the caller
  already holds, and Go's mutexes are not reentrant.
\<close>

datatype pop_block = Returned PriorityItem | Sleeping | SelfDeadlock

function PriorityQueue_PopBlock :: "PriorityQueue \<Rightarrow> pop_block \<times> PriorityQueue" where
  "PriorityQueue_PopBlock pq =
     (if pq_closed pq then (SelfDeadlock, pq)
      else case take_front (pq_levels pq) of
        Some (item, ls) \<Rightarrow> (Returned item, pq\<lparr>pq_levels := ls\<rparr>)
      | None \<Rightarrow>
          if pq_notify pq then PriorityQueue_PopBlock (pq\<lparr>pq_notify := False\<rparr>)
          else (Sleeping, pq))"
  by pat_completeness auto
termination
  by (relation "measure (\<lambda>pq. if pq_notify pq then 1 else 0)") auto

declare PriorityQueue_PopBlock.simps [simp del]

text \<open>A second \<^verbatim>\<open>Close\<close> closes the channel again and panics.\<close>

definition PriorityQueue_Close :: "PriorityQueue \<Rightarrow> unit res \<times> PriorityQueue" where
  "PriorityQueue_Close pq =
     (if pq_closed pq then (Inl Panic, pq) else (Inr (), pq\<lparr>pq_closed := True\<rparr>))"

section \<open>The queue against its contract\<close>

definition pq_pop :: "PriorityQueue \<Rightarrow> PriorityItem option \<times> PriorityQueue" where
  "pq_pop pq = (case PriorityQueue_Pop pq of (Inr x, q) \<Rightarrow> (Some x, q) | (Inl _, q) \<Rightarrow> (None, q))"

definition pq_content :: "PriorityQueue \<Rightarrow> PriorityItem list" where
  "pq_content pq = concat (pq_levels pq)"

lemma take_front_concat:
  "case take_front ls of
     None \<Rightarrow> concat ls = [] | Some (x, ls') \<Rightarrow> concat ls = x # concat ls' \<and> length ls' = length ls"
  by (induction ls) (auto split: option.splits list.splits)

lemma concat_empty_iff: "concat ls = [] \<longleftrightarrow> list_all (\<lambda>l. l = []) ls"
  by (auto simp: list_all_iff)

interpretation pq: pop_queue pq_pop pq_content
proof
  fix q x xs
  assume c: "pq_content q = x # xs"
  then have "\<not> list_all (\<lambda>l. l = []) (pq_levels q)" "take_front (pq_levels q) \<noteq> None"
    using take_front_concat [of "pq_levels q"]
    by (auto simp: pq_content_def concat_empty_iff [symmetric] split: option.splits)
  with c show "fst (pq_pop q) = Some x \<and> pq_content (snd (pq_pop q)) = xs"
    using take_front_concat [of "pq_levels q"]
    by (auto simp: pq_pop_def PriorityQueue_Pop_def pq_content_def Let_def split: option.splits)
next
  fix q
  assume c: "pq_content q = []"
  then have "take_front (pq_levels q) = None"
    using take_front_concat [of "pq_levels q"]
    by (cases "take_front (pq_levels q)") (auto simp: pq_content_def simp del: concat_eq_Nil_conv)
  with c show "fst (pq_pop q) = None \<and> pq_content (snd (pq_pop q)) = []"
    by (simp add: pq_pop_def PriorityQueue_Pop_def pq_content_def Let_def)
qed

text \<open>The level an item goes to, and what a sequence of pushes leaves in the levels.\<close>

definition level_of :: "nat \<Rightarrow> PriorityItem \<Rightarrow> nat" where
  "level_of n item = (if pi_Priority item \<ge> int n then n - 1 else nat (pi_Priority item))"

fun push_all :: "PriorityItem list \<Rightarrow> PriorityQueue \<Rightarrow> unit res \<times> PriorityQueue" where
  "push_all [] pq = (Inr (), pq)"
| "push_all (x # xs) pq =
     (case PriorityQueue_Push x pq of (Inl e, q) \<Rightarrow> (Inl e, q) | (Inr _, q) \<Rightarrow> push_all xs q)"

lemma Push_open:
  assumes "\<not> pq_closed pq" and "0 \<le> pi_Priority x" and "pq_levels pq \<noteq> []"
  shows "PriorityQueue_Push x pq =
    (let l = level_of (length (pq_levels pq)) x in
     (Inr (), pq\<lparr>pq_levels := (pq_levels pq)[l := pq_levels pq ! l @ [x]], pq_notify := True\<rparr>))"
  using assms by (auto simp: PriorityQueue_Push_def level_of_def Let_def nat_diff_distrib')

lemma level_of_less: "0 < n \<Longrightarrow> level_of n x < n"
  by (auto simp: level_of_def)

lemma push_all_levels:
  assumes "\<not> pq_closed pq" and "pq_levels pq \<noteq> []" and "\<forall>x \<in> set xs. 0 \<le> pi_Priority x"
  shows "fst (push_all xs pq) = Inr () \<and>
    pq_levels (snd (push_all xs pq)) =
      map (\<lambda>l. pq_levels pq ! l @ filter (\<lambda>x. level_of (length (pq_levels pq)) x = l) xs)
        [0..<length (pq_levels pq)]"
  using assms
proof (induction xs arbitrary: pq)
  case Nil
  then show ?case by (simp add: map_nth)
next
  case (Cons x xs)
  let ?n = "length (pq_levels pq)" and ?l = "level_of (length (pq_levels pq)) x"
  let ?q = "pq\<lparr>pq_levels := (pq_levels pq)[?l := pq_levels pq ! ?l @ [x]], pq_notify := True\<rparr>"
  have p: "PriorityQueue_Push x pq = (Inr (), ?q)"
    using Push_open [of pq x] Cons.prems by (simp add: Let_def)
  have l: "?l < ?n" using Cons.prems by (intro level_of_less) auto
  from Cons.IH [of ?q] Cons.prems show ?case
    by (auto simp: p l intro!: nth_equalityI simp: nth_list_update)
qed

lemma concat_filter_sort_key:
  assumes "\<forall>x \<in> set xs. f x < (n :: nat)"
  shows "concat (map (\<lambda>l. filter (\<lambda>x. f x = l) xs) [0..<n]) = sort_key f xs"
proof -
  have fc: "filter P (concat (map g ls)) = concat (map (\<lambda>l. filter P (g l)) ls)" for P :: "'a \<Rightarrow> bool" and g :: "nat \<Rightarrow> 'a list" and ls
    by (simp add: filter_concat o_def)
  have one: "concat (map (\<lambda>l. if l = k then ys else []) [0..<m]) = (if k < m then ys else [])" for k m and ys :: "'a list"
    by (induction m) auto
  let ?c = "\<lambda>m. concat (map (\<lambda>l. filter (\<lambda>x. f x = l) xs) [0..<m])"
  have filt: "filter (\<lambda>x. f x = k) (?c m) = (if k < m then filter (\<lambda>x. f x = k) xs else [])" for k m
  proof -
    have "filter (\<lambda>x. f x = k) (?c m) = concat (map (\<lambda>l. if l = k then filter (\<lambda>x. f x = k) xs else []) [0..<m])"
      unfolding fc by (intro arg_cong [where f = concat] map_cong) (auto simp: filter_empty_conv)
    then show ?thesis by (simp only: one)
  qed
  have same: "sorted (map f (filter (\<lambda>x. f x = m) xs))" for m
    by (induction xs) auto
  have sorted: "sorted (map f (?c m)) \<and> (\<forall>x \<in> set (?c m). f x < m)" for m
    by (induction m) (auto simp: sorted_append less_Suc_eq same intro: less_imp_le)
  have "mset (?c n) = mset xs"
  proof (rule multiset_eqI)
    fix a
    have "filter (\<lambda>x. f x = f a) (?c n) = filter (\<lambda>x. f x = f a) xs"
      using filt [of "f a" n] assms by (auto intro!: filter_False [symmetric])
    moreover have "count (mset ys) a = count (mset (filter (\<lambda>x. f x = f a) ys)) a" for ys by simp
    ultimately show "count (mset (?c n)) a = count (mset xs) a" by metis
  qed
  moreover have "filter (\<lambda>x. f k = f x) (?c n) = filter (\<lambda>x. f k = f x) xs" if "k \<in> set (?c n)" for k
  proof -
    have e: "(\<lambda>x. f k = f x) = (\<lambda>x. f x = f k)" by auto
    have "f k < n" using sorted [of n] that by blast
    then show ?thesis unfolding e using filt [of "f k" n] by simp
  qed
  ultimately show ?thesis
    using sorted [of n] by (intro properties_for_sort_key [symmetric]) auto
qed

section \<open>Properties\<close>



text \<open>Closing. A closed queue refuses further items, still delivers the ones it holds through
  \<^verbatim>\<open>Pop\<close>, and then reports \<^verbatim>\<open>ErrConnectionClosed\<close> instead of \<^verbatim>\<open>ErrQueueEmpty\<close>.\<close>

theorem PriorityQueue_closed:
  assumes "PriorityQueue_Close pq = (Inr (), q)"
  shows "PriorityQueue_Push x q = (Inl ErrConnectionClosed, q) \<and>
    fst (drain pq_pop (PriorityQueue_Len pq) q) = concat (pq_levels pq) \<and>
    fst (PriorityQueue_Pop (snd (drain pq_pop (PriorityQueue_Len pq) q))) = Inl ErrConnectionClosed \<and>
    PriorityQueue_Close q = (Inl Panic, q)"
proof -
  have q: "q = pq\<lparr>pq_closed := True\<rparr>"
    using assms by (auto simp: PriorityQueue_Close_def split: if_splits)
  have len: "foldl (\<lambda>total l. total + length l) n ls = n + length (concat ls)" for n and ls :: "PriorityItem list list"
    by (induction ls arbitrary: n) auto
  have c: "pq_content q = concat (pq_levels pq)" "PriorityQueue_Len pq = length (concat (pq_levels pq))"
    by (simp_all add: q pq_content_def PriorityQueue_Len_def len)
  have closed: "pq_closed (snd (drain pq_pop n q))" if "pq_closed q" for n q
    using that
  proof (induction n arbitrary: q)
    case (Suc n)
    have "pq_closed (snd (pq_pop q))"
      using Suc.prems by (auto simp: pq_pop_def PriorityQueue_Pop_def Let_def split: option.splits)
    with Suc.IH [of "snd (pq_pop q)"] Suc.prems show ?case
      by (auto split: prod.splits option.splits)
  qed simp
  let ?e = "snd (drain pq_pop (PriorityQueue_Len pq) q)"
  have "pq_content ?e = []" "pq_closed ?e"
    using pq.drain_content [of "PriorityQueue_Len pq" q] c closed [of q] q by auto
  then have "fst (PriorityQueue_Pop ?e) = Inl ErrConnectionClosed"
    unfolding PriorityQueue_Pop_def pq_content_def concat_empty_iff by (simp add: Let_def)
  then show ?thesis
    using pq.drain_all [of q] c q by (simp add: PriorityQueue_Push_def PriorityQueue_Close_def)
qed

theorem PriorityQueue_closed_witness:
  "fst (PriorityQueue_Pop \<lparr>pq_levels = [[]], pq_cap = [256], pq_notify = False, pq_closed = True\<rparr>) =
     Inl ErrConnectionClosed"
  using PriorityQueue_closed [of "\<lparr>pq_levels = [[]], pq_cap = [256], pq_notify = False, pq_closed = False\<rparr>"
      "\<lparr>pq_levels = [[]], pq_cap = [256], pq_notify = False, pq_closed = True\<rparr>"]
  by (simp add: PriorityQueue_Close_def PriorityQueue_Len_def)

text \<open>\<^verbatim>\<open>PopBlock\<close> returns the same item as \<^verbatim>\<open>Pop\<close> on an open queue that has one, and sleeps on an
  empty one; but on a closed queue it never returns: it deadlocks with itself, even when items are
  left.\<close>

theorem PriorityQueue_PopBlock_spec:
  "fst (PriorityQueue_PopBlock pq) =
     (if pq_closed pq then SelfDeadlock
      else case PriorityQueue_Pop pq of (Inr item, _) \<Rightarrow> Returned item | (Inl _, _) \<Rightarrow> Sleeping)"
proof -
  have open_case: "PriorityQueue_PopBlock q =
      (case take_front (pq_levels q) of Some (item, ls) \<Rightarrow> (Returned item, q\<lparr>pq_levels := ls\<rparr>)
       | None \<Rightarrow> (Sleeping, q))" if "\<not> pq_closed q" "\<not> pq_notify q" for q
    using that by (subst PriorityQueue_PopBlock.simps) (auto split: option.splits)
  show ?thesis
    using open_case [of pq] open_case [of "pq\<lparr>pq_notify := False\<rparr>"]
    by (subst PriorityQueue_PopBlock.simps)
      (auto simp: PriorityQueue_Pop_def Let_def split: option.splits)
qed

end
