(* ===== verification/Flow.thy ===== *)
theory Flow
  imports Priority
begin

text \<open>
  \<^verbatim>\<open>conn/flow.go\<close>: the flow controller, the dropping queue and the channel-backed queue.

  The controller is shared by goroutines that synchronise only partly, so besides the sequential
  operations there is a step relation over the points where goroutines can interleave; the
  accounting invariant is proved over all its runs by rule induction, and the lost wake-up and
  the race of \<^verbatim>\<open>AcquireNonBlock\<close> are runs of it. The counter is kept at its width of 64 bits. The
  two queues implement the contract \<open>pop_queue\<close>.
\<close>

section \<open>The flow controller\<close>

record FlowController =
  fc_maxItems :: int
  fc_maxBytes :: i64
  fc_current :: i64

definition NewFlowController :: "int \<Rightarrow> int \<Rightarrow> FlowController" where
  "NewFlowController maxItems maxBytes =
     \<lparr>fc_maxItems = maxItems, fc_maxBytes = word_of_int maxBytes, fc_current = 0\<rparr>"

definition fc_full :: "FlowController \<Rightarrow> bool" where
  "fc_full fc \<longleftrightarrow> sint (fc_current fc) \<ge> sint (fc_maxBytes fc)"

definition fc_add :: "int \<Rightarrow> FlowController \<Rightarrow> FlowController" where
  "fc_add n fc = fc\<lparr>fc_current := fc_current fc + word_of_int n\<rparr>"

text \<open>Run to completion without interference, \<^verbatim>\<open>Acquire\<close> either succeeds or never returns (\<open>None\<close>).\<close>

definition Acquire :: "int \<Rightarrow> FlowController \<Rightarrow> FlowController option" where
  "Acquire sz fc = (if fc_full fc then None else Some (fc_add sz fc))"

definition nb_fits :: "int \<Rightarrow> FlowController \<Rightarrow> bool" where
  "nb_fits sz fc \<longleftrightarrow> sint (fc_current fc + word_of_int sz) \<le> sint (fc_maxBytes fc)"

definition AcquireNonBlock :: "int \<Rightarrow> FlowController \<Rightarrow> unit res \<times> FlowController" where
  "AcquireNonBlock sz fc =
     (if \<not> nb_fits sz fc then (Inl ErrQueueFull, fc) else (Inr (), fc_add sz fc))"

definition Release :: "int \<Rightarrow> FlowController \<Rightarrow> FlowController" where
  "Release sz fc = fc_add (- sz) fc"

definition Available :: "FlowController \<Rightarrow> i64" where
  "Available fc = fc_maxBytes fc - fc_current fc"

definition Used :: "FlowController \<Rightarrow> i64" where
  "Used fc = fc_current fc"

text \<open>\<^verbatim>\<open>Utilization\<close>, as the fraction it rounds to a \<^verbatim>\<open>float64\<close>: numerator and denominator.\<close>

definition Utilization :: "FlowController \<Rightarrow> int \<times> int" where
  "Utilization fc =
     (let used = fc_current fc in
      if used = 0 then (0, 1) else (sint used, sint (fc_maxBytes fc)))"

subsection \<open>Goroutines\<close>

text \<open>
  The points between which other goroutines may run. \<^verbatim>\<open>Acquire\<close> tests the counter and goes to sleep
  under the mutex, but \<^verbatim>\<open>Release\<close> and \<^verbatim>\<open>AcquireNonBlock\<close> touch the counter without it.
  \<^verbatim>\<open>cond.Wait\<close> first enters the wait list and then gives up the mutex.
\<close>

datatype pc =
    Idle
  | Locked int      \<comment> \<open>\<^verbatim>\<open>Acquire\<close> holds the mutex and is about to test the counter\<close>
  | SeenFull int    \<comment> \<open>\<^verbatim>\<open>Acquire\<close> has found the counter at the limit and is about to \<^verbatim>\<open>Wait\<close>\<close>
  | Waiting int     \<comment> \<open>asleep in the wait list\<close>
  | Woken int       \<comment> \<open>signalled, waiting for the mutex\<close>
  | NbPassed int    \<comment> \<open>\<^verbatim>\<open>AcquireNonBlock\<close> has passed its test\<close>
  | Holding int     \<comment> \<open>has acquired and will release\<close>
  | Releasing       \<comment> \<open>\<^verbatim>\<open>Release\<close> has lowered the counter and is about to \<^verbatim>\<open>Signal\<close>\<close>

record sys =
  fc :: FlowController
  mutex :: bool
  thr :: "nat \<Rightarrow> pc"

inductive flow_step :: "sys \<Rightarrow> sys \<Rightarrow> bool" where
  lock: "thr s t = Idle \<Longrightarrow> \<not> mutex s \<Longrightarrow> 0 \<le> n \<Longrightarrow>
    flow_step s (s\<lparr>mutex := True, thr := (thr s)(t := Locked n)\<rparr>)"
| pass: "thr s t = Locked n \<Longrightarrow> \<not> fc_full (fc s) \<Longrightarrow>
    flow_step s (s\<lparr>fc := fc_add n (fc s), mutex := False, thr := (thr s)(t := Holding n)\<rparr>)"
| full: "thr s t = Locked n \<Longrightarrow> fc_full (fc s) \<Longrightarrow>
    flow_step s (s\<lparr>thr := (thr s)(t := SeenFull n)\<rparr>)"
| wait: "thr s t = SeenFull n \<Longrightarrow>
    flow_step s (s\<lparr>mutex := False, thr := (thr s)(t := Waiting n)\<rparr>)"
| relock: "thr s t = Woken n \<Longrightarrow> \<not> mutex s \<Longrightarrow>
    flow_step s (s\<lparr>mutex := True, thr := (thr s)(t := Locked n)\<rparr>)"
| nb_pass: "thr s t = Idle \<Longrightarrow> 0 \<le> n \<Longrightarrow> nb_fits n (fc s) \<Longrightarrow>
    flow_step s (s\<lparr>thr := (thr s)(t := NbPassed n)\<rparr>)"
| nb_add: "thr s t = NbPassed n \<Longrightarrow>
    flow_step s (s\<lparr>fc := fc_add n (fc s), thr := (thr s)(t := Holding n)\<rparr>)"
| release: "thr s t = Holding n \<Longrightarrow>
    flow_step s (s\<lparr>fc := Release n (fc s), thr := (thr s)(t := Releasing)\<rparr>)"
| signal: "thr s t = Releasing \<Longrightarrow> thr s u = Waiting n \<Longrightarrow>
    flow_step s (s\<lparr>thr := (thr s)(t := Idle, u := Woken n)\<rparr>)"
| signal_none: "thr s t = Releasing \<Longrightarrow> \<forall>u n. thr s u \<noteq> Waiting n \<Longrightarrow>
    flow_step s (s\<lparr>thr := (thr s)(t := Idle)\<rparr>)"

inductive_cases flow_stepE: "flow_step s s'"

definition flow_start :: "int \<Rightarrow> int \<Rightarrow> sys" where
  "flow_start maxItems maxBytes =
     \<lparr>fc = NewFlowController maxItems maxBytes, mutex = False, thr = (\<lambda>_. Idle)\<rparr>"

subsection \<open>The accounting invariant\<close>

text \<open>
  The counter is the sum of what the goroutines hold, only finitely many are active, and the mutex
  is held exactly when one goroutine is between \<^verbatim>\<open>Lock\<close> and \<^verbatim>\<open>Unlock\<close>, by one only.
\<close>

definition held :: "pc \<Rightarrow> int" where
  "held p = (case p of Holding n \<Rightarrow> n | _ \<Rightarrow> 0)"

definition active :: "(nat \<Rightarrow> pc) \<Rightarrow> nat set" where
  "active f = {t. f t \<noteq> Idle}"

definition held_sum :: "(nat \<Rightarrow> pc) \<Rightarrow> int" where
  "held_sum f = (\<Sum>t \<in> active f. held (f t))"

definition in_crit :: "pc \<Rightarrow> bool" where
  "in_crit p = (case p of Locked _ \<Rightarrow> True | SeenFull _ \<Rightarrow> True | _ \<Rightarrow> False)"

definition crit :: "(nat \<Rightarrow> pc) \<Rightarrow> nat set" where
  "crit f = {t. in_crit (f t)}"

definition flow_inv :: "sys \<Rightarrow> bool" where
  "flow_inv s \<longleftrightarrow> finite (active (thr s)) \<and>
     fc_current (fc s) = word_of_int (held_sum (thr s)) \<and>
     (if mutex s then \<exists>t. crit (thr s) = {t} else crit (thr s) = {})"

lemma total_upd:
  assumes "finite (active f)"
  shows "held_sum (f(t := p)) = held_sum f - held (f t) + held p" and "finite (active (f(t := p)))"
proof -
  let ?A = "insert t (active f)"
  show fin: "finite (active (f(t := p)))"
    by (rule finite_subset [of _ ?A]) (use assms in \<open>auto simp: active_def\<close>)
  have *: "held_sum g = (\<Sum>i \<in> ?A. held (g i))" if "active g \<subseteq> ?A" for g
    unfolding held_sum_def
    by (rule sum.mono_neutral_left) (use assms that in \<open>auto simp: active_def held_def\<close>)
  have "held_sum f = (\<Sum>i \<in> ?A. held (f i))" by (rule *) auto
  moreover have "held_sum (f(t := p)) = (\<Sum>i \<in> ?A. held ((f(t := p)) i))"
    by (rule *) (auto simp: active_def)
  moreover have "(\<Sum>i \<in> ?A. held ((f(t := p)) i)) = held p + (\<Sum>i \<in> active f - {t}. held (f i))"
    using assms by (subst sum.insert_remove) (auto intro!: sum.cong)
  moreover have "(\<Sum>i \<in> ?A. held (f i)) = held (f t) + (\<Sum>i \<in> active f - {t}. held (f i))"
    using assms by (rule sum.insert_remove)
  ultimately show "held_sum (f(t := p)) = held_sum f - held (f t) + held p" by simp
qed

lemma held_simps [simp]:
  "held Idle = 0" "held (Locked n) = 0" "held (SeenFull n) = 0" "held (Waiting n) = 0"
  "held (Woken n) = 0" "held (NbPassed n) = 0" "held (Holding n) = n" "held Releasing = 0"
  by (simp_all add: held_def)

lemma in_crit_simps [simp]:
  "\<not> in_crit Idle" "in_crit (Locked n)" "in_crit (SeenFull n)" "\<not> in_crit (Waiting n)"
  "\<not> in_crit (Woken n)" "\<not> in_crit (NbPassed n)" "\<not> in_crit (Holding n)" "\<not> in_crit Releasing"
  by (simp_all add: in_crit_def)

lemma crit_upd: "crit (f(t := p)) = (if in_crit p then insert t (crit f) else crit f - {t})"
  by (auto simp: crit_def)

lemma crit_memI: "f t = p \<Longrightarrow> in_crit p \<Longrightarrow> t \<in> crit f" "f t = p \<Longrightarrow> \<not> in_crit p \<Longrightarrow> t \<notin> crit f"
  by (auto simp: crit_def)

lemma flow_inv_start: "flow_inv (flow_start i b)"
  by (simp add: flow_inv_def flow_start_def active_def held_sum_def crit_def NewFlowController_def)

lemma flow_invD:
  assumes "flow_inv s"
  shows "finite (active (thr s))" "fc_current (fc s) = word_of_int (held_sum (thr s))"
    "\<And>t p. thr s t = p \<Longrightarrow> in_crit p \<Longrightarrow> mutex s \<and> crit (thr s) = {t}"
    "\<And>t p. thr s t = p \<Longrightarrow> \<not> in_crit p \<Longrightarrow> crit (thr s) - {t} = crit (thr s)"
    "\<not> mutex s \<Longrightarrow> crit (thr s) = {}"
    "if mutex s then \<exists>t. crit (thr s) = {t} else crit (thr s) = {}"
proof -
  show "mutex s \<and> crit (thr s) = {t}" if "thr s t = p" "in_crit p" for t p
  proof -
    have "t \<in> crit (thr s)" using that by (rule crit_memI(1))
    then show ?thesis using assms by (cases "mutex s") (auto simp: flow_inv_def)
  qed
  show "crit (thr s) - {t} = crit (thr s)" if "thr s t = p" "\<not> in_crit p" for t p
    using that by (auto simp: crit_def)
qed (use assms in \<open>auto simp: flow_inv_def split: if_splits\<close>)

text \<open>One goroutine moves on.\<close>

lemma flow_inv_upd:
  assumes "flow_inv s" and "thr s' = (thr s)(t := p)"
    and "fc_current (fc s') = fc_current (fc s) + word_of_int (held p - held (thr s t))"
    and "mutex s' \<longleftrightarrow> in_crit p \<or> mutex s \<and> \<not> in_crit (thr s t)"
    and "in_crit p \<Longrightarrow> mutex s \<Longrightarrow> in_crit (thr s t)"
  shows "flow_inv s'"
proof -
  note f = flow_invD [OF assms(1)]
  have "fc_current (fc s') = word_of_int (held_sum (thr s'))"
    using assms(2,3) f(2) total_upd(1) [OF f(1), of t p] by simp
  moreover have "finite (active (thr s'))" using total_upd(2) [OF f(1), of t p] assms(2) by simp
  moreover have "if mutex s' then \<exists>t. crit (thr s') = {t} else crit (thr s') = {}"
  proof (cases "in_crit (thr s t)")
    case True
    with f(3) [OF refl True] assms(2,4) show ?thesis by (simp add: crit_upd)
  next
    case False
    with f(4) [OF refl False] f(5,6) assms(2,4,5) show ?thesis by (cases "mutex s") (auto simp: crit_upd)
  qed
  ultimately show ?thesis by (simp add: flow_inv_def)
qed

lemma flow_inv_step:
  assumes "flow_step s s'" and i: "flow_inv s"
  shows "flow_inv s'"
  using assms(1)
proof cases
  case (signal t u n)
  have "flow_inv (s\<lparr>thr := (thr s)(t := Idle)\<rparr>)"
    by (rule flow_inv_upd [OF i, of _ t Idle]) (simp_all add: signal)
  then show ?thesis
    by (rule flow_inv_upd [where t = u and p = "Woken n"]) (use signal in auto)
next
  case (lock t n)
  then show ?thesis by (intro flow_inv_upd [OF i, of _ t "Locked n"]) simp_all
next
  case (pass t n)
  then show ?thesis by (intro flow_inv_upd [OF i, of _ t "Holding n"]) (simp_all add: fc_add_def)
next
  case (full t n)
  then show ?thesis using flow_invD(3) [OF i full(2)] by (intro flow_inv_upd [OF i, of _ t "SeenFull n"]) simp_all
next
  case (wait t n)
  then show ?thesis by (intro flow_inv_upd [OF i, of _ t "Waiting n"]) simp_all
next
  case (relock t n)
  then show ?thesis by (intro flow_inv_upd [OF i, of _ t "Locked n"]) simp_all
next
  case (nb_pass t n)
  then show ?thesis by (intro flow_inv_upd [OF i, of _ t "NbPassed n"]) simp_all
next
  case (nb_add t n)
  then show ?thesis by (intro flow_inv_upd [OF i, of _ t "Holding n"]) (simp_all add: fc_add_def)
next
  case (release t n)
  then show ?thesis by (intro flow_inv_upd [OF i, of _ t Releasing]) (simp_all add: Release_def fc_add_def)
next
  case (signal_none t)
  then show ?thesis by (intro flow_inv_upd [OF i, of _ t Idle]) simp_all
qed

interpretation flow_sys: step_invariant flow_step "\<lambda>s. \<exists>i b. s = flow_start i b" flow_inv
  by unfold_locales (auto intro: flow_inv_start flow_inv_step)

text \<open>C11: the accounting of the flow controller, in every interleaving of \<^verbatim>\<open>Acquire\<close>,
  \<^verbatim>\<open>AcquireNonBlock\<close> and \<^verbatim>\<open>Release\<close>: what \<^verbatim>\<open>Used\<close> reports is the sum of what the goroutines
  hold, at most one goroutine is inside the mutex, and the mutex is free when none is.\<close>

theorem FlowController_accounting:
  assumes "reaches flow_step (flow_start maxItems maxBytes) s"
  shows "Used (fc s) = word_of_int (\<Sum>t | thr s t \<noteq> Idle. held (thr s t)) \<and> finite {t. thr s t \<noteq> Idle} \<and>
    (\<forall>t u. in_crit (thr s t) \<longrightarrow> in_crit (thr s u) \<longrightarrow> t = u) \<and>
    (mutex s \<longleftrightarrow> (\<exists>t. in_crit (thr s t)))"
proof -
  have "flow_inv s" using flow_sys.inv_reaches [OF assms] by blast
  note f = flow_invD [OF this]
  have "t = u" if "in_crit (thr s t)" "in_crit (thr s u)" for t u
    using f(3) [OF refl that(1)] f(3) [OF refl that(2)] by simp
  moreover have "mutex s \<longleftrightarrow> crit (thr s) \<noteq> {}" using f(5,6) by auto
  then have "mutex s \<longleftrightarrow> (\<exists>t. in_crit (thr s t))" by (auto simp: crit_def)
  ultimately show ?thesis using f(1,2) by (auto simp: Used_def held_sum_def active_def)
qed

text \<open>A concrete run: goroutine 1 takes the whole budget of ten bytes.\<close>

definition one_holds :: sys where
  "one_holds = (flow_start 1 10)\<lparr>fc := fc_add 10 (NewFlowController 1 10), thr := (\<lambda>_. Idle)(1 := Holding 10)\<rparr>"

lemma one_holds_reach: "reaches flow_step (flow_start 1 10) one_holds"
proof -
  let ?a = "(flow_start 1 10)\<lparr>mutex := True, thr := (thr (flow_start 1 10))(1 := Locked 10)\<rparr>"
  have "flow_step (flow_start 1 10) ?a" by (rule flow_step.lock) (simp_all add: flow_start_def)
  moreover have "flow_step ?a one_holds"
    using flow_step.pass [of ?a 1 10]
    by (simp add: flow_start_def fc_full_def NewFlowController_def one_holds_def)
  ultimately show ?thesis by (blast intro: reaches.intros)
qed

theorem FlowController_accounting_witness:
  "Used (fc one_holds) = word_of_int (\<Sum>t | thr one_holds t \<noteq> Idle. held (thr one_holds t))"
  using FlowController_accounting [OF one_holds_reach] by simp

text \<open>A wake-up can be lost. \<^verbatim>\<open>Release\<close> signals without holding the mutex, so it can run between the
  test of a waiting \<^verbatim>\<open>Acquire\<close> and its entry into the wait list: the goroutine then sleeps although
  the whole budget is free and nobody is left to wake it, and no single step of anybody changes that.\<close>

theorem FlowController_lost_wakeup:
  "\<exists>s. reaches flow_step (flow_start 1 10) s \<and> Used (fc s) = 0 \<and> \<not> fc_full (fc s) \<and> \<not> mutex s \<and>
     thr s 0 = Waiting 10 \<and> (\<forall>t. t \<noteq> 0 \<longrightarrow> thr s t = Idle) \<and>
     (\<forall>s'. flow_step s s' \<longrightarrow> thr s' 0 = Waiting 10)"
proof -
  let ?f = "fc_add 10 (NewFlowController 1 10)" and ?g = "Release 10 (fc_add 10 (NewFlowController 1 10))"
  let ?st = "\<lambda>c m p q. \<lparr>fc = c, mutex = m, thr = (\<lambda>_. Idle)(1 := p, 0 := q)\<rparr>"
  have full: "fc_full ?f" by (simp add: fc_full_def fc_add_def NewFlowController_def)
  have s0: "reaches flow_step (flow_start 1 10) (?st ?f False (Holding 10) Idle)"
    using one_holds_reach by (simp add: one_holds_def flow_start_def fun_upd_idem)
  have s1: "flow_step (?st ?f False (Holding 10) Idle) (?st ?f True (Holding 10) (Locked 10))"
    using flow_step.lock [of "?st ?f False (Holding 10) Idle" 0 10] by simp
  have s2: "flow_step (?st ?f True (Holding 10) (Locked 10)) (?st ?f True (Holding 10) (SeenFull 10))"
    using flow_step.full [of "?st ?f True (Holding 10) (Locked 10)" 0 10] full by simp
  have s3: "flow_step (?st ?f True (Holding 10) (SeenFull 10)) (?st ?g True Releasing (SeenFull 10))"
    using flow_step.release [of "?st ?f True (Holding 10) (SeenFull 10)" 1 10] by (simp add: fun_upd_twist)
  have s4: "flow_step (?st ?g True Releasing (SeenFull 10)) (?st ?g True Idle (SeenFull 10))"
    using flow_step.signal_none [of "?st ?g True Releasing (SeenFull 10)" 1] by (simp add: fun_upd_twist)
  have s5: "flow_step (?st ?g True Idle (SeenFull 10)) (?st ?g False Idle (Waiting 10))"
    using flow_step.wait [of "?st ?g True Idle (SeenFull 10)" 0 10] by simp
  note r = reaches_step [OF reaches_step [OF reaches_step [OF reaches_step [OF reaches_step [OF s0 s1] s2] s3] s4] s5]
  have "thr s' 0 = Waiting 10" if "flow_step (?st ?g False Idle (Waiting 10)) s'" for s'
    using that by cases (auto split: if_splits)
  with r show ?thesis
    by (intro exI [of _ "?st ?g False Idle (Waiting 10)"])
      (auto simp: Used_def fc_full_def Release_def fc_add_def NewFlowController_def)
qed

theorem FlowController_lost_wakeup_witness:
  "\<exists>s. reaches flow_step (flow_start 1 10) s \<and> Used (fc s) = 0 \<and> thr s 0 = Waiting 10"
  using FlowController_lost_wakeup by blast

text \<open>Two concurrent \<^verbatim>\<open>AcquireNonBlock\<close> calls can both pass the test and exceed the limit, which a
  single one never does.\<close>

theorem FlowController_nonblock_race:
  "(\<exists>s. reaches flow_step (flow_start 1 10) s \<and> sint (Used (fc s)) > sint (fc_maxBytes (fc s))) \<and>
   (\<forall>c c' n. AcquireNonBlock n c = (Inr (), c') \<longrightarrow> sint (Used c') \<le> sint (fc_maxBytes c'))"
proof
  let ?c = "NewFlowController 1 10"
  let ?st = "\<lambda>c p q. \<lparr>fc = c, mutex = False, thr = (\<lambda>_. Idle)(1 := p, 0 := q)\<rparr>"
  have fits: "nb_fits 10 ?c" by (simp add: nb_fits_def NewFlowController_def)
  have "flow_start 1 10 = ?st ?c Idle Idle" by (simp add: flow_start_def fun_upd_idem)
  then have s0: "reaches flow_step (flow_start 1 10) (?st ?c Idle Idle)" by (simp add: reaches_refl)
  have s1: "flow_step (?st ?c Idle Idle) (?st ?c Idle (NbPassed 10))"
    using flow_step.nb_pass [of "?st ?c Idle Idle" 0 10] fits by simp
  have s2: "flow_step (?st ?c Idle (NbPassed 10)) (?st ?c (NbPassed 10) (NbPassed 10))"
    using flow_step.nb_pass [of "?st ?c Idle (NbPassed 10)" 1 10] fits by (simp add: fun_upd_twist)
  have s3: "flow_step (?st ?c (NbPassed 10) (NbPassed 10)) (?st (fc_add 10 ?c) (NbPassed 10) (Holding 10))"
    using flow_step.nb_add [of "?st ?c (NbPassed 10) (NbPassed 10)" 0 10] by simp
  have s4: "flow_step (?st (fc_add 10 ?c) (NbPassed 10) (Holding 10))
      (?st (fc_add 10 (fc_add 10 ?c)) (Holding 10) (Holding 10))"
    using flow_step.nb_add [of "?st (fc_add 10 ?c) (NbPassed 10) (Holding 10)" 1 10] by (simp add: fun_upd_twist)
  note r = reaches_step [OF reaches_step [OF reaches_step [OF reaches_step [OF s0 s1] s2] s3] s4]
  from r show "\<exists>s. reaches flow_step (flow_start 1 10) s \<and> sint (Used (fc s)) > sint (fc_maxBytes (fc s))"
    by (rule exI [of _ "?st (fc_add 10 (fc_add 10 ?c)) (Holding 10) (Holding 10)", OF conjI])
      (simp add: Used_def fc_add_def NewFlowController_def)
next
  show "\<forall>c c' n. AcquireNonBlock n c = (Inr (), c') \<longrightarrow> sint (Used c') \<le> sint (fc_maxBytes c')"
    by (auto simp: AcquireNonBlock_def nb_fits_def fc_add_def Used_def split: if_splits)
qed

theorem FlowController_nonblock_race_witness:
  "sint (Used (snd (AcquireNonBlock 7 (NewFlowController 1 10)))) \<le> 10"
proof -
  have "AcquireNonBlock 7 (NewFlowController 1 10) = (Inr (), fc_add 7 (NewFlowController 1 10))"
    by (simp add: AcquireNonBlock_def nb_fits_def NewFlowController_def)
  with FlowController_nonblock_race [THEN conjunct2, rule_format, of 7 "NewFlowController 1 10"]
  show ?thesis by (simp add: fc_add_def NewFlowController_def)
qed

section \<open>Queues under load\<close>

record 'a DroppableQueue =
  dq_items :: "'a list"
  dq_maxSize :: int
  dq_dropped :: i64

definition NewDroppableQueue :: "int \<Rightarrow> 'a DroppableQueue res" where
  "NewDroppableQueue maxSize =
     (if maxSize < 0 then Inl Panic else Inr \<lparr>dq_items = [], dq_maxSize = maxSize, dq_dropped = 0\<rparr>)"

text \<open>\<^verbatim>\<open>dq.items[1:]\<close> panics on an empty slice.\<close>

definition DroppableQueue_Push :: "'a \<Rightarrow> 'a DroppableQueue \<Rightarrow> unit res \<times> 'a DroppableQueue" where
  "DroppableQueue_Push item dq =
     (if int (length (dq_items dq)) \<ge> dq_maxSize dq then
        (if dq_items dq = [] then (Inl Panic, dq)
         else (Inr (), dq\<lparr>dq_items := tl (dq_items dq) @ [item], dq_dropped := dq_dropped dq + 1\<rparr>))
      else (Inr (), dq\<lparr>dq_items := dq_items dq @ [item]\<rparr>))"

definition DroppableQueue_Pop :: "'a DroppableQueue \<Rightarrow> 'a option \<times> 'a DroppableQueue" where
  "DroppableQueue_Pop dq =
     (case dq_items dq of [] \<Rightarrow> (None, dq) | x # xs \<Rightarrow> (Some x, dq\<lparr>dq_items := xs\<rparr>))"

definition DroppableQueue_Len :: "'a DroppableQueue \<Rightarrow> nat" where
  "DroppableQueue_Len dq = length (dq_items dq)"

definition Dropped :: "'a DroppableQueue \<Rightarrow> i64" where
  "Dropped dq = dq_dropped dq"

interpretation dq: pop_queue DroppableQueue_Pop dq_items
  by unfold_locales (simp_all add: DroppableQueue_Pop_def)

record 'a BoundedQueue =
  bq_ch :: "'a list"
  bq_cap :: nat
  bq_closed :: bool

definition NewBoundedQueue :: "int \<Rightarrow> 'a BoundedQueue res" where
  "NewBoundedQueue capacity =
     (if capacity < 0 then Inl Panic else Inr \<lparr>bq_ch = [], bq_cap = nat capacity, bq_closed = False\<rparr>)"

text \<open>
  Channel operations: a send on a closed channel panics, a receive from a closed and empty one
  returns the zero value. \<open>None\<close> means that the call blocks. A capacity of zero needs a waiting
  receiver for every send and is outside this sequential model: such a send blocks.
\<close>

definition BoundedQueue_Push :: "'a \<Rightarrow> 'a BoundedQueue \<Rightarrow> (unit res \<times> 'a BoundedQueue) option" where
  "BoundedQueue_Push item bq =
     (if bq_closed bq then Some (Inl Panic, bq)
      else if length (bq_ch bq) < bq_cap bq then Some (Inr (), bq\<lparr>bq_ch := bq_ch bq @ [item]\<rparr>)
      else None)"

definition BoundedQueue_TryPush :: "'a \<Rightarrow> 'a BoundedQueue \<Rightarrow> bool res \<times> 'a BoundedQueue" where
  "BoundedQueue_TryPush item bq =
     (if bq_closed bq then (Inl Panic, bq)
      else if length (bq_ch bq) < bq_cap bq then (Inr True, bq\<lparr>bq_ch := bq_ch bq @ [item]\<rparr>)
      else (Inr False, bq))"

definition BoundedQueue_Pop :: "'a BoundedQueue \<Rightarrow> ('a option \<times> 'a BoundedQueue) option" where
  "BoundedQueue_Pop bq =
     (case bq_ch bq of
        x # xs \<Rightarrow> Some (Some x, bq\<lparr>bq_ch := xs\<rparr>)
      | [] \<Rightarrow> if bq_closed bq then Some (None, bq) else None)"

definition BoundedQueue_TryPop :: "'a BoundedQueue \<Rightarrow> ('a option \<times> bool) \<times> 'a BoundedQueue" where
  "BoundedQueue_TryPop bq =
     (case bq_ch bq of
        x # xs \<Rightarrow> ((Some x, True), bq\<lparr>bq_ch := xs\<rparr>)
      | [] \<Rightarrow> if bq_closed bq then ((None, True), bq) else ((None, False), bq))"

definition BoundedQueue_Close :: "'a BoundedQueue \<Rightarrow> unit res \<times> 'a BoundedQueue" where
  "BoundedQueue_Close bq = (if bq_closed bq then (Inl Panic, bq) else (Inr (), bq\<lparr>bq_closed := True\<rparr>))"

definition bq_pop :: "'a BoundedQueue \<Rightarrow> 'a option \<times> 'a BoundedQueue" where
  "bq_pop bq = (case BoundedQueue_TryPop bq of ((x, _), q) \<Rightarrow> (x, q))"

interpretation bq: pop_queue bq_pop bq_ch
  by unfold_locales (simp_all add: bq_pop_def BoundedQueue_TryPop_def)

fun dq_push_all :: "'a list \<Rightarrow> 'a DroppableQueue \<Rightarrow> unit res \<times> 'a DroppableQueue" where
  "dq_push_all [] dq = (Inr (), dq)"
| "dq_push_all (x # xs) dq =
     (case DroppableQueue_Push x dq of (Inl e, q) \<Rightarrow> (Inl e, q) | (Inr _, q) \<Rightarrow> dq_push_all xs q)"

text \<open>The last \<open>n\<close> elements of a list.\<close>

definition last_n :: "nat \<Rightarrow> 'a list \<Rightarrow> 'a list" where
  "last_n n xs = drop (length xs - n) xs"

lemma dq_push_all_last:
  assumes "0 < dq_maxSize dq" and "int (length (dq_items dq)) \<le> dq_maxSize dq"
  shows "fst (dq_push_all xs dq) = Inr () \<and>
    dq_items (snd (dq_push_all xs dq)) = last_n (nat (dq_maxSize dq)) (dq_items dq @ xs) \<and>
    dq_dropped (snd (dq_push_all xs dq)) =
      dq_dropped dq + word_of_nat (length (dq_items dq @ xs) - nat (dq_maxSize dq)) \<and>
    dq_maxSize (snd (dq_push_all xs dq)) = dq_maxSize dq"
  using assms
proof (induction xs arbitrary: dq)
  case Nil
  then show ?case by (simp add: last_n_def)
next
  case (Cons x xs)
  show ?case
  proof (cases "int (length (dq_items dq)) \<ge> dq_maxSize dq")
    case True
    then obtain y ys where i: "dq_items dq = y # ys" using Cons.prems by (cases "dq_items dq") auto
    let ?q = "dq\<lparr>dq_items := ys @ [x], dq_dropped := dq_dropped dq + 1\<rparr>"
    have p: "DroppableQueue_Push x dq = (Inr (), ?q)" using True i by (simp add: DroppableQueue_Push_def)
    have m: "nat (dq_maxSize dq) = Suc (length ys)" using True Cons.prems i by simp
    have "length (dq_items ?q @ xs) - Suc (length ys) = length xs" by simp
    with Cons.IH [of ?q] Cons.prems True p i m show ?thesis
      by (simp add: last_n_def)
  next
    case False
    then have p: "DroppableQueue_Push x dq = (Inr (), dq\<lparr>dq_items := dq_items dq @ [x]\<rparr>)"
      by (simp add: DroppableQueue_Push_def)
    from False Cons.IH [of "dq\<lparr>dq_items := dq_items dq @ [x]\<rparr>"] Cons.prems p show ?thesis by simp
  qed
qed

text \<open>C32: a droppable queue of positive size keeps exactly the most recent items: after any pushes onto
  a new queue, draining it delivers the last \<^verbatim>\<open>maxSize\<close> of them in order, its length never exceeds
  the limit, and \<^verbatim>\<open>Dropped\<close> counts the rest. A queue of size zero panics on the first push.\<close>

theorem DroppableQueue_keeps_latest:
  assumes "NewDroppableQueue n = Inr dq" and "nat n \<le> k"
  shows "if 0 < n
    then fst (dq_push_all xs dq) = Inr () \<and>
      fst (drain DroppableQueue_Pop k (snd (dq_push_all xs dq))) = last_n (nat n) xs \<and>
      DroppableQueue_Len (snd (dq_push_all xs dq)) = min (nat n) (length xs) \<and>
      Dropped (snd (dq_push_all xs dq)) = word_of_nat (length xs - nat n)
    else \<forall>x. fst (DroppableQueue_Push x dq) = Inl Panic"
proof -
  have d: "0 \<le> n" "dq = \<lparr>dq_items = [], dq_maxSize = n, dq_dropped = 0\<rparr>"
    using assms(1) by (auto simp: NewDroppableQueue_def split: if_splits)
  show ?thesis
  proof (cases "0 < n")
    case True
    note p = dq_push_all_last [of dq xs]
    have "length (last_n (nat n) xs) = min (nat n) (length xs)" by (simp add: last_n_def)
    moreover from this have "fst (drain DroppableQueue_Pop k (snd (dq_push_all xs dq))) = last_n (nat n) xs"
      using p d True assms(2) by (subst dq.drain_all) auto
    ultimately show ?thesis
      using p d True by (simp add: DroppableQueue_Len_def Dropped_def)
  next
    case False
    then show ?thesis using d by (simp add: DroppableQueue_Push_def)
  qed
qed

theorem DroppableQueue_keeps_latest_witness:
  "\<exists>dq. NewDroppableQueue 2 = Inr dq \<and>
    fst (drain DroppableQueue_Pop 2 (snd (dq_push_all [1, 2, 3 :: nat] dq))) = [2, 3]"
proof -
  obtain dq :: "nat DroppableQueue" where d: "NewDroppableQueue 2 = Inr dq" by (simp add: NewDroppableQueue_def)
  from DroppableQueue_keeps_latest [OF d, of 2 "[1, 2, 3]"] d show ?thesis by (simp add: last_n_def)
qed

text \<open>A bounded queue never holds more than its capacity, delivers in order, and blocks or refuses
  beyond it; once closed it panics on every push, and an empty closed queue answers \<^verbatim>\<open>TryPop\<close>
  with a nil item that it reports as a success.\<close>

theorem BoundedQueue_spec:
  "(bq_closed bq \<longrightarrow>
      fst (BoundedQueue_TryPush x bq) = Inl Panic \<and>
      (bq_ch bq = [] \<longrightarrow> BoundedQueue_TryPop bq = ((None, True), bq))) \<and>
   (\<not> bq_closed bq \<longrightarrow>
      (if length (bq_ch bq) < bq_cap bq
       then BoundedQueue_Push x bq = Some (Inr (), snd (BoundedQueue_TryPush x bq)) \<and>
            fst (BoundedQueue_TryPush x bq) = Inr True \<and>
            fst (drain bq_pop (Suc (length (bq_ch bq))) (snd (BoundedQueue_TryPush x bq))) = bq_ch bq @ [x] \<and>
            length (bq_ch (snd (BoundedQueue_TryPush x bq))) \<le> bq_cap bq
       else BoundedQueue_Push x bq = None \<and> BoundedQueue_TryPush x bq = (Inr False, bq)))"
  by (auto simp: BoundedQueue_TryPush_def BoundedQueue_TryPop_def BoundedQueue_Push_def
      bq.drain_content simp del: drain.simps)

theorem BoundedQueue_spec_witness:
  "BoundedQueue_TryPop \<lparr>bq_ch = [] :: nat list, bq_cap = 1, bq_closed = True\<rparr> =
     ((None, True), \<lparr>bq_ch = [], bq_cap = 1, bq_closed = True\<rparr>)"
  using BoundedQueue_spec [of "\<lparr>bq_ch = [] :: nat list, bq_cap = 1, bq_closed = True\<rparr>" 0] by simp

end
