(* ===== verification/Cfb8.thy ===== *)
theory Cfb8
  imports Go_Prelude
begin

unbundle bit_operations_syntax

text \<open>
  \<^verbatim>\<open>crypto/cfb8.go\<close>: the stream cipher of an encrypted connection.

  \<^verbatim>\<open>XORKeyStream(dst, src)\<close> may be called with overlapping slices, and what it computes depends on
  that, so source and destination are two windows of one explicit memory. \<open>cfb_bytes\<close> is the
  specification without memory; the two code paths (whole blocks, byte by byte) are proved to compute
  it whenever the windows do not overlap, or coincide and the stream encrypts. The block cipher is
  a parameter; \<open>block_ok\<close> says that it maps blocks to blocks.
\<close>

section \<open>Model\<close>

text \<open>A \<^verbatim>\<open>cipher.Block\<close>: its block size and its \<^verbatim>\<open>Encrypt\<close> on one block.\<close>

record block =
  blk_BlockSize :: nat
  blk_Encrypt :: "byte list \<Rightarrow> byte list"

definition block_ok :: "block \<Rightarrow> bool" where
  "block_ok blk \<longleftrightarrow> 0 < blk_BlockSize blk \<and> (\<forall>x. length (blk_Encrypt blk x) = blk_BlockSize blk)"

record CFB8 =
  cf_block :: block
  cf_iv :: "byte list"
  cf_tmp :: "byte list"
  cf_de :: bool

definition NewCFB8Encrypt :: "block \<Rightarrow> byte list \<Rightarrow> CFB8" where
  "NewCFB8Encrypt blk iv =
     \<lparr>cf_block = blk, cf_iv = iv, cf_tmp = replicate (blk_BlockSize blk) 0, cf_de = False\<rparr>"

definition NewCFB8Decrypt :: "block \<Rightarrow> byte list \<Rightarrow> CFB8" where
  "NewCFB8Decrypt blk iv =
     \<lparr>cf_block = blk, cf_iv = iv, cf_tmp = replicate (blk_BlockSize blk) 0, cf_de = True\<rparr>"

text \<open>
  \<^verbatim>\<open>dst[i] = src[i] ^ tmp[j]\<close>. The two slices are windows of one memory, at offsets \<open>d\<close> and \<open>s\<close>:
  they may be apart, overlap or coincide, and a store through one is seen through the other.
\<close>

definition xor_at :: "nat \<Rightarrow> nat \<Rightarrow> nat \<Rightarrow> byte \<Rightarrow> byte list \<Rightarrow> byte list" where
  "xor_at d s i k mem = mem[d + i := mem ! (s + i) XOR k]"

definition window :: "byte list \<Rightarrow> nat \<Rightarrow> nat \<Rightarrow> byte list" where
  "window mem off n = take n (drop off mem)"

text \<open>One round of the block loop of \<^verbatim>\<open>bulkXOR\<close>, and the loop over the remainder.\<close>

definition bulk_block :: "nat \<Rightarrow> nat \<Rightarrow> nat \<Rightarrow> CFB8 \<times> byte list \<Rightarrow> CFB8 \<times> byte list" where
  "bulk_block d s start = (\<lambda>(c, mem).
     let bs = blk_BlockSize (cf_block c);
         tmp = blk_Encrypt (cf_block c) (take bs (cf_iv c));
         mem = fold (\<lambda>j. xor_at d s (start + j) (tmp ! j)) [0..<bs] mem;
         iv = copy_at (cf_iv c) 0 (window mem (if cf_de c then s + start else d + start) bs)
     in (c\<lparr>cf_tmp := tmp, cf_iv := iv\<rparr>, mem))"

definition bulk_rest :: "nat \<Rightarrow> nat \<Rightarrow> nat \<Rightarrow> nat \<Rightarrow> CFB8 \<times> byte list \<Rightarrow> CFB8 \<times> byte list" where
  "bulk_rest d s start remainder = (\<lambda>(c, mem).
     let tmp = blk_Encrypt (cf_block c) (take (blk_BlockSize (cf_block c)) (cf_iv c));
         (iv, mem) = fold (\<lambda>j (iv, mem).
           let mem = xor_at d s (start + j) (tmp ! j) mem
           in (iv[j := mem ! (if cf_de c then s + start + j else d + start + j)], mem))
           [0..<remainder] (cf_iv c, mem)
     in (c\<lparr>cf_tmp := tmp, cf_iv := iv\<rparr>, mem))"

definition bulkXOR :: "nat \<Rightarrow> nat \<Rightarrow> nat \<Rightarrow> nat \<Rightarrow> CFB8 \<times> byte list \<Rightarrow> CFB8 \<times> byte list" where
  "bulkXOR d s n blockSize x =
     (let blocks = n div blockSize; remainder = n mod blockSize;
          x = fold (\<lambda>i. bulk_block d s (i * blockSize)) [0..<blocks] x
      in if remainder > 0 then bulk_rest d s (blocks * blockSize) remainder x else x)"

text \<open>One iteration of \<^verbatim>\<open>byteByByteXOR\<close>, on the keystream block, the overflow buffer and the memory.\<close>

definition byte_step ::
  "CFB8 \<Rightarrow> nat \<Rightarrow> nat \<Rightarrow> nat \<Rightarrow> nat \<Rightarrow> byte list \<times> byte list \<times> byte list
     \<Rightarrow> byte list \<times> byte list \<times> byte list" where
  "byte_step c d s bs i = (\<lambda>(tmp, ovf, mem).
     let tmp = (if i mod bs = 0 then blk_Encrypt (cf_block c) (take bs ovf) else tmp);
         mem = xor_at d s i (tmp ! (i mod bs)) mem;
         ovf = ovf[i mod bs + bs := mem ! (if cf_de c then s + i else d + i)];
         ovf = (if i mod bs = bs - 1 then copy_at ovf 0 (drop bs ovf) else ovf)
     in (tmp, ovf, mem))"

definition byteByByteXOR :: "nat \<Rightarrow> nat \<Rightarrow> nat \<Rightarrow> nat \<Rightarrow> CFB8 \<times> byte list \<Rightarrow> CFB8 \<times> byte list" where
  "byteByByteXOR d s n blockSize = (\<lambda>(c, mem).
     let ovf = copy_at (replicate (blockSize * 2) 0) 0 (cf_iv c);
         (tmp, ovf, mem) = fold (byte_step c d s blockSize) [0..<n] (cf_tmp c, ovf, mem)
     in (c\<lparr>cf_tmp := tmp, cf_iv := copy_at (cf_iv c) 0 ovf\<rparr>, mem))"

text \<open>
  \<^verbatim>\<open>s.XORKeyStream(dst, src)\<close> with \<^verbatim>\<open>len(dst) = dn\<close> and \<^verbatim>\<open>len(src) = n\<close>. The block cipher panics on
  an IV shorter than a block (the bulk path hands it the IV itself).
\<close>

definition XORKeyStream ::
  "nat \<Rightarrow> nat \<Rightarrow> nat \<Rightarrow> nat \<Rightarrow> CFB8 \<times> byte list \<Rightarrow> (CFB8 \<times> byte list) res" where
  "XORKeyStream d dn s n x =
     (let blockSize = blk_BlockSize (cf_block (fst x)) in
      if n = 0 then Inr x
      else if dn < n then Inl Panic
      else if n \<ge> blockSize * 2 then
        (if length (cf_iv (fst x)) < blockSize then Inl Panic else Inr (bulkXOR d s n blockSize x))
      else Inr (byteByByteXOR d s n blockSize x))"

section \<open>The keystream without memory\<close>

text \<open>
  What both paths compute on a message \<open>p\<close> when the output does not overwrite input that is still
  needed, byte by byte: the IV of the current block, the feedback bytes collected for the next one,
  and the output. \<open>cfb\<close> is a whole call; the bulk path also stores the feedback of an unfinished
  block in the IV, the other path drops it.
\<close>

fun cfb_bytes ::
  "block \<Rightarrow> bool \<Rightarrow> byte list \<Rightarrow> byte list \<Rightarrow> nat \<Rightarrow> byte list \<times> byte list \<times> byte list" where
  "cfb_bytes blk de iv p 0 = (iv, [], [])"
| "cfb_bytes blk de iv p (Suc i) =
     (case cfb_bytes blk de iv p i of (iv, fb, out) \<Rightarrow>
        let c = p ! i XOR blk_Encrypt blk iv ! length fb;
            fb = fb @ [if de then p ! i else c]
        in if length fb = blk_BlockSize blk then (fb, [], out @ [c]) else (iv, fb, out @ [c]))"

definition cfb :: "block \<Rightarrow> bool \<Rightarrow> byte list \<Rightarrow> byte list \<Rightarrow> byte list \<times> byte list" where
  "cfb blk de iv p =
     (case cfb_bytes blk de iv p (length p) of (iv', fb, out) \<Rightarrow>
        (if length p < 2 * blk_BlockSize blk then iv' else fb @ drop (length fb) iv', out))"

text \<open>Decryption undoes encryption and keeps the same internal state.\<close>

lemma cfb_bytes_dec:
  assumes "length c = length p" and "i \<le> length p"
    and "take i c = snd (snd (cfb_bytes blk False iv p i))"
  shows "cfb_bytes blk True iv c i =
    (fst (cfb_bytes blk False iv p i), fst (snd (cfb_bytes blk False iv p i)), take i p)"
  using assms
proof (induction i)
  case 0
  then show ?case by simp
next
  case (Suc i)
  obtain iv' fb out where b: "cfb_bytes blk False iv p i = (iv', fb, out)" by (metis prod.exhaust)
  let ?k = "blk_Encrypt blk iv' ! length fb"
  have "take (Suc i) c = out @ [p ! i XOR ?k]"
    using Suc.prems(3) b by (simp add: Let_def split: if_splits)
  moreover have "take (Suc i) c = take i c @ [c ! i]"
    using Suc.prems by (simp add: take_Suc_conv_app_nth)
  ultimately have c: "take i c = out" "c ! i = p ! i XOR ?k" by auto
  with Suc b have "cfb_bytes blk True iv c i = (iv', fb, take i p)" by simp
  with b c Suc.prems show ?case by (simp add: Let_def take_Suc_conv_app_nth)
qed

lemma cfb_bytes_length: "length (snd (snd (cfb_bytes blk de iv p i))) = i"
  by (induction i) (auto simp: Let_def split: prod.splits)

lemma cfb_bytes_take:
  "i \<le> j \<Longrightarrow> take i (snd (snd (cfb_bytes blk de iv p j))) = snd (snd (cfb_bytes blk de iv p i))"
proof (induction j)
  case 0
  then show ?case by simp
next
  case (Suc j)
  have "\<exists>x. snd (snd (cfb_bytes blk de iv p (Suc j))) = snd (snd (cfb_bytes blk de iv p j)) @ [x]"
    by (auto simp: Let_def split: prod.splits)
  then obtain x where x: "snd (snd (cfb_bytes blk de iv p (Suc j))) = snd (snd (cfb_bytes blk de iv p j)) @ [x]" ..
  show ?case
  proof (cases "i = Suc j")
    case True
    then show ?thesis by (simp only: take_all_iff cfb_bytes_length)
  next
    case False
    with Suc x show ?thesis by (simp add: cfb_bytes_length del: cfb_bytes.simps)
  qed
qed

lemma cfb_roundtrip:
  assumes "cfb blk False iv p = (iv', c)"
  shows "cfb blk True iv c = (iv', p)" and "length c = length p"
proof -
  obtain v fb out where b: "cfb_bytes blk False iv p (length p) = (v, fb, out)" by (metis prod.exhaust)
  with assms have c: "c = out" by (simp add: cfb_def)
  have l: "length out = length p" using cfb_bytes_length [of blk False iv p "length p"] b by simp
  show "length c = length p" using c l by simp
  have "cfb_bytes blk True iv c (length p) = (v, fb, p)"
    using cfb_bytes_dec [of c p "length p" blk iv] b c l by simp
  with assms b c l show "cfb blk True iv c = (iv', p)" by (simp add: cfb_def)
qed

text \<open>Where the three components come from.\<close>

lemma cfb_bytes_shape:
  assumes "0 < blk_BlockSize blk" and "length iv = blk_BlockSize blk" and "i \<le> length p"
    and "cfb_bytes blk de iv p i = (v, fb, out)"
  shows "length fb = i mod blk_BlockSize blk \<and> length v = blk_BlockSize blk \<and>
    fb = drop (i - i mod blk_BlockSize blk) (if de then take i p else out)"
  using assms(3,4)
proof (induction i arbitrary: v fb out)
  case 0
  with assms show ?case by simp
next
  case (Suc i)
  let ?bs = "blk_BlockSize blk"
  obtain v' fb' out' where b: "cfb_bytes blk de iv p i = (v', fb', out')" by (metis prod.exhaust)
  let ?c = "p ! i XOR blk_Encrypt blk v' ! length fb'"
  from Suc.IH [OF _ b] Suc.prems have IH: "length fb' = i mod ?bs" "length v' = ?bs"
    "fb' = drop (i - i mod ?bs) (if de then take i p else out')" by auto
  have l: "length out' = i" using cfb_bytes_length [of blk de iv p i] b by simp
  have src: "(if de then take (Suc i) p else out' @ [?c]) =
      (if de then take i p else out') @ [if de then p ! i else ?c]"
    using Suc.prems by (simp add: take_Suc_conv_app_nth)
  have d: "drop (i - i mod ?bs) (if de then take (Suc i) p else out' @ [?c]) =
      fb' @ [if de then p ! i else ?c]"
    unfolding src using IH(3) l Suc.prems by (auto simp: mod_le_divisor)
  have out: "out = out' @ [?c]" using Suc.prems(2) b by (auto simp: Let_def split: if_splits)
  show ?case
  proof (cases "Suc (i mod ?bs) = ?bs")
    case True
    with Suc.prems(2) b IH(1) have "fb = []" "v = fb' @ [if de then p ! i else ?c]"
      by (simp_all add: Let_def)
    moreover have "Suc i mod ?bs = 0" using True by (simp add: mod_Suc)
    ultimately show ?thesis using True IH l out Suc.prems by simp
  next
    case False
    with Suc.prems(2) b IH(1) have "fb = fb' @ [if de then p ! i else ?c]" "v = v'"
      by (simp_all add: Let_def)
    moreover have m: "Suc i mod ?bs = Suc (i mod ?bs)" using False by (simp add: mod_Suc)
    ultimately show ?thesis using IH(1,2) d [folded out] by (simp add: m)
  qed
qed

section \<open>From memory to messages\<close>

text \<open>Writing \<open>xs\<close> at \<open>off\<close>; two windows that do not overlap, or coincide.\<close>

definition patch :: "byte list \<Rightarrow> nat \<Rightarrow> byte list \<Rightarrow> byte list" where
  "patch mem off xs = take off mem @ xs @ drop (off + length xs) mem"

definition noclash :: "nat \<Rightarrow> nat \<Rightarrow> nat \<Rightarrow> bool" where
  "noclash d s n \<longleftrightarrow> d = s \<or> d + n \<le> s \<or> s + n \<le> d"

lemma length_patch [simp]: "off + length xs \<le> length mem \<Longrightarrow> length (patch mem off xs) = length mem"
  by (simp add: patch_def)

lemma patch_Nil [simp]: "patch mem off [] = mem"
  by (simp add: patch_def)

lemma patch_snoc:
  "off + length xs < length mem \<Longrightarrow> (patch mem off xs)[off + length xs := x] = patch mem off (xs @ [x])"
  by (simp add: patch_def list_update_append Cons_nth_drop_Suc [symmetric])

lemma nth_patch_other:
  "off + length xs \<le> length mem \<Longrightarrow> i < off \<or> off + length xs \<le> i \<Longrightarrow> i < length mem \<Longrightarrow>
   patch mem off xs ! i = mem ! i"
  by (auto simp: patch_def nth_append)

lemma window_nth: "i < n \<Longrightarrow> off + n \<le> length mem \<Longrightarrow> window mem off n ! i = mem ! (off + i)"
  by (simp add: window_def)

lemma length_window [simp]: "off + n \<le> length mem \<Longrightarrow> length (window mem off n) = n"
  by (simp add: window_def)

lemma window_patch_same:
  "off + length xs \<le> length mem \<Longrightarrow> window (patch mem off xs) (off + i) k = take k (drop i (xs @ drop (off + length xs) mem))"
  by (simp add: window_def patch_def)

lemma window_patch_other:
  assumes "off + length xs \<le> length mem" and "o' + k \<le> off \<or> off + length xs \<le> o'" and "o' + k \<le> length mem"
  shows "window (patch mem off xs) o' k = window mem o' k"
proof (rule nth_equalityI)
  fix i assume "i < length (window (patch mem off xs) o' k)"
  with assms have "i < k" by simp
  with assms show "window (patch mem off xs) o' k ! i = window mem o' k ! i"
    by (subst (1 2) window_nth) (auto intro: nth_patch_other)
qed (use assms in simp)

text \<open>
  A call in progress: the cipher, direction and IV it starts with, the memory at its start and the
  two windows. \<open>at_byte x i\<close> is the memory after \<open>i\<close> bytes.
\<close>

record call =
  c_blk :: block
  c_de :: bool
  c_iv :: "byte list"
  c_mem :: "byte list"
  c_d :: nat
  c_s :: nat
  c_n :: nat

abbreviation bsz :: "call \<Rightarrow> nat" where "bsz x \<equiv> blk_BlockSize (c_blk x)"

definition call_ok :: "call \<Rightarrow> bool" where
  "call_ok x \<longleftrightarrow> block_ok (c_blk x) \<and> length (c_iv x) = bsz x \<and>
     c_d x + c_n x \<le> length (c_mem x) \<and> c_s x + c_n x \<le> length (c_mem x) \<and>
     noclash (c_d x) (c_s x) (c_n x) \<and> (c_d x = c_s x \<longrightarrow> \<not> c_de x)"

definition msg :: "call \<Rightarrow> byte list" where
  "msg x = window (c_mem x) (c_s x) (c_n x)"

definition b_iv :: "call \<Rightarrow> nat \<Rightarrow> byte list" where
  "b_iv x i = fst (cfb_bytes (c_blk x) (c_de x) (c_iv x) (msg x) i)"

definition b_fb :: "call \<Rightarrow> nat \<Rightarrow> byte list" where
  "b_fb x i = fst (snd (cfb_bytes (c_blk x) (c_de x) (c_iv x) (msg x) i))"

definition b_out :: "call \<Rightarrow> nat \<Rightarrow> byte list" where
  "b_out x i = snd (snd (cfb_bytes (c_blk x) (c_de x) (c_iv x) (msg x) i))"

definition at_byte :: "call \<Rightarrow> nat \<Rightarrow> byte list" where
  "at_byte x i = patch (c_mem x) (c_d x) (b_out x i)"

text \<open>The keystream byte for position \<open>i\<close>, and the byte fed back.\<close>

definition key_byte :: "call \<Rightarrow> nat \<Rightarrow> byte" where
  "key_byte x i = blk_Encrypt (c_blk x) (b_iv x i) ! (i mod bsz x)"

definition fed :: "call \<Rightarrow> nat \<Rightarrow> byte" where
  "fed x i = (if c_de x then msg x ! i else msg x ! i XOR key_byte x i)"

lemma call_okD:
  assumes "call_ok x"
  shows "0 < bsz x" "length (c_iv x) = bsz x" "c_d x + c_n x \<le> length (c_mem x)"
    "c_s x + c_n x \<le> length (c_mem x)" "noclash (c_d x) (c_s x) (c_n x)" "c_d x = c_s x \<Longrightarrow> \<not> c_de x"
    "length (msg x) = c_n x"
  using assms by (auto simp: call_ok_def block_ok_def msg_def)

lemma length_b_out [simp]: "length (b_out x i) = i"
  by (simp add: b_out_def cfb_bytes_length)

lemma b_shape:
  assumes "call_ok x" and "i \<le> c_n x"
  shows "length (b_fb x i) = i mod bsz x" "length (b_iv x i) = bsz x"
    "b_fb x i = drop (i - i mod bsz x) (if c_de x then take i (msg x) else b_out x i)"
  using cfb_bytes_shape [of "c_blk x" "c_iv x" i "msg x" "c_de x" "b_iv x i" "b_fb x i" "b_out x i"]
    call_okD [OF assms(1)] assms(2)
  by (auto simp: b_iv_def b_fb_def b_out_def)

lemma b_Suc:
  assumes "call_ok x" and "i < c_n x"
  shows "b_out x (Suc i) = b_out x i @ [msg x ! i XOR key_byte x i]"
    and "b_iv x (Suc i) = (if Suc (i mod bsz x) = bsz x then b_fb x i @ [fed x i] else b_iv x i)"
    and "b_fb x (Suc i) = (if Suc (i mod bsz x) = bsz x then [] else b_fb x i @ [fed x i])"
proof -
  obtain v fb out where b: "cfb_bytes (c_blk x) (c_de x) (c_iv x) (msg x) i = (v, fb, out)"
    by (metis prod.exhaust)
  have l: "length fb = i mod bsz x" using b_shape(1) [OF assms(1), of i] assms(2) b by (simp add: b_fb_def)
  show "b_out x (Suc i) = b_out x i @ [msg x ! i XOR key_byte x i]"
    and "b_iv x (Suc i) = (if Suc (i mod bsz x) = bsz x then b_fb x i @ [fed x i] else b_iv x i)"
    and "b_fb x (Suc i) = (if Suc (i mod bsz x) = bsz x then [] else b_fb x i @ [fed x i])"
    using b l by (cases "c_de x"; simp add: b_iv_def b_fb_def b_out_def Let_def fed_def key_byte_def)+
qed

lemma src_byte:
  assumes x: "call_ok x" and i: "i < c_n x"
  shows "at_byte x i ! (c_s x + i) = msg x ! i"
proof -
  have "patch (c_mem x) (c_d x) (b_out x i) ! (c_s x + i) = c_mem x ! (c_s x + i)"
    using i call_okD(3-5) [OF x] by (intro nth_patch_other) (auto simp: noclash_def)
  then show ?thesis using i call_okD(4) [OF x] by (simp add: at_byte_def msg_def window_nth)
qed

lemma at_byte_Suc:
  assumes x: "call_ok x" and i: "i < c_n x"
  shows "xor_at (c_d x) (c_s x) i (key_byte x i) (at_byte x i) = at_byte x (Suc i)"
    and "at_byte x (Suc i) ! (if c_de x then c_s x + i else c_d x + i) = fed x i"
proof -
  note src = src_byte [OF x i]
  show s: "xor_at (c_d x) (c_s x) i (key_byte x i) (at_byte x i) = at_byte x (Suc i)"
    using patch_snoc [of "c_d x" "b_out x i" "c_mem x"] i call_okD(3) [OF x] src
    by (simp add: xor_at_def at_byte_def b_Suc(1) [OF x i])
  show "at_byte x (Suc i) ! (if c_de x then c_s x + i else c_d x + i) = fed x i"
  proof (cases "c_de x")
    case True
    then have "c_d x \<noteq> c_s x" using call_okD(6) [OF x] by auto
    then have "at_byte x (Suc i) ! (c_s x + i) = at_byte x i ! (c_s x + i)"
      unfolding s [symmetric] xor_at_def by simp
    with src True show ?thesis by (simp add: fed_def)
  next
    case False
    then show ?thesis
      unfolding s [symmetric] xor_at_def using src i call_okD(3) [OF x]
      by (simp add: at_byte_def fed_def)
  qed
qed

text \<open>The byte loop: its state after \<open>i\<close> iterations.\<close>

definition byte_state :: "call \<Rightarrow> nat \<Rightarrow> byte list \<times> byte list \<times> byte list \<Rightarrow> bool" where
  "byte_state x i st \<longleftrightarrow> (case st of (tmp, ovf, mem) \<Rightarrow>
     mem = at_byte x i \<and> length ovf = 2 * bsz x \<and> take (bsz x) ovf = b_iv x i \<and>
     take (i mod bsz x) (drop (bsz x) ovf) = b_fb x i \<and>
     (i mod bsz x \<noteq> 0 \<longrightarrow> tmp = blk_Encrypt (c_blk x) (b_iv x i)))"

lemma byte_step_state:
  assumes x: "call_ok x" and i: "i < c_n x" and st: "byte_state x i st"
    and c: "cf_block c = c_blk x" "cf_de c = c_de x"
  shows "byte_state x (Suc i) (byte_step c (c_d x) (c_s x) (bsz x) i st)"
proof -
  let ?bs = "bsz x" and ?r = "i mod bsz x"
  obtain tmp ovf mem where st': "st = (tmp, ovf, mem)" by (metis prod.exhaust)
  with st have o: "length ovf = 2 * ?bs" "take ?bs ovf = b_iv x i" "take ?r (drop ?bs ovf) = b_fb x i"
    and m: "mem = at_byte x i" and t: "?r \<noteq> 0 \<Longrightarrow> tmp = blk_Encrypt (c_blk x) (b_iv x i)"
    by (auto simp: byte_state_def)
  have r: "?r < ?bs" using call_okD(1) [OF x] by simp
  define tmp' where "tmp' = (if ?r = 0 then blk_Encrypt (c_blk x) (take ?bs ovf) else tmp)"
  have t': "tmp' = blk_Encrypt (c_blk x) (b_iv x i)" using o t c by (simp add: tmp'_def)
  then have k: "tmp' ! ?r = key_byte x i" by (simp add: key_byte_def)
  define ovf' where "ovf' = ovf[?r + ?bs := fed x i]"
  have o': "length ovf' = 2 * ?bs" "take ?bs ovf' = b_iv x i"
    "take (Suc ?r) (drop ?bs ovf') = b_fb x i @ [fed x i]"
    using o r by (simp_all add: ovf'_def drop_update_swap take_Suc_conv_app_nth)
  have e: "byte_step c (c_d x) (c_s x) ?bs i st =
      (tmp', if ?r = ?bs - 1 then copy_at ovf' 0 (drop ?bs ovf') else ovf', at_byte x (Suc i))"
    unfolding byte_step_def st' prod.case Let_def tmp'_def [symmetric] k m at_byte_Suc(1) [OF x i]
      c at_byte_Suc(2) [OF x i] ovf'_def [symmetric]
    by (rule refl)
  show ?thesis
  proof (cases "Suc ?r = ?bs")
    case True
    then have "Suc i mod ?bs = 0" by (simp add: mod_Suc)
    moreover define cp where "cp = copy_at ovf' 0 (drop ?bs ovf')"
    have "length cp = 2 * ?bs" "take ?bs cp = b_fb x i @ [fed x i]" "?r = ?bs - 1"
      using o'(1,3) True [symmetric] b_shape(1) [OF x, of i] i by (simp_all add: cp_def copy_at_def take_Cons')
    ultimately show ?thesis
      unfolding byte_state_def e using True b_Suc(2,3) [OF x i] by (simp flip: cp_def)
  next
    case False
    then have "Suc i mod ?bs = Suc ?r" by (simp add: mod_Suc)
    then show ?thesis
      unfolding byte_state_def e using False r o' t' b_Suc(2,3) [OF x i] by auto
  qed
qed

lemma byte_loop_state:
  assumes x: "call_ok x" and "i \<le> c_n x" and c: "cf_block c = c_blk x" "cf_de c = c_de x"
    and iv: "cf_iv c = c_iv x"
  shows "byte_state x i (fold (byte_step c (c_d x) (c_s x) (bsz x)) [0..<i]
    (cf_tmp c, copy_at (replicate (bsz x * 2) 0) 0 (cf_iv c), c_mem x))"
  using assms(2)
proof (induction i)
  case 0
  then show ?case
    using call_okD(2) [OF x] iv
    by (simp add: byte_state_def at_byte_def copy_at_def b_iv_def b_fb_def b_out_def)
next
  case (Suc i)
  then show ?case using byte_step_state [OF x _ _ c] by simp
qed

lemma byteByByteXOR_bytes:
  assumes x: "call_ok x" and c: "cf_block c = c_blk x" "cf_de c = c_de x" "cf_iv c = c_iv x"
  obtains tmp where "byteByByteXOR (c_d x) (c_s x) (c_n x) (bsz x) (c, c_mem x) =
    (c\<lparr>cf_tmp := tmp, cf_iv := b_iv x (c_n x)\<rparr>, at_byte x (c_n x))"
proof -
  obtain tmp ovf mem where f: "fold (byte_step c (c_d x) (c_s x) (bsz x)) [0..<c_n x]
    (cf_tmp c, copy_at (replicate (bsz x * 2) 0) 0 (cf_iv c), c_mem x) = (tmp, ovf, mem)"
    by (metis prod.exhaust)
  have "byte_state x (c_n x) (tmp, ovf, mem)"
    using byte_loop_state [OF x order_refl c] f by simp
  then have s: "mem = at_byte x (c_n x)" "length ovf = 2 * bsz x" "take (bsz x) ovf = b_iv x (c_n x)"
    by (auto simp: byte_state_def)
  have "copy_at (cf_iv c) 0 ovf = b_iv x (c_n x)"
    using s call_okD(2) [OF x] c by (simp add: copy_at_def)
  with f s show thesis by (intro that) (simp add: byteByByteXOR_def)
qed

text \<open>The bulk path: the rounds of one block, then of all blocks, then the rest.\<close>

lemma b_iv_in_block:
  assumes x: "call_ok x" and "k * bsz x + j \<le> c_n x" and "j < bsz x"
  shows "b_iv x (k * bsz x + j) = b_iv x (k * bsz x)"
  using assms(2,3)
proof (induction j)
  case (Suc j)
  have "(k * bsz x + j) mod bsz x = j" using Suc.prems by simp
  with Suc b_Suc(2) [OF x, of "k * bsz x + j"] show ?case by simp
qed simp

lemma xor_loop:
  assumes x: "call_ok x" and "k * bsz x + j \<le> c_n x" and "j \<le> bsz x"
  shows "fold (\<lambda>j. xor_at (c_d x) (c_s x) (k * bsz x + j)
      (blk_Encrypt (c_blk x) (b_iv x (k * bsz x)) ! j)) [0..<j] (at_byte x (k * bsz x)) =
    at_byte x (k * bsz x + j)"
  using assms(2,3)
proof (induction j)
  case (Suc j)
  have "(k * bsz x + j) mod bsz x = j" using Suc.prems by simp
  moreover have "b_iv x (k * bsz x + j) = b_iv x (k * bsz x)"
    using Suc.prems by (intro b_iv_in_block [OF x]) auto
  ultimately have "blk_Encrypt (c_blk x) (b_iv x (k * bsz x)) ! j = key_byte x (k * bsz x + j)"
    by (simp add: key_byte_def)
  with Suc at_byte_Suc(1) [OF x, of "k * bsz x + j"] show ?case by simp
qed simp

lemma bulk_block_step:
  assumes x: "call_ok x" and k: "Suc k * bsz x \<le> c_n x"
    and c: "cf_block c = c_blk x" "cf_de c = c_de x" "cf_iv c = b_iv x (k * bsz x)"
  obtains tmp where "bulk_block (c_d x) (c_s x) (k * bsz x) (c, at_byte x (k * bsz x)) =
    (c\<lparr>cf_tmp := tmp, cf_iv := b_iv x (Suc k * bsz x)\<rparr>, at_byte x (Suc k * bsz x))"
proof -
  let ?bs = "bsz x" and ?i = "k * bsz x + (bsz x - 1)"
  have bs: "0 < ?bs" using call_okD(1) [OF x] .
  have "?i mod ?bs = ?bs - 1" using bs by (subst mod_mult_self3) simp
  then have i: "?i < c_n x" "Suc ?i = Suc k * ?bs" "?i mod ?bs = ?bs - 1"
    using bs k by auto
  have l: "length (b_iv x (k * ?bs)) = ?bs" "length (b_iv x (Suc k * ?bs)) = ?bs"
    using b_shape(2) [OF x] k by auto
  have m: "fold (\<lambda>j. xor_at (c_d x) (c_s x) (k * ?bs + j)
      (blk_Encrypt (c_blk x) (b_iv x (k * ?bs)) ! j)) [0..<?bs] (at_byte x (k * ?bs)) =
      at_byte x (Suc k * ?bs)"
    using xor_loop [OF x, of k ?bs] k by (simp add: add.commute)
  have w: "window (at_byte x (Suc k * ?bs)) (if c_de x then c_s x + k * ?bs else c_d x + k * ?bs) ?bs =
      b_iv x (Suc k * ?bs)"
  proof -
    have v: "b_iv x (Suc k * ?bs) = b_fb x ?i @ [fed x ?i]"
      unfolding i(2) [symmetric] using b_Suc(2) [OF x i(1)] i(3) bs by simp
    have f: "b_fb x ?i = drop (k * ?bs) (if c_de x then take ?i (msg x) else b_out x ?i)"
      using b_shape(3) [OF x, of ?i] i bs by simp
    show ?thesis
    proof (cases "c_de x")
      case True
      have "window (at_byte x (Suc k * ?bs)) (c_s x + k * ?bs) ?bs = window (c_mem x) (c_s x + k * ?bs) ?bs"
        unfolding at_byte_def using call_okD(3-6) [OF x] True k
        by (intro window_patch_other) (auto simp: noclash_def)
      also have "\<dots> = take ?bs (drop (k * ?bs) (msg x))"
        using k by (simp add: window_def msg_def drop_take min_absorb1 add.commute)
      also have "\<dots> = drop (k * ?bs) (take (Suc ?i) (msg x))"
        using bs by (simp add: drop_take)
      also have "\<dots> = drop (k * ?bs) (take ?i (msg x)) @ [msg x ! ?i]"
        using i(1) call_okD(7) [OF x] by (subst take_Suc_conv_app_nth) simp_all
      finally show ?thesis using True v f by (simp add: fed_def)
    next
      case False
      have "window (at_byte x (Suc k * ?bs)) (c_d x + k * ?bs) ?bs = drop (k * ?bs) (b_out x (Suc k * ?bs))"
        unfolding at_byte_def using call_okD(3) [OF x] k by (subst window_patch_same) simp_all
      also have "\<dots> = drop (k * ?bs) (b_out x ?i) @ [msg x ! ?i XOR key_byte x ?i]"
        unfolding i(2) [symmetric] using b_Suc(1) [OF x i(1)] bs by simp
      finally show ?thesis using False v f by (simp add: fed_def)
    qed
  qed
  have "copy_at (b_iv x (k * ?bs)) 0 (b_iv x (Suc k * ?bs)) = b_iv x (Suc k * ?bs)"
    using l by (simp add: copy_at_def)
  with m w c l show thesis by (intro that) (simp add: bulk_block_def Let_def)
qed

lemma bulk_blocks:
  assumes x: "call_ok x" and "k * bsz x \<le> c_n x"
    and c: "cf_block c = c_blk x" "cf_de c = c_de x" "cf_iv c = c_iv x"
  shows "\<exists>tmp. fold (\<lambda>i. bulk_block (c_d x) (c_s x) (i * bsz x)) [0..<k] (c, c_mem x) =
    (c\<lparr>cf_tmp := tmp, cf_iv := b_iv x (k * bsz x)\<rparr>, at_byte x (k * bsz x))"
  using assms(2)
proof (induction k)
  case 0
  have "c\<lparr>cf_tmp := cf_tmp c, cf_iv := c_iv x\<rparr> = c" using c by simp
  then show ?case by (intro exI [of _ "cf_tmp c"]) (simp add: b_iv_def b_out_def at_byte_def)
next
  case (Suc k)
  then obtain tmp where IH: "fold (\<lambda>i. bulk_block (c_d x) (c_s x) (i * bsz x)) [0..<k] (c, c_mem x) =
    (c\<lparr>cf_tmp := tmp, cf_iv := b_iv x (k * bsz x)\<rparr>, at_byte x (k * bsz x))" by auto
  obtain tmp' where "bulk_block (c_d x) (c_s x) (k * bsz x)
      (c\<lparr>cf_tmp := tmp, cf_iv := b_iv x (k * bsz x)\<rparr>, at_byte x (k * bsz x)) =
    (c\<lparr>cf_tmp := tmp, cf_iv := b_iv x (k * bsz x)\<rparr>\<lparr>cf_tmp := tmp', cf_iv := b_iv x (Suc k * bsz x)\<rparr>,
     at_byte x (Suc k * bsz x))"
    by (rule bulk_block_step [OF x Suc.prems, of "c\<lparr>cf_tmp := tmp, cf_iv := b_iv x (k * bsz x)\<rparr>"])
      (use c in simp_all)
  with IH show ?case by (simp del: mult_Suc) blast
qed

lemma bulk_rest_loop:
  assumes x: "call_ok x" and "k * bsz x + j \<le> c_n x" and "j < bsz x"
  shows "fold (\<lambda>j (iv, mem).
      let mem = xor_at (c_d x) (c_s x) (k * bsz x + j) (blk_Encrypt (c_blk x) (b_iv x (k * bsz x)) ! j) mem
      in (iv[j := mem ! (if c_de x then c_s x + k * bsz x + j else c_d x + k * bsz x + j)], mem))
      [0..<j] (b_iv x (k * bsz x), at_byte x (k * bsz x)) =
    (b_fb x (k * bsz x + j) @ drop j (b_iv x (k * bsz x)), at_byte x (k * bsz x + j))"
  using assms(2,3)
proof (induction j)
  case 0
  then have "length (b_fb x (k * bsz x)) = 0" using b_shape(1) [OF x, of "k * bsz x"] by simp
  then show ?case by simp
next
  case (Suc j)
  let ?i = "k * bsz x + j"
  have m: "?i mod bsz x = j" using Suc.prems by simp
  have "b_iv x ?i = b_iv x (k * bsz x)"
    using Suc.prems by (intro b_iv_in_block [OF x]) auto
  then have key: "blk_Encrypt (c_blk x) (b_iv x (k * bsz x)) ! j = key_byte x ?i"
    using m by (simp add: key_byte_def)
  have i: "?i < c_n x" using Suc.prems by simp
  have l: "length (b_fb x ?i) = j" "length (b_iv x (k * bsz x)) = bsz x"
    using b_shape(1,2) [OF x] m Suc.prems by auto
  have fb: "b_fb x (Suc ?i) = b_fb x ?i @ [fed x ?i]"
    using b_Suc(3) [OF x i] m Suc.prems by simp
  have "(b_fb x ?i @ drop j (b_iv x (k * bsz x)))[j := fed x ?i] =
      b_fb x (Suc ?i) @ drop (Suc j) (b_iv x (k * bsz x))"
    using l fb Suc.prems by (simp add: list_update_append Cons_nth_drop_Suc [symmetric])
  with Suc at_byte_Suc [OF x i] key show ?case
    by (cases "c_de x") (simp_all add: Let_def add.assoc)
qed

lemma bulkXOR_bytes:
  assumes x: "call_ok x" and c: "cf_block c = c_blk x" "cf_de c = c_de x" "cf_iv c = c_iv x"
  obtains tmp where "bulkXOR (c_d x) (c_s x) (c_n x) (bsz x) (c, c_mem x) =
    (c\<lparr>cf_tmp := tmp, cf_iv := b_fb x (c_n x) @ drop (length (b_fb x (c_n x))) (b_iv x (c_n x))\<rparr>,
     at_byte x (c_n x))"
proof -
  let ?k = "c_n x div bsz x" and ?r = "c_n x mod bsz x"
  have n: "?k * bsz x + ?r = c_n x" and le: "?k * bsz x \<le> c_n x" and r: "?r < bsz x"
    using call_okD(1) [OF x] by (simp_all add: div_times_less_eq_dividend)
  obtain tmp where B: "fold (\<lambda>i. bulk_block (c_d x) (c_s x) (i * bsz x)) [0..<?k] (c, c_mem x) =
    (c\<lparr>cf_tmp := tmp, cf_iv := b_iv x (?k * bsz x)\<rparr>, at_byte x (?k * bsz x))"
    using bulk_blocks [OF x le c] by blast
  have lf: "length (b_fb x (c_n x)) = ?r" using b_shape(1) [OF x] by simp
  have v: "b_iv x (c_n x) = b_iv x (?k * bsz x)"
    using b_iv_in_block [OF x, of ?k ?r] n r by simp
  show thesis
  proof (cases "0 < ?r")
    case True
    have "take (bsz x) (b_iv x (?k * bsz x)) = b_iv x (?k * bsz x)"
      using b_shape(2) [OF x le] by simp
    with True B c bulk_rest_loop [OF x, of ?k ?r] n r lf v show thesis
      by (intro that [of "blk_Encrypt (c_blk x) (b_iv x (?k * bsz x))"])
        (simp add: bulkXOR_def bulk_rest_def Let_def)
  next
    case False
    then have "?k * bsz x = c_n x" by (metis add.right_neutral gr0I n)
    with B lf False show thesis
      by (intro that [of tmp]) (simp add: bulkXOR_def Let_def)
  qed
qed

lemma XORKeyStream_cfb:
  assumes x: "call_ok x" and c: "cf_block c = c_blk x" "cf_de c = c_de x" "cf_iv c = c_iv x"
    and dn: "c_n x \<le> dn" and cfb: "cfb (c_blk x) (c_de x) (c_iv x) (msg x) = (iv', out)"
  obtains tmp where "XORKeyStream (c_d x) dn (c_s x) (c_n x) (c, c_mem x) =
    Inr (c\<lparr>cf_tmp := tmp, cf_iv := iv'\<rparr>, patch (c_mem x) (c_d x) out)"
proof -
  have o: "out = b_out x (c_n x)" and iv: "iv' = (if c_n x < 2 * bsz x then b_iv x (c_n x)
      else b_fb x (c_n x) @ drop (length (b_fb x (c_n x))) (b_iv x (c_n x)))"
    using cfb call_okD(7) [OF x] by (auto simp: cfb_def b_out_def b_iv_def b_fb_def split: prod.splits)
  consider "c_n x = 0" | "0 < c_n x" "c_n x < 2 * bsz x" | "2 * bsz x \<le> c_n x" by linarith
  then show thesis
  proof cases
    case 1
    then have "c\<lparr>cf_tmp := cf_tmp c, cf_iv := iv'\<rparr> = c" "out = []"
      using c o iv call_okD(1) [OF x] by (simp_all add: b_iv_def b_out_def)
    with 1 show thesis by (intro that [of "cf_tmp c"]) (simp add: XORKeyStream_def)
  next
    case 2
    obtain tmp where "byteByByteXOR (c_d x) (c_s x) (c_n x) (bsz x) (c, c_mem x) =
      (c\<lparr>cf_tmp := tmp, cf_iv := b_iv x (c_n x)\<rparr>, at_byte x (c_n x))"
      by (rule byteByByteXOR_bytes [OF x c])
    with 2 dn c o iv show thesis
      by (intro that [of tmp]) (simp add: XORKeyStream_def Let_def at_byte_def mult.commute)
  next
    case 3
    obtain tmp where "bulkXOR (c_d x) (c_s x) (c_n x) (bsz x) (c, c_mem x) =
      (c\<lparr>cf_tmp := tmp, cf_iv := b_fb x (c_n x) @ drop (length (b_fb x (c_n x))) (b_iv x (c_n x))\<rparr>,
       at_byte x (c_n x))"
      by (rule bulkXOR_bytes [OF x c])
    with 3 dn c o iv call_okD(1,2) [OF x] show thesis
      by (intro that [of tmp]) (auto simp: XORKeyStream_def Let_def at_byte_def mult.commute)
  qed
qed

lemma map2_take_Suc:
  "i < length p \<Longrightarrow> i < length k \<Longrightarrow> map2 f (take (Suc i) p) k = map2 f (take i p) k @ [f (p ! i) (k ! i)]"
proof (induction i arbitrary: p k)
  case 0
  then show ?case by (cases p; cases k) auto
next
  case (Suc i)
  then show ?case by (cases p; cases k) auto
qed

lemma cfb_iv_length:
  assumes "block_ok blk" and "length iv = blk_BlockSize blk" and "cfb blk de iv p = (iv', out)"
  shows "length iv' = blk_BlockSize blk"
proof -
  obtain v fb c where b: "cfb_bytes blk de iv p (length p) = (v, fb, c)" by (metis prod.exhaust)
  have bs: "0 < blk_BlockSize blk" using assms(1) by (simp add: block_ok_def)
  have "length fb = length p mod blk_BlockSize blk" "length v = blk_BlockSize blk"
    using cfb_bytes_shape [OF bs assms(2) order_refl b] by auto
  with assms(3) b bs show ?thesis
    by (auto simp: cfb_def less_imp_le)
qed

section \<open>Properties\<close>

text \<open>C8: the round trip of the stream cipher. When both ends hold the same IV, whatever one call of the
  encrypting stream makes of a message, one call of the decrypting stream on the result turns back
  into the message, and both ends hold the same IV again, so that the next call works too. The sender
  may encrypt in place; the receiver must decrypt into a separate buffer.\<close>

theorem Cfb8_roundtrip:
  assumes "block_ok blk" and "length iv = blk_BlockSize blk" and "length p = n" and "n \<le> dn" and "n \<le> dn'"
    and enc: "cf_block e = blk" "cf_iv e = iv" "\<not> cf_de e"
    and dec: "cf_block f = blk" "cf_iv f = iv" "cf_de f"
    and "window mem s n = p" and "s + n \<le> length mem" and "d + n \<le> length mem"
    and "d = s \<or> d + n \<le> s \<or> s + n \<le> d"
    and "XORKeyStream d dn s n (e, mem) = Inr (e', mem')"
    and "window mem2 s' n = window mem' d n" and "s' + n \<le> length mem2" and "d' + n \<le> length mem2"
    and "d' + n \<le> s' \<or> s' + n \<le> d'" and "0 < n"
  shows "\<exists>f' mem2'. XORKeyStream d' dn' s' n (f, mem2) = Inr (f', mem2') \<and>
    window mem2' d' n = p \<and> cf_iv f' = cf_iv e' \<and> length (cf_iv e') = blk_BlockSize blk \<and>
    cf_block f' = blk \<and> cf_de f' \<and> cf_block e' = blk \<and> \<not> cf_de e'"
proof -
  let ?x = "\<lparr>c_blk = blk, c_de = False, c_iv = iv, c_mem = mem, c_d = d, c_s = s, c_n = n\<rparr>"
  let ?y = "\<lparr>c_blk = blk, c_de = True, c_iv = iv, c_mem = mem2, c_d = d', c_s = s', c_n = n\<rparr>"
  have x: "call_ok ?x" and y: "call_ok ?y"
    using assms by (auto simp: call_ok_def noclash_def)
  obtain iv' c where C: "cfb blk False iv p = (iv', c)" by force
  note rt = cfb_roundtrip [OF C]
  obtain tmp where X: "XORKeyStream d dn s n (e, mem) = Inr (e\<lparr>cf_tmp := tmp, cf_iv := iv'\<rparr>, patch mem d c)"
    using XORKeyStream_cfb [OF x, of e dn iv' c] assms C by (auto simp: msg_def)
  then have w: "window mem' d n = c"
    using assms rt(2) window_patch_same [of d c mem 0 n] by simp
  obtain tmp' where Y: "XORKeyStream d' dn' s' n (f, mem2) = Inr (f\<lparr>cf_tmp := tmp', cf_iv := iv'\<rparr>, patch mem2 d' p)"
    using XORKeyStream_cfb [OF y, of f dn' iv' p] assms rt(1) w by (auto simp: msg_def)
  have "window (patch mem2 d' p) d' n = p"
    using assms window_patch_same [of d' p mem2 0 n] by simp
  moreover have "length iv' = blk_BlockSize blk"
    by (rule cfb_iv_length [OF assms(1,2) C])
  ultimately show ?thesis using X Y assms(16) enc dec by auto
qed

definition toy_block :: block where
  "toy_block = \<lparr>blk_BlockSize = 2, blk_Encrypt = (\<lambda>x. [x ! 0 XOR 0x5A, x ! 1 + 1])\<rparr>"


theorem Cfb8_roundtrip_witness:
  "\<exists>f' mem2'. XORKeyStream 5 5 0 5 (NewCFB8Decrypt toy_block [1, 2], [81, 6, 81, 2, 14, 0, 0, 0, 0, 0]) = Inr (f', mem2') \<and>
    window mem2' 5 5 = [10, 5, 90, 5, 5]"
proof -
  have ok: "block_ok toy_block" by (simp add: block_ok_def toy_block_def)
  have "map_sum id snd (XORKeyStream 0 5 0 5 (NewCFB8Encrypt toy_block [1, 2], [10, 5, 90, 5, 5])) =
    Inr [81, 6, 81, 2, 14]" by code_simp
  then obtain e' where E: "XORKeyStream 0 5 0 5 (NewCFB8Encrypt toy_block [1, 2], [10, 5, 90, 5, 5]) =
    Inr (e', [81, 6, 81, 2, 14])"
    by (cases "XORKeyStream 0 5 0 5 (NewCFB8Encrypt toy_block [1, 2], [10, 5, 90, 5, 5])") auto
  show ?thesis
    using Cfb8_roundtrip [OF ok _ _ _ _ _ _ _ _ _ _ _ _ _ _ E,
        where p = "[10, 5, 90, 5, 5]" and dn' = 5 and f = "NewCFB8Decrypt toy_block [1, 2]" and s' = 0 and d' = 5
        and ?mem2.0 = "[81, 6, 81, 2, 14, 0, 0, 0, 0, 0]" and iv = "[1, 2]"]
    by (auto simp: NewCFB8Encrypt_def NewCFB8Decrypt_def toy_block_def window_def)
qed

text \<open>A message shorter than a block is XORed with the first bytes of the encrypted IV, and the IV
  does not change: the next message is encrypted with the same keystream, so two short ciphertexts
  reveal the XOR of their plaintexts.\<close>

theorem Cfb8_short_keystream_reuse:
  assumes "block_ok blk" and "length iv = blk_BlockSize blk" and "cf_block c = blk" and "cf_iv c = iv"
    and "0 < n" and "n < blk_BlockSize blk" and "n \<le> dn"
    and "s + n \<le> length mem" and "d + n \<le> length mem"
    and "d + n \<le> s \<or> s + n \<le> d"
  shows "\<exists>c' mem'. XORKeyStream d dn s n (c, mem) = Inr (c', mem') \<and> cf_iv c' = iv \<and>
    window mem' d n = map2 (XOR) (window mem s n) (blk_Encrypt blk iv)"
proof -
  let ?x = "\<lparr>c_blk = blk, c_de = cf_de c, c_iv = iv, c_mem = mem, c_d = d, c_s = s, c_n = n\<rparr>"
  let ?p = "window mem s n" and ?k = "blk_Encrypt blk iv"
  have x: "call_ok ?x" using assms by (auto simp: call_ok_def noclash_def)
  have lk: "length ?k = blk_BlockSize blk" and lp: "length ?p = n" using assms by (auto simp: block_ok_def)
  have "\<exists>fb. cfb_bytes blk (cf_de c) iv ?p i = (iv, fb, map2 (XOR) (take i ?p) ?k) \<and> length fb = i"
    if "i \<le> n" for i
    using that
  proof (induction i)
    case (Suc i)
    then obtain fb where "cfb_bytes blk (cf_de c) iv ?p i = (iv, fb, map2 (XOR) (take i ?p) ?k)" "length fb = i"
      by auto
    moreover have "map2 (XOR) (take (Suc i) ?p) ?k = map2 (XOR) (take i ?p) ?k @ [?p ! i XOR ?k ! i]"
      using Suc.prems assms(6) lk lp by (intro map2_take_Suc) simp_all
    ultimately show ?case using Suc.prems assms(6) by (simp add: Let_def)
  qed simp
  from this [of n] lp assms have C: "cfb blk (cf_de c) iv ?p = (iv, map2 (XOR) ?p ?k)"
    by (auto simp: cfb_def)
  obtain tmp where "XORKeyStream d dn s n (c, mem) =
      Inr (c\<lparr>cf_tmp := tmp, cf_iv := iv\<rparr>, patch mem d (map2 (XOR) ?p ?k))"
    using XORKeyStream_cfb [OF x, of c dn iv "map2 (XOR) ?p ?k"] assms C by (auto simp: msg_def)
  moreover have "window (patch mem d (map2 (XOR) ?p ?k)) d n = map2 (XOR) ?p ?k"
    using window_patch_same [of d "map2 (XOR) ?p ?k" mem 0 n] lk lp assms by simp
  ultimately show ?thesis by simp
qed

theorem Cfb8_short_keystream_reuse_witness:
  "\<exists>c' mem'. XORKeyStream 1 1 0 1 (NewCFB8Encrypt toy_block [1, 2], [7, 0]) = Inr (c', mem') \<and> cf_iv c' = [1, 2] \<and>
    window mem' 1 1 = map2 (XOR) (window [7, 0] 0 1) (blk_Encrypt toy_block [1, 2])"
  by (rule Cfb8_short_keystream_reuse) (simp_all add: block_ok_def toy_block_def NewCFB8Encrypt_def)

text \<open>
  The standard 8-bit cipher feedback mode, for comparison: the register is shifted by one byte and
  encrypted again for every byte.
\<close>

fun cfb8_standard :: "block \<Rightarrow> byte list \<Rightarrow> byte list \<Rightarrow> byte list" where
  "cfb8_standard blk reg [] = []"
| "cfb8_standard blk reg (b # bs) =
     (let c = b XOR blk_Encrypt blk reg ! 0 in c # cfb8_standard blk (tl reg @ [c]) bs)"

text \<open>The stream is not the 8-bit cipher feedback mode its name and comment announce: it differs
  from it already in the second byte, and unlike it depends on how the data is cut into calls.\<close>

theorem Cfb8_not_standard:
  "(\<exists>e' e1 e2. XORKeyStream 2 2 0 2 (NewCFB8Encrypt toy_block [1, 2], [7, 9, 0, 0]) = Inr (e', [7, 9, 92, 10]) \<and>
      cfb8_standard toy_block [1, 2] [7, 9] = [92, 81] \<and>
      XORKeyStream 2 1 0 1 (NewCFB8Encrypt toy_block [1, 2], [7, 9, 0, 0]) = Inr (e1, [7, 9, 92, 0]) \<and>
      XORKeyStream 3 1 1 1 (e1, [7, 9, 92, 0]) = Inr (e2, [7, 9, 92, 82]))"
  by (simp add: XORKeyStream_def byteByByteXOR_def byte_step_def xor_at_def NewCFB8Encrypt_def
      toy_block_def copy_at_def Let_def upt_rec)

text \<open>Decrypting in place does not work: the code feeds back the source bytes after it has
  overwritten them with plaintext. Here two blocks that decrypt to \<open>[10, 5, 90, 5]\<close> in a separate
  buffer come out wrong from the second block on when source and destination are the same slice.\<close>

theorem Cfb8_decrypt_in_place_wrong:
  "map_sum id (\<lambda>x. window (snd x) 4 4)
     (XORKeyStream 4 4 0 4 (NewCFB8Decrypt toy_block [1, 2], [81, 6, 81, 2, 0, 0, 0, 0])) = Inr [10, 5, 90, 5] \<and>
   map_sum id (\<lambda>x. window (snd x) 0 4)
     (XORKeyStream 0 4 0 4 (NewCFB8Decrypt toy_block [1, 2], [81, 6, 81, 2])) = Inr [10, 5, 1, 4]"
  by code_simp

end
