(* ===== verification/Key_Exchange.thy ===== *)
theory Key_Exchange
  imports Cfb8
begin

unbundle bit_operations_syntax

text \<open>
  \<^verbatim>\<open>crypto/keyexchange.go\<close>: the login key exchange. RSA, X.509, AES, SHA-1 and the random source are
  library code and parameters of the definitions. What the repository computes itself is the
  server hash, the digest printed as a signed hexadecimal number, and it is proved to be that number.
\<close>

section \<open>Model\<close>

record KeyExchange =
  ke_ServerID :: gostring
  ke_PublicKey :: "byte list"
  ke_VerifyToken :: "byte list"

text \<open>\<^verbatim>\<open>GenerateKey\<close>: sixteen bytes of the random source, or its error.\<close>

definition GenerateKey :: "(nat \<Rightarrow> byte list res) \<Rightarrow> byte list res" where
  "GenerateKey rand_Read = rand_Read 16"

text \<open>The entry points of \<^verbatim>\<open>crypto/x509\<close> and \<^verbatim>\<open>crypto/rsa\<close> the exchange calls.\<close>

record ('pub, 'rsa) pki =
  ParsePKIXPublicKey :: "byte list \<Rightarrow> 'pub option"
  ParsePKCS1PublicKey :: "byte list \<Rightarrow> 'pub option"
  as_rsa :: "'pub \<Rightarrow> 'rsa option"
  EncryptPKCS1v15 :: "'rsa \<Rightarrow> byte list \<Rightarrow> byte list option"

definition EncryptKey :: "('pub, 'rsa) pki \<Rightarrow> byte list \<Rightarrow> byte list \<Rightarrow> byte list res" where
  "EncryptKey lib key publicKey =
     (case (case ParsePKIXPublicKey lib publicKey of
              Some pub \<Rightarrow> Some pub
            | None \<Rightarrow> ParsePKCS1PublicKey lib publicKey) of
        None \<Rightarrow> Inl ErrEncryptionFailed
      | Some pub \<Rightarrow>
          case as_rsa lib pub of
            None \<Rightarrow> Inl ErrEncryptionFailed
          | Some rsaPub \<Rightarrow>
              case EncryptPKCS1v15 lib rsaPub key of
                None \<Rightarrow> Inl ErrEncryptionFailed
              | Some encrypted \<Rightarrow> Inr encrypted)"

definition EncryptToken :: "('pub, 'rsa) pki \<Rightarrow> byte list \<Rightarrow> byte list \<Rightarrow> byte list res" where
  "EncryptToken lib token publicKey = EncryptKey lib token publicKey"

text \<open>\<open>aes_NewCipher\<close> stands for \<^verbatim>\<open>aes.NewCipher\<close>, which refuses keys of a wrong length.\<close>

definition CreateCipher :: "(byte list \<Rightarrow> block res) \<Rightarrow> byte list \<Rightarrow> (CFB8 \<times> CFB8) res" where
  "CreateCipher aes_NewCipher key =
     (case aes_NewCipher key of
        Inl e \<Rightarrow> Inl e
      | Inr blk \<Rightarrow> Inr (NewCFB8Encrypt blk key, NewCFB8Decrypt blk key))"

definition hex_digits :: gostring where
  "hex_digits = bytes_of ''0123456789abcdef''"

definition hex_byte :: "byte \<Rightarrow> gostring" where
  "hex_byte b = [hex_digits ! unat (drop_bit 4 b), hex_digits ! unat (b AND 0xF)]"

text \<open>The carry loop, on the bytes from the last to the first.\<close>

fun increment :: "byte list \<Rightarrow> byte list" where
  "increment [] = []"
| "increment (b # bs) = (if b + 1 \<noteq> 0 then (b + 1) # bs else 0 # increment bs)"

definition negate_hash :: "byte list \<Rightarrow> byte list" where
  "negate_hash hash = rev (increment (rev (map (\<lambda>b. NOT b) hash)))"

text \<open>\<open>sha1\<close> is the digest of everything written to the hash object.\<close>

definition ComputeServerHash ::
  "(byte list \<Rightarrow> byte list) \<Rightarrow> gostring \<Rightarrow> byte list \<Rightarrow> byte list \<Rightarrow> gostring" where
  "ComputeServerHash sha1 serverID publicKey secretKey =
     (let hash = sha1 (serverID @ secretKey @ publicKey) in
      if list_all (\<lambda>b. b = 0) hash then []
      else
        let negative = hash ! 0 AND 0x80 \<noteq> 0;
            hash = (if negative then negate_hash hash else hash);
            hex = concat (map hex_byte hash)
        in if negative then bytes_of ''-'' @ hex else hex)"

definition VerifyHash :: "gostring \<Rightarrow> gostring \<Rightarrow> bool" where
  "VerifyHash serverHash computedHash \<longleftrightarrow> serverHash = computedHash"

section \<open>The value of a hash string\<close>

text \<open>Big-endian value of a byte string, and the value of a string of hexadecimal digits.\<close>

definition be_nat :: "byte list \<Rightarrow> nat" where
  "be_nat bs = foldl (\<lambda>a b. 256 * a + unat b) 0 bs"

definition digit_val :: "byte \<Rightarrow> nat" where
  "digit_val c = (if unat c < 97 then unat c - 48 else unat c - 87)"

definition hex_val :: "gostring \<Rightarrow> nat" where
  "hex_val s = foldl (\<lambda>a c. 16 * a + digit_val c) 0 s"

text \<open>The signed reading of a digest: two's complement, as \<^verbatim>\<open>java.math.BigInteger\<close> reads it.\<close>

definition signed_val :: "byte list \<Rightarrow> int" where
  "signed_val bs =
     (if bs \<noteq> [] \<and> bs ! 0 AND 0x80 \<noteq> 0 then int (be_nat bs) - 2 ^ (8 * length bs) else int (be_nat bs))"

lemma be_nat_snoc [simp]: "be_nat (bs @ [b]) = 256 * be_nat bs + unat b"
  by (simp add: be_nat_def)

lemma be_nat_Nil [simp]: "be_nat [] = 0"
  by (simp add: be_nat_def)

lemma be_nat_Cons: "be_nat (b # bs) = unat b * 256 ^ length bs + be_nat bs"
proof (induction bs rule: rev_induct)
  case Nil
  then show ?case by (simp add: be_nat_def)
next
  case (snoc c bs)
  then show ?case
    using be_nat_snoc [of "b # bs" c] by (simp add: algebra_simps)
qed

lemma unat_byte_less: "unat (b :: byte) < 256"
  using unsigned_less [of b] by simp

lemma unat_byte_max: "unat (- 1 :: byte) = 255"
proof -
  have "(- 1 :: byte) = 255" by simp
  then show ?thesis by (simp only:) simp
qed

lemma be_nat_less: "be_nat bs < 256 ^ length bs"
proof (induction bs rule: rev_induct)
  case (snoc b bs)
  then show ?case using unat_byte_less [of b] by simp
qed simp

lemma be_nat_0: "be_nat bs = 0 \<longleftrightarrow> list_all (\<lambda>b. b = 0) bs"
  by (induction bs rule: rev_induct) (auto simp: unat_eq_0)

lemma digit_val_digit:
  assumes "n < 16"
  shows "digit_val (hex_digits ! n) = n"
proof -
  have "\<forall>n \<in> {..<16}. digit_val (hex_digits ! n) = n"
    by (simp add: lessThan_nat_numeral lessThan_Suc digit_val_def hex_digits_def bytes_of_def)
  with assms show ?thesis by simp
qed

lemma nibbles: "unat (drop_bit 4 (b :: byte)) < 16" "unat (b AND 0xF) < 16"
  "unat b = 16 * unat (drop_bit 4 b) + unat (b AND 0xF)"
proof -
  have "(0xF :: byte) = mask 4" by (simp add: mask_eq_exp_minus_1)
  then have m: "b AND 0xF = take_bit 4 b" by (simp add: take_bit_eq_mask)
  have d: "unat (drop_bit 4 b) = unat b div 16" by (simp only: unat_drop_bit_eq) (simp add: drop_bit_eq_div)
  have t: "unat (b AND 0xF) = unat b mod 16"
    unfolding m by (simp only: unsigned_take_bit_eq) (simp add: take_bit_eq_mod)
  show "unat (drop_bit 4 b) < 16" "unat (b AND 0xF) < 16"
    "unat b = 16 * unat (drop_bit 4 b) + unat (b AND 0xF)"
    using unat_byte_less [of b] by (simp_all add: d t)
qed

lemma hex_val_hex: "hex_val (concat (map hex_byte bs)) = be_nat bs"
proof (induction bs rule: rev_induct)
  case Nil
  then show ?case by (simp add: hex_val_def)
next
  case (snoc b bs)
  have "hex_val (s @ hex_byte b) = 256 * hex_val s + unat b" for s
    using nibbles [of b] by (simp add: hex_val_def hex_byte_def digit_val_digit)
  with snoc show ?case by simp
qed

lemma be_nat_increment:
  "be_nat (rev (increment bs)) = (be_nat (rev bs) + 1) mod 256 ^ length bs"
proof (induction bs)
  case (Cons b bs)
  show ?case
  proof (cases "b + 1 = 0")
    case True
    then have "b = -1" by (metis add_eq_0_iff2)
    then have "unat b = 255" using unat_byte_max by simp
    with True Cons mult_mod_right [of 256 "Suc (be_nat (rev bs))" "256 ^ length bs"]
    show ?thesis by (simp add: algebra_simps)
  next
    case False
    then have b: "unat (b + 1) = unat b + 1" by (metis unatSuc Suc_eq_plus1 add.commute)
    have "be_nat (rev bs) * 256 + unat b + 1 < 256 ^ length (b # bs)"
      using be_nat_less [of "rev bs"] unat_byte_less [of "b + 1"] b by simp
    with False b show ?thesis by (simp add: mult.commute)
  qed
qed simp

lemma be_nat_NOT: "be_nat (map (\<lambda>b. NOT b) bs) + be_nat bs + 1 = 256 ^ length bs"
proof (induction bs rule: rev_induct)
  case (snoc b bs)
  have "NOT b = - 1 - b" by (simp add: not_eq_complement)
  then have "unat (NOT b) + unat b = 255"
    using unat_sub [of b "-1"] unat_byte_less [of b] unat_byte_max
    by simp
  with snoc show ?case by simp
qed simp

lemma length_increment [simp]: "length (increment bs) = length bs"
  by (induction bs) auto

lemma be_nat_negate:
  assumes "be_nat bs \<noteq> 0"
  shows "be_nat (negate_hash bs) = 256 ^ length bs - be_nat bs"
proof -
  have "be_nat (map (\<lambda>b. NOT b) bs) + 1 = 256 ^ length bs - be_nat bs"
    using be_nat_NOT [of bs] by linarith
  moreover have "256 ^ length bs - be_nat bs < 256 ^ length bs"
    using assms be_nat_less [of bs] by simp
  ultimately show ?thesis
    by (simp add: negate_hash_def be_nat_increment)
qed

lemma length_hex: "length (concat (map hex_byte bs)) = 2 * length bs"
  by (induction bs) (simp_all add: hex_byte_def)

lemma set_hex: "set (concat (map hex_byte bs)) \<subseteq> set hex_digits"
proof -
  have l: "length hex_digits = 16" by (simp add: hex_digits_def)
  have "set (hex_byte b) \<subseteq> set hex_digits" for b
    using nibbles [of b] l by (auto simp: hex_byte_def intro!: nth_mem)
  then show ?thesis by auto
qed

section \<open>Properties\<close>

text \<open>C30: the server hash is the signed value of the digest in hexadecimal: a minus sign for a negative
  one, then forty digits whose value is the magnitude. A digest of value zero gives the empty
  string.\<close>

theorem ComputeServerHash_value:
  assumes "sha1 (serverID @ secretKey @ publicKey) = hash" and "length hash = 20"
  shows "\<exists>mag. length mag = 40 \<and> set mag \<subseteq> set hex_digits \<and> int (hex_val mag) = \<bar>signed_val hash\<bar> \<and>
    ComputeServerHash sha1 serverID publicKey secretKey =
      (if signed_val hash = 0 then [] else if signed_val hash < 0 then bytes_of ''-'' @ mag else mag)"
proof -
  have ne: "hash \<noteq> []" using assms(2) by auto
  have less: "int (be_nat hash) < 2 ^ (8 * length hash)"
    using be_nat_less [of hash] by (simp add: power_mult)
  let ?neg = "hash ! 0 AND 0x80 \<noteq> 0"
  let ?m = "concat (map hex_byte (if ?neg then negate_hash hash else hash))"
  have s: "signed_val hash < 0 \<longleftrightarrow> ?neg" "signed_val hash = 0 \<longleftrightarrow> be_nat hash = 0 \<and> \<not> ?neg"
    using ne less by (auto simp: signed_val_def)
  have z: "be_nat hash = 0 \<Longrightarrow> \<not> ?neg"
    using ne by (cases hash) (auto simp: be_nat_0)
  have v: "int (hex_val ?m) = \<bar>signed_val hash\<bar>"
  proof (cases "?neg")
    case True
    then have "be_nat hash \<noteq> 0" using z by blast
    then have "int (hex_val ?m) = 2 ^ (8 * length hash) - int (be_nat hash)"
      using True be_nat_less [of hash]
      by (simp add: hex_val_hex be_nat_negate of_nat_diff power_mult)
    with True less show ?thesis by (simp add: signed_val_def ne)
  next
    case False
    then show ?thesis by (simp add: hex_val_hex signed_val_def)
  qed
  have l: "length ?m = 40" "set ?m \<subseteq> set hex_digits"
    using assms(2) set_hex by (simp_all add: length_hex negate_hash_def)
  have "ComputeServerHash sha1 serverID publicKey secretKey =
      (if signed_val hash = 0 then [] else if signed_val hash < 0 then bytes_of ''-'' @ ?m else ?m)"
    using s z assms(1) be_nat_0 [of hash] by (auto simp: ComputeServerHash_def Let_def)
  with v l show ?thesis by blast
qed

theorem ComputeServerHash_value_witness:
  "\<exists>mag. length mag = 40 \<and> set mag \<subseteq> set hex_digits \<and> int (hex_val mag) = \<bar>signed_val (replicate 20 7)\<bar> \<and>
    ComputeServerHash (\<lambda>_. replicate 20 7) [] [] [] =
      (if signed_val (replicate 20 7) = 0 then []
       else if signed_val (replicate 20 7) < 0 then bytes_of ''-'' @ mag else mag)"
  by (rule ComputeServerHash_value) simp_all

text \<open>The string is not the one the session service expects for about one digest in sixteen: the
  digits are never stripped of leading zeros, as the hexadecimal notation of a signed integer is.\<close>

theorem ComputeServerHash_leading_zero:
  assumes "sha1 (serverID @ secretKey @ publicKey) = b # hash" and "b < 0x10" and "be_nat (b # hash) \<noteq> 0"
  shows "\<exists>rest. ComputeServerHash sha1 serverID publicKey secretKey = bytes_of ''0'' @ rest"
proof -
  have d: "drop_bit 4 b = 0" using assms(2) less_pow_drop_bit [of 4 b] by simp
  have "drop_bit 7 b = drop_bit 3 (drop_bit 4 b)" by (simp only: drop_bit_drop_bit) simp
  with d have "\<not> bit (drop_bit 7 b) 0" by simp
  then have "b AND 0x80 = 0" by (simp add: and_80_eq_0 bit_drop_bit_eq)
  then have "ComputeServerHash sha1 serverID publicKey secretKey = concat (map hex_byte (b # hash))"
    using assms(1,3) be_nat_0 [of "b # hash"] by (auto simp: ComputeServerHash_def Let_def)
  then show ?thesis by (simp add: hex_byte_def d hex_digits_def bytes_of_def)
qed

theorem ComputeServerHash_leading_zero_witness:
  "\<exists>rest. ComputeServerHash (\<lambda>_. 8 # replicate 19 7) [] [] [] = bytes_of ''0'' @ rest"
  by (rule ComputeServerHash_leading_zero [of _ _ _ _ 8 "replicate 19 7"]) (simp_all add: be_nat_0 list_all_iff)

end
