(* ===== verification/Conn.thy ===== *)
theory Conn
  imports Batch Flow Key_Exchange
begin

text \<open>
  \<^verbatim>\<open>conn/conn.go\<close>: \<^verbatim>\<open>MineConn\<close>, which puts the packet codec, the stream cipher, the flow controller and
  the priority queue together over one network connection. The theorems compose those of the parts:
  the end-to-end round trip rests on the packet round trip, on the round trip of the cipher and on
  the balance of the flow controller.
\<close>

section \<open>Model\<close>

text \<open>
  The network connection underneath: its two directions and whether it has been closed. A cipher
  stream is \<open>None\<close> until \<^verbatim>\<open>SetCipher\<close>. The reader and the writer only hold a threshold besides
  the connection.
\<close>

record MineConn =
  mc_in :: inconn
  mc_out :: outconn
  mc_conn_closed :: bool
  mc_reader_threshold :: int
  mc_writer_threshold :: int
  mc_threshold :: i32
  mc_encrypt :: "CFB8 option"
  mc_decrypt :: "CFB8 option"
  mc_readBuf :: slice
  mc_writeBuf :: slice
  mc_closed :: bool
  mc_flow :: FlowController
  mc_prio :: PriorityQueue

definition NewMineConn :: "inconn \<Rightarrow> outconn \<Rightarrow> mem \<Rightarrow> (MineConn \<times> mem) res" where
  "NewMineConn ci co m =
     (case GetBuffer (bufs m) DefaultBufferSize of
        Inl e \<Rightarrow> Inl e
      | Inr (rb, bp) \<Rightarrow>
          case GetBuffer bp DefaultBufferSize of
            Inl e \<Rightarrow> Inl e
          | Inr (wb, bp) \<Rightarrow>
              case NewPriorityQueue 3 of
                Inl e \<Rightarrow> Inl e
              | Inr pq \<Rightarrow>
                  Inr (\<lparr>mc_in = ci, mc_out = co, mc_conn_closed = False, mc_reader_threshold = -1,
                        mc_writer_threshold = -1, mc_threshold = 0, mc_encrypt = None,
                        mc_decrypt = None, mc_readBuf = rb, mc_writeBuf = wb, mc_closed = False,
                        mc_flow = NewFlowController 1000 (MaxPacketSize * 100),
                        mc_prio = pq\<lparr>pq_cap := [64, 256, 1024]\<rparr>\<rparr>, m\<lparr>bufs := bp\<rparr>))"

definition MineConn_SetThreshold :: "int \<Rightarrow> MineConn \<Rightarrow> MineConn" where
  "MineConn_SetThreshold t mc =
     mc\<lparr>mc_threshold := word_of_int t, mc_reader_threshold := t, mc_writer_threshold := t\<rparr>"

definition MineConn_Threshold :: "MineConn \<Rightarrow> int" where
  "MineConn_Threshold mc = sint (mc_threshold mc)"

definition SetCipher :: "CFB8 option \<Rightarrow> CFB8 option \<Rightarrow> MineConn \<Rightarrow> MineConn" where
  "SetCipher encrypt decrypt mc = mc\<lparr>mc_encrypt := encrypt, mc_decrypt := decrypt\<rparr>"

definition IsClosed :: "MineConn \<Rightarrow> bool" where
  "IsClosed mc = mc_closed mc"

definition MineConn_Close :: "MineConn \<Rightarrow> mem \<Rightarrow> MineConn \<times> mem" where
  "MineConn_Close mc m =
     (if mc_closed mc then (mc, m)
      else (mc\<lparr>mc_closed := True, mc_conn_closed := True\<rparr>,
            m\<lparr>bufs := PutBuffer (PutBuffer (bufs m) (mc_readBuf mc)) (mc_writeBuf mc)\<rparr>))"

text \<open>
  \<^verbatim>\<open>dst := make([]byte, len(src)); stream.XORKeyStream(dst, src)\<close>: the new buffer lies behind the
  source in memory.
\<close>

definition crypt_copy :: "CFB8 \<Rightarrow> byte list \<Rightarrow> (CFB8 \<times> byte list) res" where
  "crypt_copy c src =
     (let n = length src in
      case XORKeyStream n n 0 n (c, src @ replicate n 0) of
        Inl e \<Rightarrow> Inl e
      | Inr (c', mem) \<Rightarrow> Inr (c', window mem n n))"

text \<open>\<^verbatim>\<open>stream.XORKeyStream(buf, buf)\<close>.\<close>

definition crypt_in_place :: "CFB8 \<Rightarrow> byte list \<Rightarrow> (CFB8 \<times> byte list) res" where
  "crypt_in_place c buf = XORKeyStream 0 (length buf) 0 (length buf) (c, buf)"

definition MineConn_ReadPacket :: "zlib \<Rightarrow> MineConn \<Rightarrow> mem \<Rightarrow> Packet res \<times> MineConn \<times> mem" where
  "MineConn_ReadPacket z mc m =
     (if IsClosed mc then (Inl ErrConnectionClosed, mc, m)
      else case ReadPacket z (mc_reader_threshold mc) conn_reader m (mc_in mc) of
        (Inl e, m', ci) \<Rightarrow>
          (case MineConn_Close (mc\<lparr>mc_in := ci\<rparr>) m' of (mc', m'') \<Rightarrow> (Inl e, mc', m''))
      | (Inr p, m', ci) \<Rightarrow>
          let mc = mc\<lparr>mc_in := ci\<rparr> in
          case mc_decrypt mc of
            None \<Rightarrow> (Inr p, mc, m')
          | Some d \<Rightarrow>
              case crypt_copy d (pkt_Data p) of
                Inl e \<Rightarrow> (Inl e, mc, m')
              | Inr (d', dec) \<Rightarrow> (Inr (p\<lparr>pkt_Data := dec\<rparr>), mc\<lparr>mc_decrypt := Some d'\<rparr>, m'))"

definition MineConn_ReadRawPacket :: "MineConn \<Rightarrow> mem \<Rightarrow> RawPacket res \<times> MineConn \<times> mem" where
  "MineConn_ReadRawPacket mc m =
     (if IsClosed mc then (Inl ErrConnectionClosed, mc, m)
      else case ReadRawPacket conn_reader m (mc_in mc) of
        (Inl e, m', ci) \<Rightarrow>
          (case MineConn_Close (mc\<lparr>mc_in := ci\<rparr>) m' of (mc', m'') \<Rightarrow> (Inl e, mc', m''))
      | (Inr rp, m', ci) \<Rightarrow>
          let mc = mc\<lparr>mc_in := ci\<rparr> in
          case (mc_decrypt mc, raw_Buf rp) of
            (Some d, Some s) \<Rightarrow>
              (case crypt_in_place d (vis s) of
                 Inl e \<Rightarrow> (Inl e, mc, m')
               | Inr (d', b) \<Rightarrow>
                   (Inr \<lparr>raw_Buf = Some (s\<lparr>vis := b\<rparr>)\<rparr>, mc\<lparr>mc_decrypt := Some d'\<rparr>, m'))
          | _ \<Rightarrow> (Inr rp, mc, m'))"

text \<open>Encrypting the data of a packet on the way out; shared by the two write methods.\<close>

definition encrypt_data :: "Packet \<Rightarrow> MineConn \<Rightarrow> (Packet \<times> MineConn) res" where
  "encrypt_data p mc =
     (case mc_encrypt mc of
        None \<Rightarrow> Inr (p, mc)
      | Some c \<Rightarrow>
          case crypt_copy c (pkt_Data p) of
            Inl e \<Rightarrow> Inl e
          | Inr (c', enc) \<Rightarrow> Inr (p\<lparr>pkt_Data := enc\<rparr>, mc\<lparr>mc_encrypt := Some c'\<rparr>))"

text \<open>\<open>None\<close>: the call waits for the flow controller.\<close>

definition MineConn_WritePacket ::
  "zlib \<Rightarrow> Packet \<Rightarrow> MineConn \<Rightarrow> mem \<Rightarrow> (go_err option \<times> MineConn \<times> mem) option" where
  "MineConn_WritePacket z p mc m =
     (if IsClosed mc then Some (Some ErrConnectionClosed, mc, m)
      else case encrypt_data p mc of
        Inl e \<Rightarrow> Some (Some e, mc, m)
      | Inr (p, mc) \<Rightarrow>
          case Acquire (int (length (pkt_Data p))) (mc_flow mc) of
            None \<Rightarrow> None
          | Some fl \<Rightarrow>
              case WritePacket z (mc_writer_threshold mc) conn_Write p m (mc_out mc) of
                (err, m', co) \<Rightarrow>
                  Some (err,
                    mc\<lparr>mc_out := co, mc_flow := Release (int (length (pkt_Data p))) fl\<rparr>, m'))"

definition MineConn_WritePacketPriority ::
  "Packet \<Rightarrow> int \<Rightarrow> MineConn \<Rightarrow> unit res \<times> MineConn" where
  "MineConn_WritePacketPriority p priority mc =
     (if IsClosed mc then (Inl ErrConnectionClosed, mc)
      else case encrypt_data p mc of
        Inl e \<Rightarrow> (Inl e, mc)
      | Inr (p, mc) \<Rightarrow>
          let item = \<lparr>pi_Data = p, pi_Priority = priority, pi_Size = length (pkt_Data p)\<rparr> in
          case PriorityQueue_Push item (mc_prio mc) of (r, pq) \<Rightarrow> (r, mc\<lparr>mc_prio := pq\<rparr>))"

text \<open>
  \<^verbatim>\<open>LocalAddr\<close> and \<^verbatim>\<open>RemoteAddr\<close>: \<open>meth\<close> is the method of that name of the network connection when it has
  one that returns a \<^verbatim>\<open>string\<close>; the type assertion fails for every \<^verbatim>\<open>net.Conn\<close>, whose methods return a
  \<^verbatim>\<open>net.Addr\<close>.
\<close>

definition MineConn_LocalAddr :: "gostring option \<Rightarrow> gostring" where
  "MineConn_LocalAddr meth = (case meth of Some addr \<Rightarrow> addr | None \<Rightarrow> [])"

definition MineConn_RemoteAddr :: "gostring option \<Rightarrow> gostring" where
  "MineConn_RemoteAddr meth = (case meth of Some addr \<Rightarrow> addr | None \<Rightarrow> [])"

section \<open>Two ends in step\<close>

text \<open>
  The streams of a direction are in step: both absent, or an encrypting and a decrypting one over
  the same cipher with the same IV.
\<close>

definition in_step :: "CFB8 option \<Rightarrow> CFB8 option \<Rightarrow> bool" where
  "in_step e d = (case (e, d) of
     (None, None) \<Rightarrow> True
   | (Some c, Some f) \<Rightarrow>
       block_ok (cf_block c) \<and> length (cf_iv c) = blk_BlockSize (cf_block c) \<and> \<not> cf_de c \<and>
       cf_block f = cf_block c \<and> cf_iv f = cf_iv c \<and> cf_de f
   | _ \<Rightarrow> False)"

lemma crypt_copy_cfb:
  assumes "block_ok (cf_block c)" and "length (cf_iv c) = blk_BlockSize (cf_block c)"
    and "cfb (cf_block c) (cf_de c) (cf_iv c) p = (iv', out)" and "length out = length p"
  obtains tmp where "crypt_copy c p = Inr (c\<lparr>cf_tmp := tmp, cf_iv := iv'\<rparr>, out)"
proof -
  let ?n = "length p"
  let ?x = "\<lparr>c_blk = cf_block c, c_de = cf_de c, c_iv = cf_iv c, c_mem = p @ replicate ?n 0,
    c_d = ?n, c_s = 0, c_n = ?n\<rparr>"
  show thesis
  proof (cases "?n = 0")
    case True
    then have "iv' = cf_iv c" "out = []" using assms by (auto simp: cfb_def block_ok_def)
    then have "crypt_copy c p = Inr (c\<lparr>cf_tmp := cf_tmp c, cf_iv := iv'\<rparr>, out)"
      using True by (simp add: crypt_copy_def XORKeyStream_def window_def)
    then show thesis by (rule that)
  next
    case False
    then have x: "call_ok ?x" using assms(1,2) by (simp add: call_ok_def noclash_def)
    obtain tmp where "XORKeyStream ?n ?n 0 ?n (c, p @ replicate ?n 0) =
        Inr (c\<lparr>cf_tmp := tmp, cf_iv := iv'\<rparr>, patch (p @ replicate ?n 0) ?n out)"
      using XORKeyStream_cfb [OF x, of c ?n iv' out] assms(3) by (auto simp: msg_def window_def)
    moreover have "window (patch (p @ replicate ?n 0) ?n out) ?n ?n = out"
      using window_patch_same [of ?n out "p @ replicate ?n 0" 0 ?n] assms(4) by simp
    ultimately show thesis by (intro that) (simp add: crypt_copy_def Let_def)
  qed
qed

text \<open>Encrypting at one end and decrypting at the other.\<close>

lemma crypt_copy_roundtrip:
  assumes "in_step (Some c) (Some d)" and "crypt_copy c p = Inr (c', enc)"
  obtains d' where "crypt_copy d enc = Inr (d', p)" "in_step (Some c') (Some d')" "length enc = length p"
proof -
  from assms(1) have s: "block_ok (cf_block c)" "length (cf_iv c) = blk_BlockSize (cf_block c)" "\<not> cf_de c"
    "cf_block d = cf_block c" "cf_iv d = cf_iv c" "cf_de d" by (auto simp: in_step_def)
  obtain iv' out where C: "cfb (cf_block c) False (cf_iv c) p = (iv', out)" by force
  note rt = cfb_roundtrip [OF C]
  obtain tmp where c': "crypt_copy c p = Inr (c\<lparr>cf_tmp := tmp, cf_iv := iv'\<rparr>, out)"
    using crypt_copy_cfb [OF s(1,2), of p iv' out] C rt(2) s(3) by auto
  have bd: "block_ok (cf_block d)" "length (cf_iv d) = blk_BlockSize (cf_block d)" using s by simp_all
  obtain tmp' where d': "crypt_copy d out = Inr (d\<lparr>cf_tmp := tmp', cf_iv := iv'\<rparr>, p)"
    using crypt_copy_cfb [OF bd, of out iv' p] rt s by auto
  have "length iv' = blk_BlockSize (cf_block c)" by (rule cfb_iv_length [OF s(1,2) C])
  with c' d' s assms(2) rt(2) show thesis by (intro that [of "d\<lparr>cf_tmp := tmp', cf_iv := iv'\<rparr>"]) (auto simp: in_step_def)
qed

lemma Release_Acquire: "Acquire n f = Some f' \<Longrightarrow> Release n f' = f"
  by (auto simp: Acquire_def Release_def fc_add_def split: if_splits)

lemma encrypt_data_frame:
  "encrypt_data p mc = Inr (q, mc') \<Longrightarrow>
     mc_out mc' = mc_out mc \<and> mc_flow mc' = mc_flow mc \<and> mc_writer_threshold mc' = mc_writer_threshold mc \<and>
     mc_closed mc' = mc_closed mc \<and> mc_in mc' = mc_in mc \<and> pkt_ID q = pkt_ID p \<and> mc_prio mc' = mc_prio mc"
  by (auto simp: encrypt_data_def split: option.splits sum.splits)

text \<open>Decrypting the data of a packet on the way in.\<close>

definition decrypt_data :: "CFB8 option \<Rightarrow> Packet \<Rightarrow> (Packet \<times> CFB8 option) res" where
  "decrypt_data d q =
     (case d of
        None \<Rightarrow> Inr (q, None)
      | Some c \<Rightarrow>
          case crypt_copy c (pkt_Data q) of
            Inl e \<Rightarrow> Inl e
          | Inr (c', dec) \<Rightarrow> Inr (q\<lparr>pkt_Data := dec\<rparr>, Some c'))"

text \<open>What one end encrypts, the other end, when in step, decrypts.\<close>

lemma encrypt_decrypt:
  assumes "in_step (mc_encrypt a) d" and "encrypt_data p a = Inr (q, a')"
  shows "length (pkt_Data q) = length (pkt_Data p) \<and>
    (\<exists>d'. decrypt_data d q = Inr (p, d') \<and> in_step (mc_encrypt a') d')"
proof (cases "mc_encrypt a")
  case None
  with assms show ?thesis by (auto simp: encrypt_data_def decrypt_data_def in_step_def split: option.splits)
next
  case (Some c)
  then obtain d0 where d: "d = Some d0" using assms(1) by (auto simp: in_step_def split: option.splits)
  from Some assms(2) obtain c' enc where c: "crypt_copy c (pkt_Data p) = Inr (c', enc)"
    and q: "q = p\<lparr>pkt_Data := enc\<rparr>" "mc_encrypt a' = Some c'"
    by (auto simp: encrypt_data_def split: sum.splits)
  obtain d' where "crypt_copy d0 enc = Inr (d', pkt_Data p)" "in_step (Some c') (Some d')" "length enc = length (pkt_Data p)"
    using crypt_copy_roundtrip [OF _ c] assms(1) Some d by metis
  with d q show ?thesis by (auto simp: decrypt_data_def)
qed

text \<open>What a successful write puts on the network.\<close>

lemma MineConn_WritePacket_sends:
  assumes "\<not> IsClosed a" and "MineConn_WritePacket z p a m = Some (None, a', m')"
  obtains q a1 fb co where "encrypt_data p a = Inr (q, a1)" "frame_body z (mc_writer_threshold a) q = Inr fb"
    "sent co = sent (mc_out a) @ frame fb" "a' = a1\<lparr>mc_out := co\<rparr>"
proof -
  from assms obtain q a1 fl co where e: "encrypt_data p a = Inr (q, a1)"
    and aq: "Acquire (int (length (pkt_Data q))) (mc_flow a1) = Some fl"
    and w: "WritePacket z (mc_writer_threshold a1) conn_Write q m (mc_out a1) = (None, m', co)"
    and a': "a' = a1\<lparr>mc_out := co, mc_flow := Release (int (length (pkt_Data q))) fl\<rparr>"
    by (auto simp: MineConn_WritePacket_def split: sum.splits option.splits prod.splits)
  note fr = encrypt_data_frame [OF e]
  have s: "sends conn_Write (map_sum id frame (frame_body z (mc_writer_threshold a) q)) m (mc_out a) (None, m', co)"
    using WritePacket_frame [of conn_Write z "mc_writer_threshold a" q m "mc_out a"] w fr by simp
  then obtain fb where fb: "frame_body z (mc_writer_threshold a) q = Inr fb"
    by (cases "frame_body z (mc_writer_threshold a) q") (auto simp: sends_def)
  with s have "conn_Write (frame fb) (mc_out a) = ((fst (fst (conn_Write (frame fb) (mc_out a))), None), co)"
    by (simp add: sends_def) (metis prod.collapse)
  from conn_snk.write_all [OF _ this] have "sent co = sent (mc_out a) @ frame fb" by simp
  moreover have "a' = a1\<lparr>mc_out := co\<rparr>" using a' Release_Acquire [OF aq] by simp
  ultimately show thesis by (intro that [OF e fb])
qed

text \<open>What the other end makes of a frame.\<close>

lemma MineConn_ReadPacket_frame:
  assumes "\<not> IsClosed b" and "pending (mc_in b) = frame fb @ rest" and "int (length fb) \<le> MaxPacketSize"
    and "parse_body z (mc_reader_threshold b) fb = Inr q" and "decrypt_data (mc_decrypt b) q = Inr (p, d)"
  shows "\<exists>ci m'. MineConn_ReadPacket z b m = (Inr p, b\<lparr>mc_in := ci, mc_decrypt := d\<rparr>, m') \<and> pending ci = rest"
proof -
  have nb: "next_body (pending (mc_in b)) (fin (mc_in b)) = Inr (fb, rest)"
    using next_body_frame [OF assms(3)] assms(2) by simp
  have "fst (ReadPacket z (mc_reader_threshold b) conn_reader m (mc_in b)) = Inr q"
    using conn_src.ReadPacket_result [of z "mc_reader_threshold b" m "mc_in b"] nb assms(4) by simp
  then obtain m' ci where r: "ReadPacket z (mc_reader_threshold b) conn_reader m (mc_in b) = (Inr q, m', ci)"
    by (metis prod.collapse)
  with conn_src.ReadPacket_rest [OF nb, of z "mc_reader_threshold b" m] have "pending ci = rest" by simp
  moreover have "MineConn_ReadPacket z b m = (Inr p, b\<lparr>mc_in := ci, mc_decrypt := d\<rparr>, m')"
    using r assms(1,5) by (cases b) (auto simp: MineConn_ReadPacket_def decrypt_data_def split: option.splits sum.splits)
  ultimately show ?thesis by blast
qed

text \<open>Sending and receiving put together: what a successful write sends is a frame that the other end reads as the packet.\<close>

lemma MineConn_WritePacket_frame:
  assumes "zlib_lossless z" and "\<not> IsClosed a" and "in_step (mc_encrypt a) d"
    and "0 \<le> mc_writer_threshold a \<longleftrightarrow> 0 \<le> t"
    and "MineConn_WritePacket z p a m = Some (None, a', m')"
    and "int (length (sent (mc_out a'))) \<le> int (length (sent (mc_out a))) + MaxPacketSize"
    and "int (length (pkt_Data p)) + 5 \<le> MaxCompressedSize"
  obtains fb q d' co e where "sent co = sent (mc_out a) @ frame fb" "int (length fb) \<le> MaxPacketSize"
    "parse_body z t fb = Inr q" "decrypt_data d q = Inr (p, d')" "in_step e d'"
    "a' = a\<lparr>mc_encrypt := e, mc_out := co\<rparr>"
proof -
  obtain q a1 fb co where e: "encrypt_data p a = Inr (q, a1)" and fb: "frame_body z (mc_writer_threshold a) q = Inr fb"
    and s: "sent co = sent (mc_out a) @ frame fb" and a': "a' = a1\<lparr>mc_out := co\<rparr>"
    by (rule MineConn_WritePacket_sends [OF assms(2,5)])
  note ed = encrypt_decrypt [OF assms(3) e]
  then obtain d' where d: "decrypt_data d q = Inr (p, d')" "in_step (mc_encrypt a1) d'" by blast
  have "int (length (payload q)) \<le> MaxCompressedSize"
    using assms(7) ed length_leb_i32 [of "pkt_ID q"] by (simp add: payload_def)
  from parse_frame_body [OF assms(1) fb this assms(4)] have pb: "parse_body z t fb = Inr q" .
  have l: "int (length fb) \<le> MaxPacketSize" using assms(6) s a' by (simp add: frame_def)
  have "a1 = a\<lparr>mc_encrypt := mc_encrypt a1\<rparr>"
    using e by (auto simp: encrypt_data_def split: option.splits sum.splits)
  then have "a' = a\<lparr>mc_encrypt := mc_encrypt a1, mc_out := co\<rparr>" using a' by metis
  then show thesis by (rule that [OF s l pb d])
qed

section \<open>Properties\<close>

text \<open>A connection for examples: \<open>ci\<close> is what it will receive.\<close>

definition demo_conn :: "byte list \<Rightarrow> CFB8 option \<Rightarrow> CFB8 option \<Rightarrow> MineConn" where
  "demo_conn ci e d =
     \<lparr>mc_in = \<lparr>pending = ci, fin = EOF\<rparr>, mc_out = \<lparr>sent = [], room = None, ofail = EOF\<rparr>,
      mc_conn_closed = False, mc_reader_threshold = -1, mc_writer_threshold = -1, mc_threshold = 0,
      mc_encrypt = e, mc_decrypt = d, mc_readBuf = \<lparr>sid = 0, vis = [0], hid = []\<rparr>,
      mc_writeBuf = \<lparr>sid = 1, vis = [0], hid = []\<rparr>, mc_closed = False,
      mc_flow = NewFlowController 1000 1000,
      mc_prio = \<lparr>pq_levels = [[], [], []], pq_cap = [64, 256, 1024], pq_notify = False, pq_closed = False\<rparr>\<rparr>"



text \<open>\<^verbatim>\<open>Close\<close> is idempotent: the buffers go back to the pool and the network connection is closed on
  the first call only, and the pool stays consistent.\<close>

theorem MineConn_Close_idempotent:
  assumes "MineConn_Close mc m = (mc', m')" and "pool_ok (bufs m)"
    and "\<not> mc_closed mc \<longrightarrow> owned (bufs m) (sid (mc_readBuf mc)) \<and> owned (bufs m) (sid (mc_writeBuf mc)) \<and>
      sid (mc_readBuf mc) \<noteq> sid (mc_writeBuf mc)"
  shows "IsClosed mc' \<and> MineConn_Close mc' m' = (mc', m') \<and> pool_ok (bufs m')"
  using assms PutBuffer_ok [of "bufs m" "mc_readBuf mc"]
    PutBuffer_ok [of "PutBuffer (bufs m) (mc_readBuf mc)" "mc_writeBuf mc"]
    PutBuffer_keeps_owned [of "bufs m" "sid (mc_writeBuf mc)" "mc_readBuf mc"]
  by (auto simp: MineConn_Close_def IsClosed_def split: if_splits)

theorem MineConn_Close_idempotent_witness:
  "\<exists>mc' m'. MineConn_Close (demo_conn [] None None) (empty_mem\<lparr>bufs := \<lparr>chan = [], next_sid = 2\<rparr>\<rparr>) = (mc', m') \<and>
     IsClosed mc' \<and> pool_ok (bufs m')"
proof -
  obtain mc' m' where c: "MineConn_Close (demo_conn [] None None) (empty_mem\<lparr>bufs := \<lparr>chan = [], next_sid = 2\<rparr>\<rparr>) = (mc', m')"
    by force
  from MineConn_Close_idempotent [OF c] c show ?thesis
    by (simp add: pool_ok_def owned_def demo_conn_def empty_mem_def)
qed



text \<open>A packet written with a priority is queued but never sent: the call changes the cipher stream
  and the queue only, and no other operation of the connection takes anything out of the queue.\<close>

theorem MineConn_priority_never_sent:
  assumes "MineConn_WritePacketPriority p pr mc = (r, mc1)"
  shows "mc_out mc1 = mc_out mc \<and>
    (\<forall>z q m e mc2 m2. MineConn_WritePacket z q mc1 m = Some (e, mc2, m2) \<longrightarrow> mc_prio mc2 = mc_prio mc1) \<and>
    (\<forall>z m e mc2 m2. MineConn_ReadPacket z mc1 m = (e, mc2, m2) \<longrightarrow> mc_prio mc2 = mc_prio mc1) \<and>
    (\<forall>m e mc2 m2. MineConn_ReadRawPacket mc1 m = (e, mc2, m2) \<longrightarrow> mc_prio mc2 = mc_prio mc1) \<and>
    (\<forall>m mc2 m2. MineConn_Close mc1 m = (mc2, m2) \<longrightarrow> mc_prio mc2 = mc_prio mc1)"
  using assms
  by (auto simp: MineConn_WritePacketPriority_def MineConn_WritePacket_def MineConn_ReadPacket_def
      MineConn_ReadRawPacket_def MineConn_Close_def Let_def dest!: encrypt_data_frame
      split: if_splits sum.splits option.splits prod.splits)

theorem MineConn_priority_never_sent_witness:
  "\<exists>mc1. MineConn_WritePacketPriority \<lparr>pkt_ID = 1, pkt_Data = [2]\<rparr> Urgent (demo_conn [] None None) = (Inr (), mc1) \<and>
     mc_out mc1 = mc_out (demo_conn [] None None)"
proof -
  obtain mc1 where m: "MineConn_WritePacketPriority \<lparr>pkt_ID = 1, pkt_Data = [2]\<rparr> Urgent (demo_conn [] None None) = (Inr (), mc1)"
    by (simp add: MineConn_WritePacketPriority_def demo_conn_def encrypt_data_def PriorityQueue_Push_def
        IsClosed_def Urgent_def Let_def)
  with MineConn_priority_never_sent [OF m] show ?thesis by auto
qed

text \<open>A new connection reports a threshold of 0, which means that everything is compressed, while
  its reader and writer work without compression.\<close>

theorem NewMineConn_threshold:
  assumes "NewMineConn ci co m = Inr (mc, m')"
  shows "MineConn_Threshold mc = 0 \<and> mc_reader_threshold mc = -1 \<and> mc_writer_threshold mc = -1"
  using assms by (auto simp: NewMineConn_def MineConn_Threshold_def split: sum.splits)

theorem NewMineConn_threshold_witness:
  "\<exists>mc m'. NewMineConn \<lparr>pending = [], fin = EOF\<rparr> \<lparr>sent = [], room = None, ofail = EOF\<rparr> empty_mem = Inr (mc, m') \<and>
     MineConn_Threshold mc = 0 \<and> mc_reader_threshold mc = -1"
proof -
  obtain mc m' where n: "NewMineConn \<lparr>pending = [], fin = EOF\<rparr> \<lparr>sent = [], room = None, ofail = EOF\<rparr> empty_mem = Inr (mc, m')"
    by (simp add: NewMineConn_def empty_mem_def GetBuffer_def make_slice_def DefaultBufferSize_def
        BufferPoolMax_def NewPriorityQueue_def)
  with NewMineConn_threshold [OF n] show ?thesis by auto
qed

text \<open>The bytes a raw read delivers.\<close>

definition raw_bytes :: "RawPacket res \<times> 'a \<Rightarrow> byte list option" where
  "raw_bytes x = (case fst x of Inl _ \<Rightarrow> None | Inr rp \<Rightarrow> map_option vis (raw_Buf rp))"

text \<open>Raw reads of an encrypted connection are broken. \<^verbatim>\<open>WritePacket\<close> encrypts the data of a packet
  only, but \<^verbatim>\<open>ReadRawPacket\<close> runs the whole frame through the stream, length and identifier included,
  in place: the frame \<open>[3, 7, 81, 6]\<close> of packet 7 with data \<open>[10, 5]\<close> does not come out as
  \<open>[3, 7, 10, 5]\<close>, although \<^verbatim>\<open>ReadPacket\<close> reads the packet correctly.\<close>

theorem MineConn_ReadRawPacket_garbles:
  "raw_bytes (MineConn_ReadRawPacket (demo_conn [3, 7, 81, 6] None (Some (NewCFB8Decrypt toy_block [1, 2]))) empty_mem) =
     Some [88, 4, 83, 3] \<and>
   fst (MineConn_ReadPacket stored_zlib (demo_conn [3, 7, 81, 6] None (Some (NewCFB8Decrypt toy_block [1, 2]))) empty_mem) =
     Inr \<lparr>pkt_ID = 7, pkt_Data = [10, 5]\<rparr>"
  by code_simp

end
