(* ===== verification/Relay.thy ===== *)
theory Relay
  imports Conn
begin

text \<open>
  \<^verbatim>\<open>tunnel/relay.go\<close>: the packet relay between two endpoints (the byte relays follow in
  \<open>Byte_Relay\<close>). The packet relay is a pair of goroutines; its steps in any interleaving are the relation \<open>relay_step\<close>. The locale
  \<open>packet_endpoint\<close> states what it needs of its endpoints, and is interpreted on \<^verbatim>\<open>conn.MineConn\<close>. The
  theorems: orderly shutdown of both directions, and what the relay sends for a packet it reads.
\<close>

section \<open>Model\<close>

text \<open>
  The interface \<^verbatim>\<open>packetReaderWriter\<close> over an endpoint state \<open>'e\<close> and the shared pools. \<open>None\<close> from
  \<open>prw_WritePacket\<close>: the call blocks.
\<close>

record 'e prw =
  prw_ReadRawPacket :: "'e \<Rightarrow> mem \<Rightarrow> RawPacket res \<times> 'e \<times> mem"
  prw_WritePacket :: "Packet \<Rightarrow> 'e \<Rightarrow> mem \<Rightarrow> (go_err option \<times> 'e \<times> mem) option"
  prw_Close :: "'e \<Rightarrow> mem \<Rightarrow> 'e \<times> mem"

datatype side = Client | Server

fun other :: "side \<Rightarrow> side" where
  "other Client = Server"
| "other Server = Client"

lemma other_simps [simp]: "other (other s) = s" "other s \<noteq> s" "s \<noteq> other s"
  by (cases s; simp)+

lemma side_cases: "x = s \<or> x = other s"
  by (cases x; cases s) auto

text \<open>Where the goroutine of a direction stands: not started, before the \<^verbatim>\<open>closed\<close> check, at the read, ended.\<close>

datatype relay_pc = Idle | Top | Reading | Done

text \<open>
  The two endpoints, the counter of the packets forwarded from a side (\<^verbatim>\<open>ClientToServer\<close> and
  \<^verbatim>\<open>ServerToClient\<close>) and the goroutine that reads from a side are indexed by the side.
\<close>

record 'e Relay =
  r_conn :: "side \<Rightarrow> 'e"
  r_closed :: bool
  r_count :: "side \<Rightarrow> i64"
  r_Errors :: i64
  r_at :: "side \<Rightarrow> relay_pc"
  r_mem :: mem

definition NewRelay :: "'e \<Rightarrow> 'e \<Rightarrow> mem \<Rightarrow> 'e Relay" where
  "NewRelay client server m =
     \<lparr>r_conn = (\<lambda>s. case s of Client \<Rightarrow> client | Server \<Rightarrow> server), r_closed = False, r_count = (\<lambda>_. 0),
      r_Errors = 0, r_at = (\<lambda>_. Idle), r_mem = m\<rparr>"

definition Relay_Start :: "'e Relay \<Rightarrow> 'e Relay" where
  "Relay_Start r = r\<lparr>r_at := (\<lambda>_. Top)\<rparr>"

text \<open>\<^verbatim>\<open>Wait\<close> returns once both goroutines have ended.\<close>

definition Wait_returns :: "'e Relay \<Rightarrow> bool" where
  "Wait_returns r \<longleftrightarrow> r_at r Client = Done \<and> r_at r Server = Done"

definition close_side :: "'e prw \<Rightarrow> side \<Rightarrow> 'e Relay \<Rightarrow> 'e Relay" where
  "close_side P s r =
     (case prw_Close P (r_conn r s) (r_mem r) of (e, m) \<Rightarrow> r\<lparr>r_conn := (r_conn r)(s := e), r_mem := m\<rparr>)"

definition closeBoth :: "'e prw \<Rightarrow> 'e Relay \<Rightarrow> 'e Relay" where
  "closeBoth P r =
     (if r_closed r then r else close_side P Server (close_side P Client (r\<lparr>r_closed := True\<rparr>)))"

text \<open>\<^verbatim>\<open>return\<close> in the loop: the deferred calls run.\<close>

definition relay_return :: "'e prw \<Rightarrow> side \<Rightarrow> 'e Relay \<Rightarrow> 'e Relay" where
  "relay_return P s r = (let r = closeBoth P r in r\<lparr>r_at := (r_at r)(s := Done)\<rparr>)"

definition relay_check :: "'e prw \<Rightarrow> side \<Rightarrow> 'e Relay \<Rightarrow> 'e Relay" where
  "relay_check P s r =
     (if r_closed r then relay_return P s r else r\<lparr>r_at := (r_at r)(s := Reading)\<rparr>)"

definition count_error :: "'e Relay \<Rightarrow> 'e Relay" where
  "count_error r = (if r_closed r then r else r\<lparr>r_Errors := r_Errors r + 1\<rparr>)"

text \<open>
  The rest of a round of the loop for the goroutine that reads from side \<open>s\<close>. An empty or absent buffer
  makes \<^verbatim>\<open>rp.Buf[0]\<close> panic.
\<close>

definition relay_body :: "'e prw \<Rightarrow> side \<Rightarrow> 'e Relay \<Rightarrow> (unit res \<times> 'e Relay) option" where
  "relay_body P s r =
     (case prw_ReadRawPacket P (r_conn r s) (r_mem r) of
        (Inl err, e, m) \<Rightarrow>
          let r = r\<lparr>r_conn := (r_conn r)(s := e), r_mem := m\<rparr> in
          Some (Inr (), relay_return P s (if err \<noteq> EOF then count_error r else r))
      | (Inr rp, e, m) \<Rightarrow>
          let r = r\<lparr>r_conn := (r_conn r)(s := e), r_mem := m\<rparr> in
          case raw_Buf rp of
            None \<Rightarrow> Some (Inl Panic, relay_return P s r)
          | Some buf \<Rightarrow>
              case vis buf of
                [] \<Rightarrow> Some (Inl Panic, relay_return P s r)
              | b # bs \<Rightarrow>
                  let p = \<lparr>pkt_ID = ucast b, pkt_Data = bs\<rparr> in
                  case prw_WritePacket P p (r_conn r (other s)) (r_mem r) of
                    None \<Rightarrow> None
                  | Some (werr, e, m) \<Rightarrow>
                      let r = r\<lparr>r_conn := (r_conn r)(other s := e), r_mem := m\<rparr> in
                      case werr of
                        Some _ \<Rightarrow>
                          let r = count_error r in
                          Some (Inr (), relay_return P s (r\<lparr>r_mem := snd (RawPacket_Release (r_mem r) rp)\<rparr>))
                      | None \<Rightarrow>
                          let r = r\<lparr>r_count := (r_count r)(s := r_count r s + 1)\<rparr> in
                          Some (Inr (), r\<lparr>r_mem := snd (RawPacket_Release (r_mem r) rp), r_at := (r_at r)(s := Top)\<rparr>))"

text \<open>The two goroutines take turns in any order.\<close>

inductive relay_step :: "'e prw \<Rightarrow> 'e Relay \<Rightarrow> 'e Relay \<Rightarrow> bool" for P where
  check: "r_at r s = Top \<Longrightarrow> relay_step P r (relay_check P s r)"
| body: "r_at r s = Reading \<Longrightarrow> relay_body P s r = Some (x, r') \<Longrightarrow> relay_step P r r'"

text \<open>A connection the byte relays copy between, an \<^verbatim>\<open>io.ReadWriteCloser\<close>.\<close>

record rwc =
  rwc_in :: inconn
  rwc_out :: outconn
  rwc_closed :: bool

section \<open>Shutting down\<close>

text \<open>What the relay needs of its endpoints: \<^verbatim>\<open>Close\<close> closes, and a closed endpoint refuses everything.\<close>

locale packet_endpoint =
  fixes P :: "'e prw"
    and is_closed :: "'e \<Rightarrow> bool"
  assumes close_closed: "is_closed (fst (prw_Close P e m))"
    and closed_close: "is_closed e \<Longrightarrow> prw_Close P e m = (e, m)"
    and closed_read: "is_closed e \<Longrightarrow> prw_ReadRawPacket P e m = (Inl ErrConnectionClosed, e, m)"
    and closed_write: "is_closed e \<Longrightarrow> prw_WritePacket P p e m = Some (Some ErrConnectionClosed, e, m)"
begin

definition relay_inv :: "'e Relay \<Rightarrow> bool" where
  "relay_inv r \<longleftrightarrow> (r_closed r \<longrightarrow> (\<forall>s. is_closed (r_conn r s))) \<and> (\<forall>s. r_at r s = Done \<longrightarrow> r_closed r)"

lemma closeBoth_closed: "r_closed (closeBoth P r) \<and> r_at (closeBoth P r) = r_at r"
  by (auto simp: closeBoth_def close_side_def split: prod.splits)

lemma closeBoth_ends: "relay_inv r \<Longrightarrow> is_closed (r_conn (closeBoth P r) s)"
  using close_closed by (cases s) (auto simp: closeBoth_def close_side_def relay_inv_def split: prod.splits; metis fst_conv)+

lemma relay_return_inv: "relay_inv r \<Longrightarrow> relay_inv (relay_return P s r)"
  using closeBoth_closed [of r] closeBoth_ends [of r] by (auto simp: relay_return_def relay_inv_def Let_def)

lemma relay_inv_cong:
  "relay_inv r \<Longrightarrow> r_closed r' = r_closed r \<Longrightarrow> (\<And>s. r_at r' s = Done \<Longrightarrow> r_at r s = Done) \<Longrightarrow>
   (\<And>s. is_closed (r_conn r s) \<Longrightarrow> is_closed (r_conn r' s)) \<Longrightarrow> relay_inv r'"
  by (auto simp: relay_inv_def)

lemma count_error_inv [simp]: "relay_inv (count_error r) = relay_inv r"
  by (simp add: relay_inv_def count_error_def)

lemma relay_body_inv:
  assumes "relay_inv r" and "r_at r s = Reading" and "relay_body P s r = Some (x, r')"
  shows "relay_inv r'"
proof -
  obtain y e m where rd: "prw_ReadRawPacket P (r_conn r s) (r_mem r) = (y, e, m)" by (metis prod.exhaust)
  let ?r = "r\<lparr>r_conn := (r_conn r)(s := e), r_mem := m\<rparr>"
  have i: "relay_inv ?r"
    using rd closed_read [of "r_conn r s" "r_mem r"] by (intro relay_inv_cong [OF assms(1)]) (auto split: if_splits)
  show ?thesis
  proof (cases "\<exists>rp buf b bs. y = Inr rp \<and> raw_Buf rp = Some buf \<and> vis buf = b # bs")
    case False
    with assms(3) rd i show ?thesis
      by (auto simp: relay_body_def Let_def intro!: relay_return_inv split: sum.splits option.splits list.splits)
  next
    case True
    then obtain rp buf b bs where y: "y = Inr rp" "raw_Buf rp = Some buf" "vis buf = b # bs" by blast
    let ?p = "\<lparr>pkt_ID = ucast b, pkt_Data = bs\<rparr>"
    obtain werr e' m' where w: "prw_WritePacket P ?p (r_conn ?r (other s)) m = Some (werr, e', m')"
      using assms(3) rd y by (auto simp: relay_body_def Let_def split: option.splits)
    let ?r2 = "?r\<lparr>r_conn := (r_conn ?r)(other s := e'), r_mem := m'\<rparr>"
    have i2: "relay_inv ?r2"
      using w closed_write [of "r_conn ?r (other s)" ?p m]
      by (intro relay_inv_cong [OF i]) (auto split: if_splits)
    show ?thesis
    proof (cases werr)
      case None
      with assms(3) rd y w have "r' = ?r2\<lparr>r_count := (r_count r)(s := r_count r s + 1),
          r_mem := snd (RawPacket_Release m' rp), r_at := (r_at r)(s := Top)\<rparr>"
        by (simp add: relay_body_def Let_def)
      then have "r_closed r' = r_closed ?r2" "r_conn r' = r_conn ?r2" "r_at r' = (r_at ?r2)(s := Top)" by simp_all
      then show ?thesis by (intro relay_inv_cong [OF i2]) (simp_all split: if_splits)
    next
      case (Some err)
      have "relay_inv ((count_error ?r2)\<lparr>r_mem := mm\<rparr>)" for mm
        using i2 unfolding relay_inv_def count_error_def by auto
      with assms(3) rd y w Some show ?thesis
        by (auto simp: relay_body_def Let_def intro!: relay_return_inv)
    qed
  qed
qed

lemma relay_step_inv: "relay_step P r r' \<Longrightarrow> relay_inv r \<Longrightarrow> relay_inv r'"
proof (induction rule: relay_step.induct)
  case (check r s)
  then show ?case
    by (auto simp: relay_check_def intro: relay_return_inv relay_inv_cong split: if_splits)
next
  case (body r s x r')
  then show ?case by (metis relay_body_inv)
qed

lemma shutdown:
  assumes "relay_inv r" and "r_closed r"
  shows "relay_check P s r = r\<lparr>r_at := (r_at r)(s := Done)\<rparr>"
    and "relay_body P s r = Some (Inr (), r\<lparr>r_at := (r_at r)(s := Done)\<rparr>)"
proof -
  have c: "is_closed (r_conn r s)" using assms by (simp add: relay_inv_def)
  show "relay_check P s r = r\<lparr>r_at := (r_at r)(s := Done)\<rparr>"
    using assms(2) by (simp add: relay_check_def relay_return_def closeBoth_def)
  show "relay_body P s r = Some (Inr (), r\<lparr>r_at := (r_at r)(s := Done)\<rparr>)"
    using assms(2) by (simp add: relay_body_def closed_read [OF c] count_error_def relay_return_def closeBoth_def)
qed

end

sublocale packet_endpoint \<subseteq> runs: step_invariant "relay_step P" "\<lambda>r. \<exists>c s m. r = Relay_Start (NewRelay c s m)" relay_inv
proof
  show "relay_inv r" if "\<exists>c s m. r = Relay_Start (NewRelay c s m)" for r
    using that by (auto simp: relay_inv_def Relay_Start_def NewRelay_def)
qed (rule relay_step_inv)

text \<open>\<^verbatim>\<open>conn.MineConn\<close> implements the interface.\<close>

definition mc_prw :: "zlib \<Rightarrow> MineConn prw" where
  "mc_prw z = \<lparr>prw_ReadRawPacket = MineConn_ReadRawPacket, prw_WritePacket = MineConn_WritePacket z,
     prw_Close = MineConn_Close\<rparr>"

interpretation mcr: packet_endpoint "mc_prw z" IsClosed for z
  by unfold_locales
    (auto simp: mc_prw_def MineConn_Close_def MineConn_ReadRawPacket_def MineConn_WritePacket_def IsClosed_def)

section \<open>Properties\<close>

lemma small_casts:
  assumes "n < 128"
  shows "(ucast (word_of_nat n :: byte) :: i32) = word_of_nat n"
    and "(ucast (word_of_nat n :: i32) :: byte) = word_of_nat n"
    and "(word_of_nat n :: i32) < 128"
proof -
  have a: "unat (word_of_nat n :: byte) = n" "unat (word_of_nat n :: i32) = n"
    using assms by (simp_all add: unat_of_nat take_bit_nat_eq_self)
  show "(ucast (word_of_nat n :: byte) :: i32) = word_of_nat n"
    using a assms by (intro word_unat_eq_iff [THEN iffD2]) (simp add: unsigned_ucast_eq take_bit_nat_eq_self)
  show "(ucast (word_of_nat n :: i32) :: byte) = word_of_nat n"
    using a assms by (intro word_unat_eq_iff [THEN iffD2]) (simp add: unsigned_ucast_eq take_bit_nat_eq_self)
  show "(word_of_nat n :: i32) < 128"
    using a assms by (simp add: word_less_nat_alt)
qed

lemma frame_single:
  assumes "length fb < 128"
  shows "frame fb = word_of_nat (length fb) # fb"
proof -
  have "leb (word_of_nat (length fb) :: i32) = [word_of_nat (length fb)]"
    using small_casts [OF assms] by (simp add: leb_i32)
  then show ?thesis by (simp add: frame_def)
qed



text \<open>The relay does not forward a packet but a packet wrapped in another: a frame read from one side
  (shorter than 128 bytes, neither side encrypting or compressing) is sent to the other as the body of
  a second frame, so that the receiver finds the length prefix where the packet ID should be.\<close>

theorem Relay_reframes:
  assumes "\<not> IsClosed (r_conn r d)" and "mc_decrypt (r_conn r d) = None"
    and "pending (mc_in (r_conn r d)) = frame (payload p) @ rest" and "length (payload p) < 128"
    and "\<not> IsClosed (r_conn r (other d))" and "mc_encrypt (r_conn r (other d)) = None"
    and "mc_writer_threshold (r_conn r (other d)) < 0" and "room (mc_out (r_conn r (other d))) = None"
    and "\<not> fc_full (mc_flow (r_conn r (other d)))"
  shows "\<exists>r'. relay_body (mc_prw z) d r = Some (Inr (), r') \<and> r_count r' d = r_count r d + 1 \<and>
    pending (mc_in (r_conn r' d)) = rest \<and>
    sent (mc_out (r_conn r' (other d))) = sent (mc_out (r_conn r (other d))) @ frame (frame (payload p)) \<and>
    parse_payload (frame (payload p)) = Inr \<lparr>pkt_ID = word_of_nat (length (payload p)), pkt_Data = payload p\<rparr>"
proof -
  let ?c = "r_conn r d" and ?s = "r_conn r (other d)" and ?n = "length (payload p)"
  have fb: "frame (payload p) = word_of_nat ?n # payload p" by (rule frame_single [OF assms(4)])
  let ?q = "\<lparr>pkt_ID = word_of_nat ?n, pkt_Data = payload p\<rparr>"
  have q: "payload ?q = frame (payload p)" by (simp add: payload_def frame_def)
  have nb: "next_body (pending (mc_in ?c)) (fin (mc_in ?c)) = Inr (payload p, rest)"
    using assms(3,4) next_body_frame [of "payload p" rest] by (simp add: MaxPacketSize_def)
  obtain s m1 ci where rd: "ReadRawPacket conn_reader (r_mem r) (mc_in ?c) = (Inr \<lparr>raw_Buf = Some s\<rparr>, m1, ci)"
    "vis s = frame (payload p)" "pending ci = rest"
    using conn_src.ReadRawPacket_result [where r = "mc_in ?c" and m = "r_mem r"] nb assms(3)
    by (cases "ReadRawPacket conn_reader (r_mem r) (mc_in ?c)") auto
  let ?w = "WritePacket z (mc_writer_threshold ?s) conn_Write ?q m1 (mc_out ?s)"
  obtain m2 where wr: "?w = (None, m2, (mc_out ?s)\<lparr>sent := sent (mc_out ?s) @ frame (frame (payload p))\<rparr>)"
    using WritePacket_plain [OF assms(7), of conn_Write ?q m1 "mc_out ?s" z] assms(8)
    by (cases ?w) (auto simp: sends_def q conn_Write_def)
  have u: "(ucast (word_of_nat ?n :: byte) :: i32) = word_of_nat ?n"
    by (rule small_casts(1) [OF assms(4)])
  have "parse_payload (frame (payload p)) = Inr ?q" using parse_payload_payload [of ?q] by (simp only: q)
  moreover obtain fl where "Acquire (int ?n) (mc_flow ?s) = Some fl"
    using assms(9) by (auto simp: Acquire_def)
  ultimately show ?thesis
    using assms(1,2,5,6) rd wr
    by (simp add: relay_body_def mc_prw_def MineConn_ReadRawPacket_def MineConn_WritePacket_def
        encrypt_data_def fb u Let_def)
qed

theorem Relay_reframes_witness:
  "\<exists>r'. relay_body (mc_prw stored_zlib) Client
       (Relay_Start (NewRelay (demo_conn [3, 7, 10, 5] None None) (demo_conn [] None None) empty_mem)) = Some (Inr (), r') \<and>
     sent (mc_out (r_conn r' Server)) = [4, 3, 7, 10, 5]"
proof -
  let ?r = "Relay_Start (NewRelay (demo_conn [3, 7, 10, 5] None None) (demo_conn [] None None) empty_mem)"
  let ?p = "\<lparr>pkt_ID = 7, pkt_Data = [10, 5]\<rparr> :: Packet"
  have p: "payload ?p = [7, 10, 5]" by (simp add: payload_def leb_i32)
  have f: "frame (payload ?p) = [3, 7, 10, 5]" "frame (frame (payload ?p)) = [4, 3, 7, 10, 5]"
    by (simp_all add: frame_single p)
  have "\<not> fc_full (NewFlowController 1000 1000)" by (simp add: fc_full_def NewFlowController_def)
  then have "\<exists>r'. relay_body (mc_prw stored_zlib) Client ?r = Some (Inr (), r') \<and>
      sent (mc_out (r_conn r' (other Client))) = sent (mc_out (r_conn ?r (other Client))) @ frame (frame (payload ?p))"
    using Relay_reframes [of ?r Client ?p "[]" stored_zlib] f p
    by (simp add: Relay_Start_def NewRelay_def demo_conn_def IsClosed_def) blast
  moreover have "sent (mc_out (r_conn ?r (other Client))) = []"
    by (simp add: Relay_Start_def NewRelay_def demo_conn_def)
  ultimately show ?thesis unfolding f(2) by simp
qed

end
