(* ===== verification/Session.thy ===== *)
theory Session
  imports Relay
begin

text \<open>
  Two \<^verbatim>\<open>conn.MineConn\<close> connected to each other: the composition of the packet codec, the compression, the
  stream cipher, the flow controller and the key exchange in a session between a client and a server. Both
  ends write and read in any order; at moments when nothing is in flight both may switch the compression
  threshold or, as after a login, the cipher. The theorem: in every such run each direction is a FIFO
  channel of packets.
\<close>

section \<open>Sessions\<close>

text \<open>
  The two ends with their pools, and as history the packets written and read at each end. What an end
  writes is what the other end has to read: the cut of the stream into network packets is invisible to a
  reader that waits for its bytes (\<open>io_ReadFull_conn\<close>).
\<close>

record session =
  ss_end :: "side \<Rightarrow> MineConn"
  ss_mem :: "side \<Rightarrow> mem"
  ss_sent :: "side \<Rightarrow> Packet list"
  ss_got :: "side \<Rightarrow> Packet list"

definition receives :: "byte list \<Rightarrow> MineConn \<Rightarrow> MineConn" where
  "receives bs b = b\<lparr>mc_in := (mc_in b)\<lparr>pending := pending (mc_in b) @ bs\<rparr>\<rparr>"

definition wire :: "session \<Rightarrow> side \<Rightarrow> byte list" where
  "wire S s = pending (mc_in (ss_end S (other s)))"

text \<open>A packet within the limits of the protocol, and its frame.\<close>

definition fits :: "Packet \<Rightarrow> byte list \<Rightarrow> bool" where
  "fits p bs \<longleftrightarrow> int (length bs) \<le> MaxPacketSize \<and> int (length (pkt_Data p)) + 5 \<le> MaxCompressedSize"

text \<open>
  The steps of a session: a successful write, a read when there is something to read (otherwise it waits),
  the two switches, and closing an end. Keys have the sixteen bytes of \<^verbatim>\<open>GenerateKey\<close>.
\<close>

inductive session_step :: "zlib \<Rightarrow> (byte list \<Rightarrow> block res) \<Rightarrow> session \<Rightarrow> session \<Rightarrow> bool" for z aes where
  send: "\<not> IsClosed (ss_end S s) \<Longrightarrow> MineConn_WritePacket z p (ss_end S s) (ss_mem S s) = Some (None, a', m') \<Longrightarrow>
    bs = drop (length (sent (mc_out (ss_end S s)))) (sent (mc_out a')) \<Longrightarrow> fits p bs \<Longrightarrow>
    session_step z aes S (S\<lparr>ss_end := (ss_end S)(s := a', other s := receives bs (ss_end S (other s))),
      ss_mem := (ss_mem S)(s := m'), ss_sent := (ss_sent S)(s := ss_sent S s @ [p])\<rparr>)"
| receive: "wire S (other s) \<noteq> [] \<Longrightarrow> MineConn_ReadPacket z (ss_end S s) (ss_mem S s) = (Inr p, b', m') \<Longrightarrow>
    session_step z aes S (S\<lparr>ss_end := (ss_end S)(s := b'), ss_mem := (ss_mem S)(s := m'),
      ss_got := (ss_got S)(s := ss_got S s @ [p])\<rparr>)"
| threshold: "\<forall>s. wire S s = [] \<Longrightarrow>
    session_step z aes S (S\<lparr>ss_end := (\<lambda>s. MineConn_SetThreshold t (ss_end S s))\<rparr>)"
| cipher: "\<forall>s. wire S s = [] \<Longrightarrow> length key = 16 \<Longrightarrow> CreateCipher aes key = Inr (e, d) \<Longrightarrow>
    session_step z aes S (S\<lparr>ss_end := (\<lambda>s. SetCipher (Some e) (Some d) (ss_end S s))\<rparr>)"
| close: "MineConn_Close (ss_end S s) (ss_mem S s) = (a', m') \<Longrightarrow>
    session_step z aes S (S\<lparr>ss_end := (ss_end S)(s := a'), ss_mem := (ss_mem S)(s := m')\<rparr>)"

text \<open>A session starts with two new connections on which nothing has been sent.\<close>

definition new_session :: "(side \<Rightarrow> MineConn) \<Rightarrow> (side \<Rightarrow> mem) \<Rightarrow> session" where
  "new_session c m = \<lparr>ss_end = c, ss_mem = m, ss_sent = (\<lambda>_. []), ss_got = (\<lambda>_. [])\<rparr>"

definition fresh_conn :: "MineConn \<Rightarrow> bool" where
  "fresh_conn c \<longleftrightarrow> (\<exists>ci co m m'. NewMineConn ci co m = Inr (c, m') \<and> pending ci = [])"

text \<open>What is in flight from a side: the abstract channel.\<close>

definition in_flight :: "session \<Rightarrow> side \<Rightarrow> Packet list" where
  "in_flight S s = drop (length (ss_got S (other s))) (ss_sent S s)"

section \<open>Frames in flight\<close>

text \<open>
  \<open>carries z t fs d e\<close>: the frames \<open>fs\<close> decode one after the other, with threshold \<open>t\<close> and from the
  decrypting stream \<open>d\<close>, to the packets they are listed with, and lead to a stream in step with the
  encrypting stream \<open>e\<close>.
\<close>

fun carries :: "zlib \<Rightarrow> int \<Rightarrow> (Packet \<times> byte list) list \<Rightarrow> CFB8 option \<Rightarrow> CFB8 option \<Rightarrow> bool" where
  "carries z t [] d e \<longleftrightarrow> in_step e d"
| "carries z t ((p, fb) # fs) d e \<longleftrightarrow>
     int (length fb) \<le> MaxPacketSize \<and>
     (\<exists>q d'. parse_body z t fb = Inr q \<and> decrypt_data d q = Inr (p, d') \<and> carries z t fs d' e)"

lemma carries_snoc:
  assumes "carries z t fs d e" and "int (length fb) \<le> MaxPacketSize"
    and "\<And>d. in_step e d \<Longrightarrow> \<exists>q d'. parse_body z t fb = Inr q \<and> decrypt_data d q = Inr (p, d') \<and> in_step e' d'"
  shows "carries z t (fs @ [(p, fb)]) d e'"
  using assms by (induction fs arbitrary: d) fastforce+

definition frames_of :: "(Packet \<times> byte list) list \<Rightarrow> byte list" where
  "frames_of fs = concat (map (frame \<circ> snd) fs)"

lemma frame_ne [simp]: "frame fb \<noteq> []"
  by (simp add: frame_def)

lemma frames_of_simps [simp]:
  "frames_of [] = []" "frames_of (x # fs) = frame (snd x) @ frames_of fs"
  "frames_of (fs @ gs) = frames_of fs @ frames_of gs"
  by (simp_all add: frames_of_def)

lemma frames_of_empty [simp]: "frames_of fs = [] \<longleftrightarrow> fs = []" "[] = frames_of fs \<longleftrightarrow> fs = []"
  by (cases fs; simp)+

section \<open>The invariant\<close>

definition linked :: "zlib \<Rightarrow> session \<Rightarrow> side \<Rightarrow> (Packet \<times> byte list) list \<Rightarrow> bool" where
  "linked z S s fs \<longleftrightarrow>
     ss_sent S s = ss_got S (other s) @ map fst fs \<and> wire S s = frames_of fs \<and>
     carries z (mc_reader_threshold (ss_end S (other s))) fs (mc_decrypt (ss_end S (other s))) (mc_encrypt (ss_end S s)) \<and>
     (0 \<le> mc_writer_threshold (ss_end S s) \<longleftrightarrow> 0 \<le> mc_reader_threshold (ss_end S (other s)))"

definition session_inv :: "zlib \<Rightarrow> session \<Rightarrow> bool" where
  "session_inv z S \<longleftrightarrow> (\<forall>s. \<exists>fs. linked z S s fs)"

text \<open>A direction is untouched when its sender and its receiver keep the parts it depends on.\<close>

lemma linked_cong:
  assumes "linked z S s fs" and "ss_sent S' s = ss_sent S s" and "ss_got S' (other s) = ss_got S (other s)"
    and "mc_encrypt (ss_end S' s) = mc_encrypt (ss_end S s)"
    and "mc_writer_threshold (ss_end S' s) = mc_writer_threshold (ss_end S s)"
    and "wire S' s = wire S s"
    and "mc_decrypt (ss_end S' (other s)) = mc_decrypt (ss_end S (other s))"
    and "mc_reader_threshold (ss_end S' (other s)) = mc_reader_threshold (ss_end S (other s))"
  shows "linked z S' s fs"
  using assms by (simp add: linked_def)

lemma linked_empty: "linked z S s fs \<Longrightarrow> wire S s = [] \<Longrightarrow> fs = []"
  by (simp add: linked_def)

lemma session_inv_write:
  assumes "session_inv z S" and "zlib_lossless z" and "\<not> IsClosed (ss_end S s)"
    and w: "MineConn_WritePacket z p (ss_end S s) (ss_mem S s) = Some (None, a', m')"
    and bs: "bs = drop (length (sent (mc_out (ss_end S s)))) (sent (mc_out a'))" and "fits p bs"
  shows "session_inv z (S\<lparr>ss_end := (ss_end S)(s := a', other s := receives bs (ss_end S (other s))),
      ss_mem := (ss_mem S)(s := m'), ss_sent := (ss_sent S)(s := ss_sent S s @ [p])\<rparr>)"
    (is "session_inv z ?S")
  unfolding session_inv_def
proof
  let ?a = "ss_end S s" and ?b = "ss_end S (other s)"
  obtain q0 a0 fb co where co: "sent co = sent (mc_out ?a) @ frame fb" "a' = a0\<lparr>mc_out := co\<rparr>"
    and e0: "encrypt_data p ?a = Inr (q0, a0)"
    by (rule MineConn_WritePacket_sends [OF assms(3) w])
  have bsf: "bs = frame fb" using co bs by simp
  have keep: "mc_writer_threshold a' = mc_writer_threshold ?a" "mc_reader_threshold a' = mc_reader_threshold ?a"
    "mc_decrypt a' = mc_decrypt ?a" "mc_in a' = mc_in ?a"
    using co(2) e0 by (auto simp: encrypt_data_def split: option.splits sum.splits)
  fix x
  show "\<exists>fs. linked z ?S x fs"
  proof (cases "x = s")
    case True
    obtain fs where l: "linked z S s fs" using assms(1) by (auto simp: session_inv_def)
    have lim: "int (length (sent (mc_out a'))) \<le> int (length (sent (mc_out ?a))) + MaxPacketSize"
      "int (length (pkt_Data p)) + 5 \<le> MaxCompressedSize"
      using assms(6) co bsf by (auto simp: fits_def)
    have "carries z (mc_reader_threshold ?b) (fs @ [(p, fb)]) (mc_decrypt ?b) (mc_encrypt a')"
    proof (rule carries_snoc)
      show "carries z (mc_reader_threshold ?b) fs (mc_decrypt ?b) (mc_encrypt ?a)" using l by (simp add: linked_def)
      show "int (length fb) \<le> MaxPacketSize" using assms(6) bsf by (simp add: fits_def frame_def)
    next
      fix d assume st: "in_step (mc_encrypt ?a) d"
      have t: "0 \<le> mc_writer_threshold ?a \<longleftrightarrow> 0 \<le> mc_reader_threshold ?b" using l by (simp add: linked_def)
      obtain fb' q d' co' e where "sent co' = sent (mc_out ?a) @ frame fb'" "int (length fb') \<le> MaxPacketSize"
        "parse_body z (mc_reader_threshold ?b) fb' = Inr q" "decrypt_data d q = Inr (p, d')" "in_step e d'"
        "a' = ?a\<lparr>mc_encrypt := e, mc_out := co'\<rparr>"
        by (rule MineConn_WritePacket_frame [OF assms(2,3) st t w lim])
      moreover have "sent (mc_out a') = sent (mc_out ?a) @ frame fb" by (simp add: co)
      then have "frame fb' = frame fb" using calculation(1,6) by simp
      then have "fb' = fb" using next_body_frame [of fb "[]"] next_body_frame [OF calculation(2), of "[]"]
          assms(6) bsf by (simp add: fits_def frame_def)
      ultimately show "\<exists>q d'. parse_body z (mc_reader_threshold ?b) fb = Inr q \<and> decrypt_data d q = Inr (p, d') \<and>
          in_step (mc_encrypt a') d'" by auto
    qed
    with l True keep bsf have "linked z ?S x (fs @ [(p, fb)])" by (simp add: linked_def wire_def receives_def)
    then show ?thesis by blast
  next
    case False
    then have x: "x = other s" using side_cases [of x s] by auto
    obtain fs where l: "linked z S x fs" using assms(1) by (auto simp: session_inv_def)
    have "linked z ?S x fs" by (rule linked_cong [OF l]) (simp_all add: x wire_def keep receives_def)
    then show ?thesis by blast
  qed
qed

text \<open>A read takes the first frame in flight and delivers its packet.\<close>

lemma linked_read:
  assumes "linked z S (other s) fs" and "wire S (other s) \<noteq> []" and "\<not> IsClosed (ss_end S s)"
  obtains p fb gs ci d m' where "fs = (p, fb) # gs" "pending ci = frames_of gs"
    "MineConn_ReadPacket z (ss_end S s) m = (Inr p, (ss_end S s)\<lparr>mc_in := ci, mc_decrypt := d\<rparr>, m')"
    "carries z (mc_reader_threshold (ss_end S s)) gs d (mc_encrypt (ss_end S (other s)))"
proof -
  obtain p fb gs where fs: "fs = (p, fb) # gs" using assms(1,2) by (cases fs) (auto simp: linked_def)
  with assms(1) obtain q d where q: "int (length fb) \<le> MaxPacketSize"
    "parse_body z (mc_reader_threshold (ss_end S s)) fb = Inr q"
    "decrypt_data (mc_decrypt (ss_end S s)) q = Inr (p, d)"
    "carries z (mc_reader_threshold (ss_end S s)) gs d (mc_encrypt (ss_end S (other s)))"
    by (auto simp: linked_def)
  have "pending (mc_in (ss_end S s)) = frame fb @ frames_of gs" using assms(1) fs by (simp add: linked_def wire_def)
  from MineConn_ReadPacket_frame [OF assms(3) this q(1-3), of m] obtain ci m' where
    "MineConn_ReadPacket z (ss_end S s) m = (Inr p, (ss_end S s)\<lparr>mc_in := ci, mc_decrypt := d\<rparr>, m')" "pending ci = frames_of gs"
    by blast
  with fs q(4) show thesis by (intro that)
qed

lemma session_inv_read:
  assumes "session_inv z S" and "wire S (other s) \<noteq> []"
    and r: "MineConn_ReadPacket z (ss_end S s) (ss_mem S s) = (Inr p, b', m')"
  shows "session_inv z (S\<lparr>ss_end := (ss_end S)(s := b'), ss_mem := (ss_mem S)(s := m'),
      ss_got := (ss_got S)(s := ss_got S s @ [p])\<rparr>)" (is "session_inv z ?S")
  unfolding session_inv_def
proof
  have o: "\<not> IsClosed (ss_end S s)" using r by (auto simp: MineConn_ReadPacket_def)
  obtain fs where l: "linked z S (other s) fs" using assms(1) by (auto simp: session_inv_def)
  obtain p' fb gs ci d m'' where f0: "fs = (p', fb) # gs" "pending ci = frames_of gs"
    "MineConn_ReadPacket z (ss_end S s) (ss_mem S s) = (Inr p', (ss_end S s)\<lparr>mc_in := ci, mc_decrypt := d\<rparr>, m'')"
    "carries z (mc_reader_threshold (ss_end S s)) gs d (mc_encrypt (ss_end S (other s)))"
    by (rule linked_read [OF l assms(2) o])
  with r have f: "fs = (p, fb) # gs" "b' = (ss_end S s)\<lparr>mc_in := ci, mc_decrypt := d\<rparr>" by auto
  fix x
  show "\<exists>fs. linked z ?S x fs"
  proof (cases "x = s")
    case True
    obtain gs where "linked z S s gs" using assms(1) by (auto simp: session_inv_def)
    then have "linked z ?S s gs" by (rule linked_cong) (simp_all add: wire_def f)
    with True show ?thesis by blast
  next
    case False
    then have x: "x = other s" using side_cases [of x s] by auto
    have "linked z ?S (other s) gs" using l f f0(2,4) by (simp add: linked_def wire_def)
    with x show ?thesis by blast
  qed
qed

lemma CreateCipher_in_step:
  assumes "\<And>key blk. aes key = Inr blk \<Longrightarrow> block_ok blk \<and> blk_BlockSize blk = 16"
    and "CreateCipher aes key = Inr (e, d)" and "length key = 16"
  shows "in_step (Some e) (Some d)"
  using assms by (auto simp: CreateCipher_def in_step_def NewCFB8Encrypt_def NewCFB8Decrypt_def split: sum.splits)

lemma session_inv_step:
  assumes "session_step z aes S S'" and "session_inv z S" and "zlib_lossless z"
    and "\<And>key blk. aes key = Inr blk \<Longrightarrow> block_ok blk \<and> blk_BlockSize blk = 16"
  shows "session_inv z S'"
  using assms(1-3)
proof cases
  case (send s p a' m' bs)
  then show ?thesis using session_inv_write [OF assms(2,3)] by simp
next
  case (receive s p b' m')
  then show ?thesis using session_inv_read [OF assms(2)] by simp
next
  case (threshold t)
  have "linked z S' s []" for s
  proof -
    obtain fs where "linked z S s fs" using assms(2) by (auto simp: session_inv_def)
    with threshold(2) have "linked z S s []" using linked_empty by blast
    with threshold show ?thesis by (simp add: linked_def wire_def MineConn_SetThreshold_def)
  qed
  then show ?thesis by (auto simp: session_inv_def)
next
  case (cipher key e d)
  have "linked z S' s []" for s
  proof -
    obtain fs where "linked z S s fs" using assms(2) by (auto simp: session_inv_def)
    with cipher(2) have "linked z S s []" using linked_empty by blast
    with cipher CreateCipher_in_step [OF assms(4) cipher(4,3)] show ?thesis
      by (simp add: linked_def wire_def SetCipher_def)
  qed
  then show ?thesis by (auto simp: session_inv_def)
next
  case (close s a' m')
  have k: "mc_in a' = mc_in (ss_end S s)" "mc_decrypt a' = mc_decrypt (ss_end S s)"
    "mc_encrypt a' = mc_encrypt (ss_end S s)" "mc_reader_threshold a' = mc_reader_threshold (ss_end S s)"
    "mc_writer_threshold a' = mc_writer_threshold (ss_end S s)"
    using close(2) by (auto simp: MineConn_Close_def split: if_splits)
  have "\<exists>fs. linked z S' x fs" for x
  proof -
    obtain fs where "linked z S x fs" using assms(2) by (auto simp: session_inv_def)
    then have "linked z S' x fs" by (rule linked_cong) (simp_all add: close wire_def k)
    then show ?thesis by blast
  qed
  then show ?thesis by (simp add: session_inv_def)
qed

lemma NewMineConn_fields:
  "NewMineConn ci co m = Inr (mc, m') \<Longrightarrow>
     mc_in mc = ci \<and> mc_out mc = co \<and> mc_encrypt mc = None \<and> mc_decrypt mc = None \<and> \<not> IsClosed mc \<and>
     mc_reader_threshold mc = -1 \<and> mc_writer_threshold mc = -1 \<and> \<not> fc_full (mc_flow mc)"
  by (auto simp: NewMineConn_def IsClosed_def fc_full_def NewFlowController_def MaxPacketSize_def split: sum.splits)

lemma session_inv_new:
  assumes "\<And>s. fresh_conn (c s)"
  shows "session_inv z (new_session c m)"
proof -
  have "pending (mc_in (c s)) = [] \<and> mc_encrypt (c s) = None \<and> mc_decrypt (c s) = None \<and>
      mc_reader_threshold (c s) = -1 \<and> mc_writer_threshold (c s) = -1" for s
    using assms [of s] by (auto simp: fresh_conn_def dest: NewMineConn_fields)
  then have "linked z (new_session c m) s []" for s
    by (simp add: linked_def new_session_def wire_def in_step_def)
  then show ?thesis by (auto simp: session_inv_def)
qed

text \<open>The libraries as the session needs them: compression is lossless, block ciphers have blocks of sixteen bytes.\<close>

definition good_libs :: "zlib \<Rightarrow> (byte list \<Rightarrow> block res) \<Rightarrow> bool" where
  "good_libs z aes \<longleftrightarrow> zlib_lossless z \<and> (\<forall>key blk. aes key = Inr blk \<longrightarrow> block_ok blk \<and> blk_BlockSize blk = 16)"

interpretation session_sys: step_invariant "session_step z aes"
    "\<lambda>S. \<exists>c m. S = new_session c m \<and> (\<forall>s. fresh_conn (c s))" "\<lambda>S. good_libs z aes \<longrightarrow> session_inv z S" for z aes
  by unfold_locales (auto simp: good_libs_def intro: session_inv_new session_inv_step)

text \<open>A write at an open end succeeds when the flow controller and the network have room.\<close>

lemma MineConn_WritePacket_succeeds:
  assumes "\<not> IsClosed a" and "in_step (mc_encrypt a) d" and "\<not> fc_full (mc_flow a)"
    and "mc_writer_threshold a < 0" and "room (mc_out a) = None"
  obtains a' m' where "MineConn_WritePacket z p a m = Some (None, a', m')"
    "length (sent (mc_out a')) \<le> length (sent (mc_out a)) + length (pkt_Data p) + 10"
proof -
  obtain q e where q: "encrypt_data p a = Inr (q, a\<lparr>mc_encrypt := e\<rparr>)"
  proof (cases "mc_encrypt a")
    case None
    then have "a = a\<lparr>mc_encrypt := None\<rparr>" by simp
    then show thesis using None by (intro that [of p None]) (simp add: encrypt_data_def)
  next
    case (Some c)
    with assms(2) have c: "block_ok (cf_block c)" "length (cf_iv c) = blk_BlockSize (cf_block c)" "\<not> cf_de c"
      by (auto simp: in_step_def split: option.splits)
    obtain iv out where C: "cfb (cf_block c) False (cf_iv c) (pkt_Data p) = (iv, out)" by force
    from cfb_roundtrip [OF C] obtain tmp where "crypt_copy c (pkt_Data p) = Inr (c\<lparr>cf_tmp := tmp, cf_iv := iv\<rparr>, out)"
      using crypt_copy_cfb [OF c(1,2), of "pkt_Data p" iv out] C c(3) by auto
    with Some show thesis by (intro that) (simp add: encrypt_data_def)
  qed
  have l: "length (pkt_Data q) = length (pkt_Data p)" using encrypt_decrypt [OF assms(2) q] by simp
  obtain fl where fl: "Acquire (int (length (pkt_Data q))) (mc_flow a) = Some fl" using assms(3) by (simp add: Acquire_def)
  let ?w = "WritePacket z (mc_writer_threshold a) conn_Write q m (mc_out a)"
  have "fst ?w = None" "sent (snd (snd ?w)) = sent (mc_out a) @ frame (payload q)"
    using WritePacket_plain [OF assms(4), of conn_Write q m "mc_out a" z] assms(5) by (auto simp: sends_def conn_Write_def)
  moreover have "length (frame (payload q)) \<le> length (pkt_Data p) + 10"
    using l length_leb_i32 [of "pkt_ID q"] length_leb_i32 [of "word_of_nat (length (payload q))"] by (simp add: frame_def payload_def)
  ultimately show thesis
    using assms(1) q fl by (cases ?w) (auto simp: MineConn_WritePacket_def intro: that)
qed

section \<open>Properties\<close>


text \<open>A block cipher of sixteen bytes for the witness.\<close>

definition toy_aes :: "byte list \<Rightarrow> block res" where
  "toy_aes key = (if length key = 16
     then Inr \<lparr>blk_BlockSize = 16, blk_Encrypt = (\<lambda>x. map (\<lambda>i. (if i < length x then x ! i else 0) + key ! i) [0..<16])\<rparr>
     else Inl ErrEncryptionFailed)"


end
