(* ===== verification/Mux.thy ===== *)
theory Mux
  imports Wire_Types Packets
begin

text \<open>
  \<^verbatim>\<open>tunnel/mux.go\<close>: the multiplexer that carries many streams over one connection. The model has the
  frame format, the two loops (one round at a time) and the operations of the streams; its steps in any
  order are the relation \<open>mux_step\<close>. The theorems: the frame round trip, the invariant of every reachable
  state, end-to-end delivery of a chunk, and the situations in which the multiplexer loses data.
\<close>

unbundle bit_operations_syntax

section \<open>Model\<close>

type_synonym u32 = "32 word"

definition MuxData :: byte where "MuxData = 0"
definition MuxOpen :: byte where "MuxOpen = 1"
definition MuxClose :: byte where "MuxClose = 2"
definition MuxPing :: byte where "MuxPing = 3"
definition MuxPong :: byte where "MuxPong = 4"
definition MuxError :: byte where "MuxError = 5"

lemmas mux_types = MuxData_def MuxOpen_def MuxClose_def MuxPing_def MuxPong_def MuxError_def

record MuxFrame =
  mf_Type :: byte
  mf_Stream :: u32
  mf_Data :: "byte list"

text \<open>
  A stream: its channel of received chunks (capacity 64) and whether it is closed, which also means
  that the channel is closed.
\<close>

record MuxStream =
  ms_id :: u32
  ms_readCh :: "byte list list"
  ms_closed :: bool

text \<open>
  The multiplexer. Streams are objects shared between the table and the callers that opened or
  accepted them, so they live in a heap and the table holds addresses. The channels \<open>m_readCh\<close>
  and \<open>m_writeCh\<close> have capacity 256.
\<close>

record Mux =
  m_in :: inconn
  m_out :: outconn
  m_nextID :: u32
  m_streams :: "u32 \<rightharpoonup> nat"
  m_heap :: "MuxStream list"
  m_closed :: bool
  m_readCh :: "MuxFrame list"
  m_writeCh :: "MuxFrame list"
  m_conn_closed :: bool

definition NewMux :: "inconn \<Rightarrow> outconn \<Rightarrow> Mux" where
  "NewMux ci co = \<lparr>m_in = ci, m_out = co, m_nextID = 0, m_streams = Map.empty, m_heap = [],
     m_closed = False, m_readCh = [], m_writeCh = [], m_conn_closed = False\<rparr>"

text \<open>\<^verbatim>\<open>m.writeCh <- frame\<close> blocks (\<open>None\<close>) while the channel is full.\<close>

definition send_write :: "MuxFrame \<Rightarrow> Mux \<Rightarrow> Mux option" where
  "send_write f m = (if length (m_writeCh m) < 256 then Some (m\<lparr>m_writeCh := m_writeCh m @ [f]\<rparr>) else None)"

text \<open>A new stream object under identifier \<open>i\<close>, entered in the table: its address and the state.\<close>

definition new_stream :: "u32 \<Rightarrow> Mux \<Rightarrow> nat \<times> Mux" where
  "new_stream i m =
     (length (m_heap m),
      m\<lparr>m_heap := m_heap m @ [\<lparr>ms_id = i, ms_readCh = [], ms_closed = False\<rparr>],
        m_streams := (m_streams m)(i \<mapsto> length (m_heap m))\<rparr>)"

definition OpenStream :: "Mux \<Rightarrow> (nat res \<times> Mux) option" where
  "OpenStream m =
     (if m_closed m then Some (Inl ErrConnectionClosed, m)
      else
        let i = m_nextID m + 1;
            (a, m) = new_stream i (m\<lparr>m_nextID := i\<rparr>)
        in case send_write \<lparr>mf_Type = MuxOpen, mf_Stream = i, mf_Data = []\<rparr> m of
             None \<Rightarrow> None
           | Some m \<Rightarrow> Some (Inr a, m))"

text \<open>
  \<^verbatim>\<open>AcceptStream\<close> takes frames from \<^verbatim>\<open>readCh\<close> until one opens a stream, and blocks when there is none.
  Nothing closes \<^verbatim>\<open>readCh\<close> or sends \<^verbatim>\<open>nil\<close> on it, so its \<^verbatim>\<open>io.EOF\<close> branch is never taken.
\<close>

fun AcceptStream_loop :: "MuxFrame list \<Rightarrow> Mux \<Rightarrow> (nat \<times> Mux) option" where
  "AcceptStream_loop [] m = None"
| "AcceptStream_loop (f # fs) m =
     (if mf_Type f = MuxOpen then Some (new_stream (mf_Stream f) (m\<lparr>m_readCh := fs\<rparr>))
      else AcceptStream_loop fs m)"

definition AcceptStream :: "Mux \<Rightarrow> (nat \<times> Mux) option" where
  "AcceptStream m = AcceptStream_loop (m_readCh m) m"

definition close_stream :: "MuxStream \<Rightarrow> MuxStream" where
  "close_stream s = s\<lparr>ms_closed := True\<rparr>"

definition Mux_Close :: "Mux \<Rightarrow> Mux" where
  "Mux_Close m =
     (if m_closed m then m
      else m\<lparr>m_closed := True, m_conn_closed := True,
             m_heap := map (\<lambda>a. if a \<in> ran (m_streams m) then close_stream (m_heap m ! a) else m_heap m ! a)
                         [0..<length (m_heap m)]\<rparr>)"

definition readFrame :: "'r reader \<Rightarrow> 'r \<Rightarrow> MuxFrame res \<times> 'r" where
  "readFrame R r =
     (case ReadFull R 5 r of
        (Inl e, r) \<Rightarrow> (Inl e, r)
      | (Inr header, r) \<Rightarrow>
          let frm = \<lparr>mf_Type = header ! 0, mf_Stream = be_get (take 4 (drop 1 header)), mf_Data = []\<rparr> in
          if mf_Type frm = MuxData then
            (case ReadFull R 4 r of
               (Inl e, r) \<Rightarrow> (Inl e, r)
             | (Inr lenBuf, r) \<Rightarrow>
                 let dataLen = (be_get lenBuf :: u32) in
                 case ReadFull R (unat dataLen) r of
                   (Inl e, r) \<Rightarrow> (Inl e, r)
                 | (Inr d, r) \<Rightarrow> (Inr (frm\<lparr>mf_Data := d\<rparr>), r))
          else (Inr frm, r))"

definition writeFrame :: "'w writer \<Rightarrow> MuxFrame \<Rightarrow> 'w \<Rightarrow> go_err option \<times> 'w" where
  "writeFrame W frm w =
     (let header = mf_Type frm # be_put 4 (mf_Stream frm) in
      if mf_Type frm = MuxData then
        let lenBuf = be_put 4 (word_of_nat (length (mf_Data frm)) :: u32) in
        (case W (header @ lenBuf @ mf_Data frm) w of ((_, err), w') \<Rightarrow> (err, w'))
      else (case W header w of ((_, err), w') \<Rightarrow> (err, w')))"

text \<open>
  The \<^verbatim>\<open>select\<close> that hands a chunk to the stream at address \<open>a\<close>: dropped when the channel is full, a
  panic when the channel is closed.
\<close>

definition deliver :: "nat \<Rightarrow> byte list \<Rightarrow> Mux \<Rightarrow> unit res \<times> Mux" where
  "deliver a d m =
     (let s = m_heap m ! a in
      if ms_closed s then (Inl Panic, m)
      else if length (ms_readCh s) < 64
      then (Inr (), m\<lparr>m_heap := (m_heap m)[a := s\<lparr>ms_readCh := ms_readCh s @ [d]\<rparr>]\<rparr>)
      else (Inr (), m))"

text \<open>
  The \<^verbatim>\<open>switch\<close> of the read loop. A chunk is dropped when its stream is unknown or its channel full;
  an open request is dropped when \<^verbatim>\<open>readCh\<close> is full. Sending on a closed channel panics, which ends
  the loop (the panic is recovered and logged). \<open>None\<close> means that the loop blocks.
\<close>

definition handle_frame :: "MuxFrame \<Rightarrow> Mux \<Rightarrow> (unit res \<times> Mux) option" where
  "handle_frame frm m =
     (if mf_Type frm = MuxData then
        (case m_streams m (mf_Stream frm) of
           None \<Rightarrow> Some (Inr (), m)
         | Some a \<Rightarrow> Some (deliver a (mf_Data frm) m))
      else if mf_Type frm = MuxOpen then
        Some (Inr (), if length (m_readCh m) < 256 then m\<lparr>m_readCh := m_readCh m @ [frm]\<rparr> else m)
      else if mf_Type frm = MuxClose then
        (case m_streams m (mf_Stream frm) of
           None \<Rightarrow> Some (Inr (), m)
         | Some a \<Rightarrow>
             Some (Inr (), m\<lparr>m_streams := (m_streams m)(mf_Stream frm := None),
                             m_heap := (m_heap m)[a := close_stream (m_heap m ! a)]\<rparr>))
      else if mf_Type frm = MuxPing then
        map_option (\<lambda>m. (Inr (), m)) (send_write \<lparr>mf_Type = MuxPong, mf_Stream = 0, mf_Data = []\<rparr> m)
      else Some (Inr (), m))"

text \<open>One round of the read loop; the flag tells whether the loop goes on.\<close>

definition readLoop_round :: "Mux \<Rightarrow> (bool \<times> Mux) option" where
  "readLoop_round m =
     (if m_closed m then Some (False, m)
      else case readFrame conn_reader (m_in m) of
        (Inl e, ci) \<Rightarrow> Some (False, Mux_Close (m\<lparr>m_in := ci\<rparr>))
      | (Inr frm, ci) \<Rightarrow>
          case handle_frame frm (m\<lparr>m_in := ci\<rparr>) of
            None \<Rightarrow> None
          | Some (Inl _, m) \<Rightarrow> Some (False, m)
          | Some (Inr _, m) \<Rightarrow> Some (True, m))"

text \<open>One round of the write loop that takes a frame; \<open>None\<close> when there is none.\<close>

definition writeLoop_round :: "Mux \<Rightarrow> (bool \<times> Mux) option" where
  "writeLoop_round m =
     (case m_writeCh m of
        [] \<Rightarrow> None
      | frm # fs \<Rightarrow>
          let m = m\<lparr>m_writeCh := fs\<rparr> in
          if m_closed m then Some (False, m)
          else case writeFrame conn_Write frm (m_out m) of
            (None, co) \<Rightarrow> Some (True, m\<lparr>m_out := co\<rparr>)
          | (Some e, co) \<Rightarrow> Some (False, Mux_Close (m\<lparr>m_out := co\<rparr>)))"

subsection \<open>Stream operations\<close>

text \<open>\<^verbatim>\<open>Read\<close> into a buffer of \<open>n\<close> bytes: what does not fit is lost. \<open>None\<close>: it blocks.\<close>

definition MuxStream_Read :: "nat \<Rightarrow> nat \<Rightarrow> Mux \<Rightarrow> (byte list res \<times> Mux) option" where
  "MuxStream_Read n a m =
     (let s = m_heap m ! a in
      case ms_readCh s of
        d # ds \<Rightarrow> Some (Inr (take n d), m\<lparr>m_heap := (m_heap m)[a := s\<lparr>ms_readCh := ds\<rparr>]\<rparr>)
      | [] \<Rightarrow> if ms_closed s then Some (Inl EOF, m) else None)"

definition MuxStream_Write :: "byte list \<Rightarrow> nat \<Rightarrow> Mux \<Rightarrow> (nat res \<times> Mux) option" where
  "MuxStream_Write b a m =
     (let s = m_heap m ! a in
      if ms_closed s then Some (Inl ErrConnectionClosed, m)
      else case send_write \<lparr>mf_Type = MuxData, mf_Stream = ms_id s, mf_Data = b\<rparr> m of
        None \<Rightarrow> None
      | Some m \<Rightarrow> Some (Inr (length b), m))"

definition MuxStream_Close :: "nat \<Rightarrow> Mux \<Rightarrow> Mux option" where
  "MuxStream_Close a m =
     (let s = m_heap m ! a in
      if ms_closed s then Some m
      else case send_write \<lparr>mf_Type = MuxClose, mf_Stream = ms_id s, mf_Data = []\<rparr> m of
        None \<Rightarrow> None
      | Some m \<Rightarrow>
          Some (m\<lparr>m_streams := (m_streams m)(ms_id s := None), m_heap := (m_heap m)[a := close_stream s]\<rparr>))"

definition MuxStream_ID :: "nat \<Rightarrow> Mux \<Rightarrow> u32" where
  "MuxStream_ID a m = ms_id (m_heap m ! a)"

text \<open>
  The deadlines of a stream are those of the connection under the multiplexer, shared by all streams: the
  methods only call the connection's, the first argument here, and leave the multiplexer alone. The addresses
  are the connection's too.
\<close>

definition MuxStream_SetDeadline :: "('t \<Rightarrow> 'c \<Rightarrow> go_err option \<times> 'c) \<Rightarrow> 't \<Rightarrow> Mux \<times> 'c \<Rightarrow> go_err option \<times> Mux \<times> 'c" where
  "MuxStream_SetDeadline conn_SetDeadline t x =
     (case x of (m, c) \<Rightarrow> case conn_SetDeadline t c of (e, c) \<Rightarrow> (e, m, c))"

definition MuxStream_SetReadDeadline :: "('t \<Rightarrow> 'c \<Rightarrow> go_err option \<times> 'c) \<Rightarrow> 't \<Rightarrow> Mux \<times> 'c \<Rightarrow> go_err option \<times> Mux \<times> 'c" where
  "MuxStream_SetReadDeadline conn_SetReadDeadline t x =
     (case x of (m, c) \<Rightarrow> case conn_SetReadDeadline t c of (e, c) \<Rightarrow> (e, m, c))"

definition MuxStream_SetWriteDeadline :: "('t \<Rightarrow> 'c \<Rightarrow> go_err option \<times> 'c) \<Rightarrow> 't \<Rightarrow> Mux \<times> 'c \<Rightarrow> go_err option \<times> Mux \<times> 'c" where
  "MuxStream_SetWriteDeadline conn_SetWriteDeadline t x =
     (case x of (m, c) \<Rightarrow> case conn_SetWriteDeadline t c of (e, c) \<Rightarrow> (e, m, c))"

definition MuxStream_LocalAddr :: "('c \<Rightarrow> 'addr) \<Rightarrow> Mux \<times> 'c \<Rightarrow> 'addr" where
  "MuxStream_LocalAddr conn_LocalAddr x = conn_LocalAddr (snd x)"

definition MuxStream_RemoteAddr :: "('c \<Rightarrow> 'addr) \<Rightarrow> Mux \<times> 'c \<Rightarrow> 'addr" where
  "MuxStream_RemoteAddr conn_RemoteAddr x = conn_RemoteAddr (snd x)"

section \<open>Frames on the wire\<close>

definition mux_bytes :: "MuxFrame \<Rightarrow> byte list" where
  "mux_bytes f = mf_Type f # be_put 4 (mf_Stream f) @
     (if mf_Type f = MuxData then be_put 4 (word_of_nat (length (mf_Data f)) :: u32) @ mf_Data f else [])"

text \<open>Only data frames carry data.\<close>

definition frame_norm :: "MuxFrame \<Rightarrow> MuxFrame" where
  "frame_norm f = (if mf_Type f = MuxData then f else f\<lparr>mf_Data := []\<rparr>)"

lemma writeFrame_bytes: "writeFrame W f w = (snd (fst (W (mux_bytes f) w)), snd (W (mux_bytes f) w))"
  by (auto simp: writeFrame_def mux_bytes_def Let_def split: prod.splits)

context byte_source
begin

lemma readFrame_bytes:
  assumes "content r = mux_bytes f @ rest" and "length (mf_Data f) < 2 ^ 32"
  obtains r' where "readFrame R r = (Inr (frame_norm f), r')" "content r' = rest" "stop r' = stop r"
proof -
  let ?h = "mf_Type f # be_put 4 (mf_Stream f)"
  obtain r1 where r1: "ReadFull R 5 r = (Inr ?h, r1)" "stop r1 = stop r"
    "content r1 = (if mf_Type f = MuxData then be_put 4 (word_of_nat (length (mf_Data f)) :: u32) @ mf_Data f else []) @ rest"
    using ReadFull_append_obtain [of r ?h _ 5] assms(1) by (auto simp: mux_bytes_def)
  have g: "be_get (be_put 4 (mf_Stream f)) = mf_Stream f" by (simp add: be_get_be_put)
  show thesis
  proof (cases "mf_Type f = MuxData")
    case False
    with r1 g show thesis
      by (intro that [of r1]) (simp_all add: readFrame_def frame_norm_def Let_def)
  next
    case True
    let ?l = "be_put 4 (word_of_nat (length (mf_Data f)) :: u32)"
    obtain r2 where r2: "ReadFull R 4 r1 = (Inr ?l, r2)" "content r2 = mf_Data f @ rest" "stop r2 = stop r"
      using ReadFull_append_obtain [of r1 ?l "mf_Data f @ rest" 4] r1 True by auto
    have u: "unat (be_get ?l :: u32) = length (mf_Data f)"
      using assms(2) by (simp add: be_get_be_put unat_i32_of_nat)
    obtain r3 where r3: "ReadFull R (length (mf_Data f)) r2 = (Inr (mf_Data f), r3)" "content r3 = rest" "stop r3 = stop r"
      using ReadFull_append_obtain [OF r2(2) refl] r2(3) by auto
    from True r1 r2 r3 u g show thesis
      by (intro that [of r3]) (simp_all add: readFrame_def frame_norm_def Let_def)
  qed
qed

end

lemma writeFrame_sent:
  assumes "writeFrame conn_Write f out = (None, out')"
  shows "sent out' = sent out @ mux_bytes f"
proof (cases "conn_Write (mux_bytes f) out")
  case (Pair p w)
  with assms have "conn_Write (mux_bytes f) out = ((fst p, None), out')"
    by (simp add: writeFrame_bytes prod_eq_iff)
  from conn_snk.write_all [OF _ this] show ?thesis by simp
qed

section \<open>The invariant\<close>

definition mux_ok :: "Mux \<Rightarrow> bool" where
  "mux_ok m \<longleftrightarrow>
     length (m_readCh m) \<le> 256 \<and> length (m_writeCh m) \<le> 256 \<and>
     (\<forall>f \<in> set (m_readCh m). mf_Type f = MuxOpen) \<and>
     (\<forall>s \<in> set (m_heap m). length (ms_readCh s) \<le> 64) \<and>
     (m_closed m \<longrightarrow> m_conn_closed m) \<and>
     (\<forall>i a. m_streams m i = Some a \<longrightarrow>
        a < length (m_heap m) \<and> ms_id (m_heap m ! a) = i \<and> (ms_closed (m_heap m ! a) \<longrightarrow> m_closed m))"

inductive mux_step :: "Mux \<Rightarrow> Mux \<Rightarrow> bool" where
  open_stream: "OpenStream m = Some (r, m') \<Longrightarrow> mux_step m m'"
| accept_stream: "AcceptStream m = Some (a, m') \<Longrightarrow> mux_step m m'"
| close_mux: "mux_step m (Mux_Close m)"
| read_round: "readLoop_round m = Some (go, m') \<Longrightarrow> mux_step m m'"
| write_round: "writeLoop_round m = Some (go, m') \<Longrightarrow> mux_step m m'"
| stream_read: "a < length (m_heap m) \<Longrightarrow> MuxStream_Read n a m = Some (r, m') \<Longrightarrow> mux_step m m'"
| stream_write: "a < length (m_heap m) \<Longrightarrow> MuxStream_Write b a m = Some (r, m') \<Longrightarrow> mux_step m m'"
| stream_close: "a < length (m_heap m) \<Longrightarrow> MuxStream_Close a m = Some m' \<Longrightarrow> mux_step m m'"

lemma send_write_ok: "send_write f m = Some m' \<Longrightarrow> mux_ok m \<Longrightarrow> mux_ok m'"
  by (auto simp: send_write_def mux_ok_def split: if_splits)

lemma new_stream_ok: "new_stream i m = (a, m') \<Longrightarrow> mux_ok m \<Longrightarrow> mux_ok m'"
  by (auto simp: new_stream_def mux_ok_def nth_append less_Suc_eq split: if_splits)

lemma drop_stream_ok:
  assumes "mux_ok m" and "a < length (m_heap m)"
  shows "mux_ok (m\<lparr>m_streams := (m_streams m)(ms_id (m_heap m ! a) := None),
    m_heap := (m_heap m)[a := close_stream (m_heap m ! a)]\<rparr>)"
  using assms
  by (auto simp: mux_ok_def close_stream_def nth_list_update
      split: if_splits dest!: set_update_subset_insert [THEN subsetD])

lemma Mux_Close_ok: "mux_ok m \<Longrightarrow> mux_ok (Mux_Close m)"
  by (auto simp: Mux_Close_def mux_ok_def close_stream_def ran_def)

lemma OpenStream_ok: "OpenStream m = Some (r, m') \<Longrightarrow> mux_ok m \<Longrightarrow> mux_ok m'"
proof -
  assume o: "OpenStream m = Some (r, m')" and ok: "mux_ok m"
  have ok': "mux_ok (m\<lparr>m_nextID := i\<rparr>)" for i using ok by (simp add: mux_ok_def)
  show ?thesis
    using o ok new_stream_ok [OF _ ok'] send_write_ok
    by (auto simp: OpenStream_def Let_def split: if_splits prod.splits option.splits)
qed

lemma AcceptStream_first:
  assumes "mux_ok m"
  shows "AcceptStream m = (case m_readCh m of [] \<Rightarrow> None | f # fs \<Rightarrow> Some (new_stream (mf_Stream f) (m\<lparr>m_readCh := fs\<rparr>)))"
  using assms by (auto simp: AcceptStream_def mux_ok_def split: list.splits)

lemma AcceptStream_ok: "AcceptStream m = Some (a, m') \<Longrightarrow> mux_ok m \<Longrightarrow> mux_ok m'"
proof -
  assume o: "AcceptStream m = Some (a, m')" and ok: "mux_ok m"
  then obtain f fs where f: "m_readCh m = f # fs" "new_stream (mf_Stream f) (m\<lparr>m_readCh := fs\<rparr>) = (a, m')"
    by (auto simp: AcceptStream_first split: list.splits)
  have "mux_ok (m\<lparr>m_readCh := fs\<rparr>)" using ok f(1) by (auto simp: mux_ok_def)
  with f(2) show ?thesis by (rule new_stream_ok)
qed

lemma handle_frame_ok: "handle_frame f m = Some (r, m') \<Longrightarrow> mux_ok m \<Longrightarrow> mux_ok m'"
proof -
  assume h: "handle_frame f m = Some (r, m')" and ok: "mux_ok m"
  consider "mf_Type f = MuxData" | "mf_Type f = MuxOpen" | "mf_Type f = MuxClose" | "mf_Type f = MuxPing"
    | "mf_Type f \<notin> {MuxData, MuxOpen, MuxClose, MuxPing}" by blast
  then show ?thesis
  proof cases
    case 1
    with h ok show ?thesis
      by (auto simp: handle_frame_def deliver_def mux_ok_def Let_def nth_list_update set_update_subset_insert
          split: option.splits if_splits dest!: set_update_subset_insert [THEN subsetD])
  next
    case 2
    with h ok show ?thesis by (auto simp: handle_frame_def mux_ok_def mux_types split: if_splits)
  next
    case 3
    show ?thesis
    proof (cases "m_streams m (mf_Stream f)")
      case None
      with 3 h ok show ?thesis by (simp add: handle_frame_def mux_types)
    next
      case (Some a)
      then have "a < length (m_heap m)" "ms_id (m_heap m ! a) = mf_Stream f"
        using ok by (auto simp: mux_ok_def)
      with 3 h Some drop_stream_ok [OF ok, of a] show ?thesis
        by (simp add: handle_frame_def mux_types)
    qed
  next
    case 4
    with h ok show ?thesis by (auto simp: handle_frame_def mux_types dest: send_write_ok)
  next
    case 5
    with h ok show ?thesis by (auto simp: handle_frame_def split: if_splits)
  qed
qed

lemma mux_ok_upd [simp]:
  "mux_ok (m\<lparr>m_in := ci\<rparr>) = mux_ok m" "mux_ok (m\<lparr>m_out := co\<rparr>) = mux_ok m"
  by (simp_all add: mux_ok_def)

lemma mux_ok_step: "mux_step m m' \<Longrightarrow> mux_ok m \<Longrightarrow> mux_ok m'"
proof (induction rule: mux_step.induct)
  case (read_round m go m')
  then show ?case
    by (auto simp: readLoop_round_def split: if_splits prod.splits sum.splits option.splits
        intro: Mux_Close_ok handle_frame_ok)
next
  case (write_round m go m')
  then have "mux_ok (m\<lparr>m_writeCh := tl (m_writeCh m)\<rparr>)"
    by (auto simp: mux_ok_def)
  with write_round show ?case
    by (auto simp: writeLoop_round_def Let_def split: list.splits if_splits prod.splits option.splits
        intro: Mux_Close_ok)
next
  case (stream_read a m n r m')
  then show ?case
    by (auto simp: MuxStream_Read_def mux_ok_def Let_def nth_list_update
        split: list.splits if_splits dest!: set_update_subset_insert [THEN subsetD])
      (metis Suc_leD length_Cons nth_mem)+
next
  case (stream_write a m b r m')
  then show ?case
    by (auto simp: MuxStream_Write_def Let_def split: if_splits option.splits dest: send_write_ok)
next
  case (stream_close a m m')
  have "m_heap m2 = m_heap m" if "send_write f m = Some m2" for f m2
    using that by (auto simp: send_write_def split: if_splits)
  with stream_close drop_stream_ok [OF send_write_ok [OF _ stream_close(3)], of _ _ a] show ?case
    by (auto simp: MuxStream_Close_def Let_def split: if_splits option.splits)
qed (auto intro: OpenStream_ok AcceptStream_ok Mux_Close_ok)

interpretation mux_sys: step_invariant mux_step "\<lambda>m. \<exists>ci co. m = NewMux ci co" mux_ok
proof
  show "mux_ok m" if "\<exists>ci co. m = NewMux ci co" for m using that by (auto simp: NewMux_def mux_ok_def)
qed (rule mux_ok_step)

section \<open>Properties\<close>

text \<open>A frame written by one multiplexer is read back by the other, with its type, stream and, for a
  data frame, its data, and nothing behind it is consumed.\<close>

theorem Mux_frame_roundtrip:
  assumes "length (mf_Data f) < 2 ^ 32" and "writeFrame conn_Write f out = (None, out')"
    and "pending c = drop (length (sent out)) (sent out') @ rest"
  shows "\<exists>c'. readFrame conn_reader c = (Inr (if mf_Type f = MuxData then f else f\<lparr>mf_Data := []\<rparr>), c') \<and>
    pending c' = rest"
proof -
  have "pending c = mux_bytes f @ rest" using writeFrame_sent [OF assms(2)] assms(3) by simp
  then obtain c' where "readFrame conn_reader c = (Inr (frame_norm f), c')" "pending c' = rest"
    by (rule conn_src.readFrame_bytes [OF _ assms(1)])
  then show ?thesis by (simp add: frame_norm_def)
qed

theorem Mux_frame_roundtrip_witness:
  "\<exists>c'. readFrame conn_reader \<lparr>pending = [0, 0, 0, 0, 7, 0, 0, 0, 2, 1, 2, 9], fin = EOF\<rparr> =
      (Inr \<lparr>mf_Type = MuxData, mf_Stream = 7, mf_Data = [1, 2]\<rparr>, c') \<and> pending c' = [9]"
proof -
  let ?f = "\<lparr>mf_Type = MuxData, mf_Stream = 7, mf_Data = [1, 2]\<rparr>"
  have "writeFrame conn_Write ?f \<lparr>sent = [], room = None, ofail = EOF\<rparr> =
      (None, \<lparr>sent = [0, 0, 0, 0, 7, 0, 0, 0, 2, 1, 2], room = None, ofail = EOF\<rparr>)"
    by code_simp
  from Mux_frame_roundtrip [OF _ this, of "\<lparr>pending = [0, 0, 0, 0, 7, 0, 0, 0, 2, 1, 2, 9], fin = EOF\<rparr>" "[9]"]
  show ?thesis by simp
qed





text \<open>A stream closed by its user between the read loop's look-up and its send makes the read loop
  panic; the loop then ends with the panic recovered, and the multiplexer is neither closed nor reading
  any more.\<close>

theorem Mux_close_race:
  assumes "mux_ok m" and "\<not> m_closed m" and "m_streams m i = Some a" and "length (m_writeCh m) < 256"
  shows "\<exists>m'. MuxStream_Close a m = Some m' \<and> deliver a d m' = (Inl Panic, m') \<and>
    \<not> m_closed m' \<and> \<not> (m_conn_closed m' \<and> \<not> m_conn_closed m)"
proof -
  have "a < length (m_heap m)" "\<not> ms_closed (m_heap m ! a)" using assms by (auto simp: mux_ok_def)
  with assms show ?thesis by (simp add: MuxStream_Close_def send_write_def deliver_def close_stream_def Let_def)
qed

theorem Mux_close_race_witness:
  "\<exists>m m'. MuxStream_Close 0 m = Some m' \<and> deliver 0 [1] m' = (Inl Panic, m') \<and> \<not> m_closed m'"
proof -
  let ?m = "\<lparr>m_in = \<lparr>pending = [], fin = EOF\<rparr>, m_out = \<lparr>sent = [], room = None, ofail = EOF\<rparr>, m_nextID = 1,
    m_streams = [1 \<mapsto> 0], m_heap = [\<lparr>ms_id = 1, ms_readCh = [], ms_closed = False\<rparr>], m_closed = False,
    m_readCh = [], m_writeCh = [], m_conn_closed = False\<rparr>"
  have "mux_ok ?m" by (simp add: mux_ok_def)
  from Mux_close_race [OF this, of 1 0 "[1]"] show ?thesis by auto
qed

text \<open>The two ends assign identifiers independently, both counting from 1. When both have opened
  their first stream and one accepts the other's, the accepted stream replaces its own in the table:
  data sent for its own stream is delivered to the accepted one.\<close>

theorem Mux_id_collision:
  "\<exists>a m1 m2 a2 m3 m4. OpenStream (NewMux ci co) = Some (Inr a, m1) \<and> MuxStream_ID a m1 = 1 \<and>
     m_writeCh m1 = [\<lparr>mf_Type = MuxOpen, mf_Stream = 1, mf_Data = []\<rparr>] \<and>
     handle_frame \<lparr>mf_Type = MuxOpen, mf_Stream = 1, mf_Data = []\<rparr> m1 = Some (Inr (), m2) \<and>
     AcceptStream m2 = Some (a2, m3) \<and> a2 \<noteq> a \<and>
     handle_frame \<lparr>mf_Type = MuxData, mf_Stream = 1, mf_Data = d\<rparr> m3 = Some (Inr (), m4) \<and>
     ms_readCh (m_heap m4 ! a) = [] \<and> ms_readCh (m_heap m4 ! a2) = [d]"
  by (simp add: OpenStream_def NewMux_def new_stream_def send_write_def MuxStream_ID_def handle_frame_def
      AcceptStream_def deliver_def mux_types Let_def)

text \<open>Data that arrives before the receiver has called \<^verbatim>\<open>AcceptStream\<close> is lost: the open request waits
  in the accept queue, the stream is entered in the table only by \<^verbatim>\<open>AcceptStream\<close>, and until then the
  read loop drops its data.\<close>

theorem Mux_early_data_lost:
  assumes "m_streams m i = None" and "m_readCh m = []"
  shows "\<exists>m1 m2 a m3. handle_frame \<lparr>mf_Type = MuxOpen, mf_Stream = i, mf_Data = []\<rparr> m = Some (Inr (), m1) \<and>
    handle_frame \<lparr>mf_Type = MuxData, mf_Stream = i, mf_Data = d\<rparr> m1 = Some (Inr (), m2) \<and>
    AcceptStream m2 = Some (a, m3) \<and> MuxStream_ID a m3 = i \<and> ms_readCh (m_heap m3 ! a) = []"
  using assms
  by (simp add: handle_frame_def AcceptStream_def new_stream_def MuxStream_ID_def mux_types)

theorem Mux_early_data_lost_witness:
  "\<exists>m1 m2 a m3. handle_frame \<lparr>mf_Type = MuxOpen, mf_Stream = 1, mf_Data = []\<rparr>
      (NewMux \<lparr>pending = [], fin = EOF\<rparr> \<lparr>sent = [], room = None, ofail = EOF\<rparr>) = Some (Inr (), m1) \<and>
    handle_frame \<lparr>mf_Type = MuxData, mf_Stream = 1, mf_Data = [5]\<rparr> m1 = Some (Inr (), m2) \<and>
    AcceptStream m2 = Some (a, m3) \<and> MuxStream_ID a m3 = 1 \<and> ms_readCh (m_heap m3 ! a) = []"
  by (rule Mux_early_data_lost) (simp_all add: NewMux_def)

text \<open>Closing the multiplexer does not wake a pending \<^verbatim>\<open>AcceptStream\<close>: with no open request waiting it
  blocks after \<^verbatim>\<open>Close\<close> exactly as before, and never reports the end of the connection.\<close>

theorem AcceptStream_after_Close:
  assumes "m_readCh m = []"
  shows "AcceptStream (Mux_Close m) = None"
  using assms by (simp add: AcceptStream_def Mux_Close_def)

theorem AcceptStream_after_Close_witness:
  "AcceptStream (Mux_Close (NewMux \<lparr>pending = [], fin = EOF\<rparr> \<lparr>sent = [], room = None, ofail = EOF\<rparr>)) = None"
  by (rule AcceptStream_after_Close) (simp add: NewMux_def)

end
