(* ===== verification/Mux_Pair.thy ===== *)
theory Mux_Pair
  imports Mux Relay "HOL-Library.Sublist"
begin

text \<open>
  Two multiplexers (\<^verbatim>\<open>tunnel/mux.go\<close>) on the two ends of one connection, with the users of their streams.
  Every interleaving of calls and of the rounds of the four loops is a run, and either end may fail or be
  closed at any moment: a round of the read loop that finds no whole frame on the wire reads the end of the
  connection. The chunks written are shorter than 4 GiB, so that their length fits its field. The theorem: a stream never delivers anything that was not written to a stream of its
  identifier at the other end, and delivers it in the order in which it was written; chunks may only be
  missing.
\<close>

section \<open>Model\<close>

text \<open>
  The two multiplexers, and as history, for each side: the chunks accepted by \<^verbatim>\<open>Write\<close> with the identifier
  of their stream, the frames queued for the write loop, the frames the read loop has handled, and the chunks
  taken out of the channel of a stream by \<^verbatim>\<open>Read\<close>.
\<close>

record mux_pair =
  mp_mux :: "side \<Rightarrow> Mux"
  mp_wrote :: "side \<Rightarrow> (u32 \<times> byte list) list"
  mp_frames :: "side \<Rightarrow> MuxFrame list"
  mp_handled :: "side \<Rightarrow> MuxFrame list"
  mp_read :: "side \<Rightarrow> nat \<Rightarrow> byte list list"

definition new_pair :: "(side \<Rightarrow> inconn) \<Rightarrow> (side \<Rightarrow> outconn) \<Rightarrow> mux_pair" where
  "new_pair ci co =
     \<lparr>mp_mux = (\<lambda>s. NewMux (ci s) (co s)), mp_wrote = (\<lambda>_. []), mp_frames = (\<lambda>_. []), mp_handled = (\<lambda>_. []),
      mp_read = (\<lambda>_ _. [])\<rparr>"

text \<open>The calls that move no data: opening, accepting and closing streams, closing the multiplexer.\<close>

inductive control_call :: "Mux \<Rightarrow> Mux \<Rightarrow> bool" where
  "OpenStream m = Some (r, m') \<Longrightarrow> control_call m m'"
| "AcceptStream m = Some (a, m') \<Longrightarrow> control_call m m'"
| "a < length (m_heap m) \<Longrightarrow> MuxStream_Close a m = Some m' \<Longrightarrow> control_call m m'"
| "control_call m (Mux_Close m)"

text \<open>The frames a call has queued, and the frame a round of the read loop handles.\<close>

definition queued :: "Mux \<Rightarrow> Mux \<Rightarrow> MuxFrame list" where
  "queued m m' = drop (length (m_writeCh m)) (m_writeCh m')"

definition incoming :: "Mux \<Rightarrow> MuxFrame list" where
  "incoming m =
     (if m_closed m then [] else case fst (readFrame conn_reader (m_in m)) of Inl _ \<Rightarrow> [] | Inr f \<Rightarrow> [f])"

definition mux_receives :: "byte list \<Rightarrow> Mux \<Rightarrow> Mux" where
  "mux_receives bs m = m\<lparr>m_in := (m_in m)\<lparr>pending := pending (m_in m) @ bs\<rparr>\<rparr>"

inductive pair_step :: "mux_pair \<Rightarrow> mux_pair \<Rightarrow> bool" where
  control: "control_call (mp_mux P s) m' \<Longrightarrow>
    pair_step P (P\<lparr>mp_mux := (mp_mux P)(s := m'),
      mp_frames := (mp_frames P)(s := mp_frames P s @ queued (mp_mux P s) m')\<rparr>)"
| put: "a < length (m_heap (mp_mux P s)) \<Longrightarrow> length b < 2 ^ 32 \<Longrightarrow>
    MuxStream_Write b a (mp_mux P s) = Some (Inr k, m') \<Longrightarrow>
    pair_step P (P\<lparr>mp_mux := (mp_mux P)(s := m'),
      mp_wrote := (mp_wrote P)(s := mp_wrote P s @ [(MuxStream_ID a (mp_mux P s), b)]),
      mp_frames := (mp_frames P)(s := mp_frames P s @ queued (mp_mux P s) m')\<rparr>)"
| get: "a < length (m_heap (mp_mux P s)) \<Longrightarrow> MuxStream_Read n a (mp_mux P s) = Some (Inr bs, m') \<Longrightarrow>
    pair_step P (P\<lparr>mp_mux := (mp_mux P)(s := m'),
      mp_read := (mp_read P)(s := (mp_read P s)(a := mp_read P s a @ [hd (ms_readCh (m_heap (mp_mux P s) ! a))]))\<rparr>)"
| transmit: "writeLoop_round (mp_mux P s) = Some (go, m') \<Longrightarrow>
    bs = drop (length (sent (m_out (mp_mux P s)))) (sent (m_out m')) \<Longrightarrow>
    pair_step P (P\<lparr>mp_mux := (mp_mux P)(s := m', other s := mux_receives bs (mp_mux P (other s)))\<rparr>)"
| handle: "readLoop_round (mp_mux P s) = Some (go, m') \<Longrightarrow>
    pair_step P (P\<lparr>mp_mux := (mp_mux P)(s := m'),
      mp_frames := (mp_frames P)(s := mp_frames P s @ queued (mp_mux P s) m'),
      mp_handled := (mp_handled P)(s := mp_handled P s @ incoming (mp_mux P s))\<rparr>)"

text \<open>The data a list of frames carries for a stream.\<close>

definition data_for :: "u32 \<Rightarrow> MuxFrame list \<Rightarrow> byte list list" where
  "data_for i fs = map mf_Data (filter (\<lambda>f. mf_Type f = MuxData \<and> mf_Stream f = i) fs)"

definition written_to :: "u32 \<Rightarrow> (u32 \<times> byte list) list \<Rightarrow> byte list list" where
  "written_to i ws = map snd (filter (\<lambda>w. fst w = i) ws)"

lemma data_for_append [simp]: "data_for i (fs @ gs) = data_for i fs @ data_for i gs"
  by (simp add: data_for_def)

section \<open>What the operations leave alone\<close>

text \<open>The identifier and the channel of a stream, and none for an address that is not in use.\<close>

definition slot :: "Mux \<Rightarrow> nat \<Rightarrow> (u32 \<times> byte list list) option" where
  "slot m a = (if a < length (m_heap m) then Some (ms_id (m_heap m ! a), ms_readCh (m_heap m ! a)) else None)"

text \<open>
  \<open>calm m m' fs\<close>: the connection is untouched, the frames \<open>fs\<close> are queued, streams keep their identifiers and
  channels, and new streams have empty channels.
\<close>

definition calm :: "Mux \<Rightarrow> Mux \<Rightarrow> MuxFrame list \<Rightarrow> bool" where
  "calm m m' fs \<longleftrightarrow>
     m_in m' = m_in m \<and> m_out m' = m_out m \<and> m_writeCh m' = m_writeCh m @ fs \<and> (m_closed m \<longrightarrow> m_closed m') \<and>
     (\<forall>a. slot m' a = slot m a \<or> slot m a = None \<and> (\<exists>i. slot m' a = Some (i, [])))"

definition control_frame :: "MuxFrame \<Rightarrow> bool" where
  "control_frame f \<longleftrightarrow> mf_Type f \<noteq> MuxData \<and> mf_Data f = []"

lemma nth_update: "xs[i := x] ! j = (if i = j \<and> i < length xs then x else xs ! j)"
  by (cases "i < length xs") (auto simp: nth_list_update list_update_beyond)

lemma calm_refl: "calm m m []"
  by (simp add: calm_def)

lemma new_stream_calm: "new_stream i m = (a, m') \<Longrightarrow> calm m m' []"
  by (auto simp: new_stream_def calm_def slot_def nth_append less_Suc_eq)

lemma send_write_calm: "send_write f m = Some m' \<Longrightarrow> calm m m' [f]"
  by (auto simp: send_write_def calm_def slot_def split: if_splits)

lemma calm_trans:
  assumes "calm m1 m2 fs" and "calm m2 m3 gs"
  shows "calm m1 m3 (fs @ gs)"
proof -
  have "slot m3 a = slot m1 a \<or> slot m1 a = None \<and> (\<exists>i. slot m3 a = Some (i, []))" for a
    using assms unfolding calm_def by (metis option.distinct(1))
  with assms show ?thesis by (simp add: calm_def)
qed

lemma close_heap_calm:
  "calm m (m\<lparr>m_streams := t, m_heap := (m_heap m)[a := close_stream (m_heap m ! a)]\<rparr>) []"
  by (auto simp: calm_def slot_def close_stream_def nth_update)

lemma Mux_Close_calm: "calm m (Mux_Close m) []"
  by (auto simp: Mux_Close_def calm_def slot_def close_stream_def)

lemma calm_from: "calm (m\<lparr>m_nextID := i\<rparr>) m' fs \<longleftrightarrow> calm m m' fs" "calm (m\<lparr>m_readCh := gs\<rparr>) m' fs \<longleftrightarrow> calm m m' fs"
  by (simp_all add: calm_def slot_def)

lemma OpenStream_calm:
  assumes "OpenStream m = Some (r, m')"
  obtains fs where "calm m m' fs" "list_all control_frame fs"
proof (cases "m_closed m")
  case True
  with assms show thesis by (intro that [of "[]"]) (auto simp: OpenStream_def calm_refl)
next
  case False
  let ?i = "m_nextID m + 1" and ?f = "\<lambda>i. \<lparr>mf_Type = MuxOpen, mf_Stream = i, mf_Data = []\<rparr> :: MuxFrame"
  obtain a m1 where n: "new_stream ?i (m\<lparr>m_nextID := ?i\<rparr>) = (a, m1)" by force
  with assms False have "send_write (?f ?i) m1 = Some m'"
    by (auto simp: OpenStream_def Let_def split: option.splits)
  from calm_trans [OF new_stream_calm [OF n] send_write_calm [OF this]] show thesis
    by (intro that [of "[?f ?i]"]) (simp_all add: calm_from control_frame_def mux_types)
qed

lemma MuxStream_Close_calm:
  assumes "MuxStream_Close a m = Some m'"
  obtains fs where "calm m m' fs" "list_all control_frame fs"
proof (cases "ms_closed (m_heap m ! a)")
  case True
  with assms show thesis by (intro that [of "[]"]) (auto simp: MuxStream_Close_def calm_refl)
next
  case False
  let ?f = "\<lparr>mf_Type = MuxClose, mf_Stream = ms_id (m_heap m ! a), mf_Data = []\<rparr> :: MuxFrame"
  from assms False obtain m1 where m1: "send_write ?f m = Some m1"
    "m' = m1\<lparr>m_streams := (m_streams m1)(ms_id (m_heap m ! a) := None), m_heap := (m_heap m1)[a := close_stream (m_heap m ! a)]\<rparr>"
    by (auto simp: MuxStream_Close_def Let_def split: option.splits)
  then have "m_heap m1 = m_heap m" by (auto simp: send_write_def split: if_splits)
  with calm_trans [OF send_write_calm [OF m1(1)] close_heap_calm [of m1 a]] m1(2) show thesis
    by (intro that [of "[?f]"]) (simp_all add: control_frame_def mux_types)
qed

lemma control_call_calm:
  assumes "control_call m m'" and "mux_ok m"
  obtains fs where "calm m m' fs" "list_all control_frame fs"
  using assms(1)
proof cases
  case (1 r)
  then show thesis by (rule OpenStream_calm) (rule that)
next
  case (2 a)
  then obtain f :: MuxFrame and fs where "new_stream (mf_Stream f) (m\<lparr>m_readCh := fs\<rparr>) = (a, m')"
    using assms(2) by (auto simp: AcceptStream_first split: list.splits)
  from new_stream_calm [OF this] show thesis by (intro that [of "[]"]) (simp_all add: calm_from)
next
  case (3 a)
  from 3(2) show thesis by (rule MuxStream_Close_calm) (rule that)
next
  case 4
  then show thesis using Mux_Close_calm by (intro that [of "[]"]) auto
qed

text \<open>What handling a frame does to the streams: at most its data is appended to one channel.\<close>

definition absorbs :: "MuxFrame \<Rightarrow> Mux \<Rightarrow> Mux \<Rightarrow> bool" where
  "absorbs f m m' \<longleftrightarrow>
     (\<forall>a. slot m' a = slot m a \<or> (\<exists>i c. slot m a = Some (i, c) \<and> slot m' a = Some (i, c @ data_for i [f])))"

lemma calm_absorbs: "calm m m' fs \<Longrightarrow> length (m_heap m') = length (m_heap m) \<Longrightarrow> absorbs f m m'"
  by (auto simp: calm_def absorbs_def slot_def split: if_splits)

text \<open>
  The whole effect of handling a frame: the connection is untouched, only control frames are queued in reply, and
  the streams have absorbed the frame.
\<close>

definition frame_effect :: "MuxFrame \<Rightarrow> Mux \<Rightarrow> Mux \<Rightarrow> bool" where
  "frame_effect f m m' \<longleftrightarrow>
     m_in m' = m_in m \<and> m_out m' = m_out m \<and> m_closed m' = m_closed m \<and> absorbs f m m' \<and>
     (\<exists>fs. m_writeCh m' = m_writeCh m @ fs \<and> list_all control_frame fs)"

lemma frame_effect_refl: "frame_effect f m m"
  by (simp add: frame_effect_def absorbs_def)

lemma calm_effect:
  "calm m m' fs \<Longrightarrow> list_all control_frame fs \<Longrightarrow> m_closed m' = m_closed m \<Longrightarrow> length (m_heap m') = length (m_heap m) \<Longrightarrow>
    frame_effect f m m'"
  using calm_absorbs [of m m' fs f] by (auto simp: frame_effect_def calm_def)

lemma deliver_effect:
  assumes "mf_Type f = MuxData" and "ms_id (m_heap m ! a) = mf_Stream f" and "deliver a (mf_Data f) m = (r, m')"
  shows "frame_effect f m m'"
  using assms
  by (auto simp: deliver_def frame_effect_def absorbs_def slot_def data_for_def Let_def nth_update split: if_splits)

lemma handle_frame_effect:
  assumes "handle_frame f m = Some (r, m')" and "mux_ok m"
  shows "frame_effect f m m'"
proof -
  consider (is_data) "mf_Type f = MuxData" | (is_open) "mf_Type f = MuxOpen" | (is_close) "mf_Type f = MuxClose"
    | (is_ping) "mf_Type f = MuxPing" | (is_rest) "mf_Type f \<notin> {MuxData, MuxOpen, MuxClose, MuxPing}" by blast
  then show ?thesis
  proof cases
    case is_data
    have "ms_id (m_heap m ! a) = mf_Stream f" if "m_streams m (mf_Stream f) = Some a" for a
      using that assms(2) by (simp add: mux_ok_def)
    with is_data assms(1) show ?thesis
      by (cases "m_streams m (mf_Stream f)") (auto simp: handle_frame_def frame_effect_refl deliver_effect)
  next
    case is_open
    with assms(1) show ?thesis
      by (auto simp: handle_frame_def mux_types frame_effect_def absorbs_def slot_def split: if_splits)
  next
    case is_close
    with assms(1) show ?thesis
      by (auto simp: handle_frame_def mux_types frame_effect_refl intro!: calm_effect [OF close_heap_calm] split: option.splits)
  next
    case is_ping
    with assms(1) have w: "send_write \<lparr>mf_Type = MuxPong, mf_Stream = 0, mf_Data = []\<rparr> m = Some m'"
      by (auto simp: handle_frame_def mux_types)
    then have "m_closed m' = m_closed m" "m_heap m' = m_heap m" by (auto simp: send_write_def split: if_splits)
    then show ?thesis by (intro calm_effect [OF send_write_calm [OF w]]) (simp_all add: control_frame_def mux_types)
  next
    case is_rest
    with assms(1) show ?thesis by (auto simp: handle_frame_def frame_effect_refl)
  qed
qed

section \<open>The rounds of the loops\<close>

text \<open>
  What is on the wire: whole frames, and behind them at most the beginning of one whose write failed.
\<close>

definition frame_ok :: "MuxFrame \<Rightarrow> bool" where
  "frame_ok f \<longleftrightarrow> length (mf_Data f) < 2 ^ 32 \<and> (mf_Type f \<noteq> MuxData \<longrightarrow> mf_Data f = [])"

definition wire_bytes :: "MuxFrame list \<Rightarrow> byte list" where
  "wire_bytes fs = concat (map mux_bytes fs)"

definition cut_frame :: "byte list \<Rightarrow> bool" where
  "cut_frame bs \<longleftrightarrow> (\<exists>f. frame_ok f \<and> strict_prefix bs (mux_bytes f))"

lemma wire_bytes_simps [simp]:
  "wire_bytes [] = []" "wire_bytes (f # fs) = mux_bytes f @ wire_bytes fs"
  "wire_bytes (fs @ gs) = wire_bytes fs @ wire_bytes gs"
  by (simp_all add: wire_bytes_def)

lemma wire_bytes_Nil: "wire_bytes fs = [] \<longleftrightarrow> fs = []"
  by (cases fs) (simp_all add: mux_bytes_def)

lemma cut_frame_Nil: "cut_frame []"
  by (auto simp: cut_frame_def frame_ok_def mux_bytes_def intro!: exI [of _ "\<lparr>mf_Type = MuxOpen, mf_Stream = 0, mf_Data = []\<rparr>"])

lemma control_frame_ok: "control_frame f \<Longrightarrow> frame_ok f"
  by (simp add: control_frame_def frame_ok_def)

lemma frame_ok_norm: "frame_ok f \<Longrightarrow> frame_norm f = f"
  by (cases f) (auto simp: frame_ok_def frame_norm_def)

lemma strict_prefix_split:
  assumes "strict_prefix xs (ys @ zs)" and "length ys \<le> length xs"
  obtains us where "xs = ys @ us" "strict_prefix us zs"
proof -
  from assms obtain us where us: "xs = ys @ us"
    using prefix_length_prefix [of ys "ys @ zs" xs] by (auto simp: strict_prefix_def prefix_def)
  with assms(1) have "strict_prefix us zs" by (simp add: strict_prefix_def)
  with us show thesis by (rule that)
qed

context byte_source
begin

lemma ReadFull_cut: "length (content r) < n \<Longrightarrow> \<exists>e r'. ReadFull R n r = (Inl e, r') \<and> content r' = []"
  using ReadFull_short [of r n] by (cases "ReadFull R n r") auto

text \<open>The beginning of a frame is not a frame: reading it fails and leaves nothing.\<close>

lemma readFrame_cut_data:
  assumes "content r = mf_Type f # be_put 4 (mf_Stream f) @ c1" and "mf_Type f = MuxData" and "length (mf_Data f) < 2 ^ 32"
    and "strict_prefix c1 (be_put 4 (word_of_nat (length (mf_Data f)) :: u32) @ mf_Data f)"
  shows "\<exists>e r'. readFrame R r = (Inl e, r') \<and> content r' = []"
proof -
  let ?h = "mf_Type f # be_put 4 (mf_Stream f)" and ?l = "be_put 4 (word_of_nat (length (mf_Data f)) :: u32)"
  obtain r1 where r1: "ReadFull R 5 r = (Inr ?h, r1)" "content r1 = c1"
    using ReadFull_append_obtain [of r ?h c1 5] assms(1) by auto
  note start = readFrame_def r1(1) assms(2) Let_def
  show ?thesis
  proof (cases "length c1 < 4")
    case True
    with ReadFull_cut [of r1 4] r1(2) show ?thesis by (auto simp: start)
  next
    case False
    then obtain c2 where c2: "c1 = ?l @ c2" and "strict_prefix c2 (mf_Data f)"
      using strict_prefix_split [OF assms(4)] by auto
    then have l: "length c2 < length (mf_Data f)" by (simp add: prefix_length_less)
    obtain r2 where r2: "ReadFull R 4 r1 = (Inr ?l, r2)" "content r2 = c2"
      using ReadFull_append_obtain [of r1 ?l c2 4] r1(2) c2 by auto
    have u: "unat (be_get ?l :: u32) = length (mf_Data f)"
      using assms(3) by (simp add: be_get_be_put unat_i32_of_nat)
    from ReadFull_cut [of r2 "length (mf_Data f)"] r2(2) l show ?thesis by (auto simp: start r2(1) u)
  qed
qed

lemma readFrame_cut:
  assumes "cut_frame (content r)"
  shows "\<exists>e r'. readFrame R r = (Inl e, r') \<and> content r' = []"
proof -
  from assms obtain f where f: "frame_ok f" "strict_prefix (content r) (mux_bytes f)" by (auto simp: cut_frame_def)
  show ?thesis
  proof (cases "length (content r) < 5")
    case True
    from ReadFull_cut [OF True] show ?thesis by (auto simp: readFrame_def)
  next
    case False
    have d: "mf_Type f = MuxData"
    proof (rule ccontr)
      assume "mf_Type f \<noteq> MuxData"
      then have "length (mux_bytes f) = 5" by (simp add: mux_bytes_def)
      with prefix_length_less [OF f(2)] False show False by simp
    qed
    let ?h = "mf_Type f # be_put 4 (mf_Stream f)" and ?l = "be_put 4 (word_of_nat (length (mf_Data f)) :: u32)"
    have "mux_bytes f = ?h @ ?l @ mf_Data f" using d by (simp add: mux_bytes_def)
    with f(2) False obtain c1 where "content r = ?h @ c1" "strict_prefix c1 (?l @ mf_Data f)"
      using strict_prefix_split [of "content r" ?h "?l @ mf_Data f"] by auto
    with d f(1) show ?thesis by (intro readFrame_cut_data) (simp_all add: frame_ok_def)
  qed
qed

end

text \<open>A round of the write loop sends the next frame, or the beginning of it and then closes the multiplexer.\<close>

lemma writeLoop_round_effect:
  assumes "writeLoop_round m = Some (go, m')" and "\<forall>f \<in> set (m_writeCh m). frame_ok f"
  obtains f fs bs where "m_writeCh m = f # fs" "m_writeCh m' = fs" "sent (m_out m') = sent (m_out m) @ bs"
    "m_in m' = m_in m" "slot m' = slot m" "m_closed m \<longrightarrow> m_closed m'"
    "\<not> m_closed m' \<and> bs = mux_bytes f \<or> m_closed m' \<and> \<not> m_closed m \<and> cut_frame bs \<or> m_closed m \<and> bs = []"
proof -
  obtain f fs where c: "m_writeCh m = f # fs" using assms(1) by (cases "m_writeCh m") (auto simp: writeLoop_round_def)
  note rd = writeLoop_round_def c Let_def
  show thesis
  proof (cases "m_closed m")
    case True
    with assms(1) c show thesis by (intro that [of f fs "[]"]) (auto simp: rd slot_def)
  next
    case False
    have fr: "frame_ok f" using assms(2) c by simp
    obtain n e co where w: "conn_Write (mux_bytes f) (m_out m) = ((n, e), co)" by (metis prod.exhaust)
    have pre: "n \<le> length (mux_bytes f)" "sent co = sent (m_out m) @ take n (mux_bytes f)"
      using conn_snk.write_prefix [OF _ w] by auto
    show thesis
    proof (cases e)
      case None
      with assms(1) False w have "m' = m\<lparr>m_writeCh := fs, m_out := co\<rparr>" by (auto simp: rd writeFrame_bytes)
      moreover have "sent co = sent (m_out m) @ mux_bytes f" using conn_snk.write_all [OF _ w [unfolded None]] by simp
      ultimately show thesis using False c by (intro that [of f fs "mux_bytes f"]) (auto simp: slot_def)
    next
      case (Some err)
      with assms(1) False w have m': "m' = Mux_Close (m\<lparr>m_writeCh := fs, m_out := co\<rparr>)"
        by (auto simp: rd writeFrame_bytes)
      have "n < length (mux_bytes f)" using w Some by (auto simp: conn_Write_def split: option.splits if_splits)
      then have "strict_prefix (take n (mux_bytes f)) (mux_bytes f)"
        by (simp add: strict_prefix_def take_is_prefix)
      with fr have "cut_frame (take n (mux_bytes f))" by (auto simp: cut_frame_def)
      moreover have "m_closed m'" "m_writeCh m' = fs" "m_out m' = co" "m_in m' = m_in m" "slot m' = slot m"
        using False by (auto simp: m' Mux_Close_def slot_def close_stream_def)
      ultimately show thesis using False c pre(2) by (intro that [of f fs "take n (mux_bytes f)"]) auto
    qed
  qed
qed

text \<open>A round of the read loop handles the next frame, or finds that there is no whole one and closes.\<close>

lemma readLoop_round_frame:
  assumes "readLoop_round m = Some (go, m')" and "mux_ok m" and "\<not> m_closed m"
    and "pending (m_in m) = mux_bytes f @ rest" and "frame_ok f"
  obtains fs ci where "incoming m = [f]" "m_in m' = ci" "pending ci = rest" "m_out m' = m_out m"
    "m_writeCh m' = m_writeCh m @ fs" "list_all control_frame fs" "m_closed m' = m_closed m" "absorbs f m m'"
proof -
  obtain ci where ci: "readFrame conn_reader (m_in m) = (Inr f, ci)" "pending ci = rest"
    using conn_src.readFrame_bytes [OF assms(4)] assms(5) frame_ok_norm [OF assms(5)] by (auto simp: frame_ok_def)
  with assms(1,3) obtain r where h: "handle_frame f (m\<lparr>m_in := ci\<rparr>) = Some (r, m')"
    by (auto simp: readLoop_round_def split: option.splits sum.splits)
  obtain fs where "m_in m' = ci" "m_out m' = m_out m" "m_writeCh m' = m_writeCh m @ fs" "list_all control_frame fs"
    "m_closed m' = m_closed m" "absorbs f (m\<lparr>m_in := ci\<rparr>) m'"
    using handle_frame_effect [OF h] assms(2) by (auto simp: frame_effect_def)
  moreover have "incoming m = [f]" using ci(1) assms(3) by (simp add: incoming_def)
  moreover have "slot (m\<lparr>m_in := ci\<rparr>) = slot m" by (simp add: slot_def fun_eq_iff)
  ultimately show thesis using ci(2) by (intro that [of ci fs]) (simp_all add: absorbs_def)
qed

lemma readLoop_round_cut:
  assumes "readLoop_round m = Some (go, m')" and "\<not> m_closed m" and "cut_frame (pending (m_in m))"
  shows "incoming m = [] \<and> pending (m_in m') = [] \<and> m_out m' = m_out m \<and> m_writeCh m' = m_writeCh m \<and> m_closed m' \<and>
    slot m' = slot m"
proof -
  obtain e ci where ci: "readFrame conn_reader (m_in m) = (Inl e, ci)" "pending ci = []"
    using conn_src.readFrame_cut [OF assms(3)] by blast
  with assms(1,2) have "m' = Mux_Close (m\<lparr>m_in := ci\<rparr>)" by (simp add: readLoop_round_def)
  with ci assms(2) show ?thesis by (auto simp: incoming_def Mux_Close_def slot_def close_stream_def)
qed

section \<open>Invariant\<close>

text \<open>
  \<open>link\<close>: of the frames \<open>F\<close> queued at one end, those in \<open>H\<close> are handled at the other, then some are on the wire,
  and the rest waits in the channel of the write loop, or is lost when the multiplexer has been closed.
  \<open>delivered\<close>: what was read from a stream and what waits in its channel comes, in order, from frames handled.
\<close>

definition link :: "Mux \<Rightarrow> Mux \<Rightarrow> MuxFrame list \<Rightarrow> MuxFrame list \<Rightarrow> bool" where
  "link m r F H \<longleftrightarrow> (\<exists>fs junk ys. F = H @ fs @ ys \<and> pending (m_in r) = wire_bytes fs @ junk \<and>
     list_all frame_ok fs \<and> cut_frame junk \<and> (\<not> m_closed m \<longrightarrow> junk = [] \<and> ys = m_writeCh m))"

definition delivered :: "Mux \<Rightarrow> (nat \<Rightarrow> byte list list) \<Rightarrow> MuxFrame list \<Rightarrow> bool" where
  "delivered m R H \<longleftrightarrow>
     (\<forall>a. case slot m a of None \<Rightarrow> R a = [] | Some (i, c) \<Rightarrow> subseq (R a @ c) (data_for i H))"

definition sound :: "Mux \<Rightarrow> bool" where
  "sound m \<longleftrightarrow> mux_ok m \<and> list_all frame_ok (m_writeCh m)"

definition pair_inv :: "mux_pair \<Rightarrow> bool" where
  "pair_inv P \<longleftrightarrow> (\<forall>s. sound (mp_mux P s) \<and>
     link (mp_mux P s) (mp_mux P (other s)) (mp_frames P s) (mp_handled P (other s)) \<and>
     delivered (mp_mux P s) (mp_read P s) (mp_handled P s) \<and>
     (\<forall>i. data_for i (mp_frames P s) = written_to i (mp_wrote P s)))"

lemma linkI:
  "F = H @ fs @ ys \<Longrightarrow> pending (m_in r) = wire_bytes fs @ junk \<Longrightarrow> list_all frame_ok fs \<Longrightarrow> cut_frame junk \<Longrightarrow>
    (\<not> m_closed m \<Longrightarrow> junk = [] \<and> ys = m_writeCh m) \<Longrightarrow> link m r F H"
  unfolding link_def by blast

lemma link_sender:
  "link m r F H \<Longrightarrow> m_writeCh m' = m_writeCh m @ fs \<Longrightarrow> (m_closed m \<longrightarrow> m_closed m') \<Longrightarrow> link m' r (F @ fs) H"
  by (fastforce simp: link_def)

lemma link_receiver: "m_in r' = m_in r \<Longrightarrow> link m r' F H \<longleftrightarrow> link m r F H"
  by (simp add: link_def)

lemma delivered_slot: "slot m' = slot m \<Longrightarrow> delivered m' R H \<longleftrightarrow> delivered m R H"
  by (simp add: delivered_def)

lemma delivered_calm:
  assumes "delivered m R H" and "calm m m' fs"
  shows "delivered m' R H"
  unfolding delivered_def
proof
  fix a
  from assms(2) consider "slot m' a = slot m a" | i where "slot m a = None" "slot m' a = Some (i, [])"
    by (auto simp: calm_def)
  then show "case slot m' a of None \<Rightarrow> R a = [] | Some (i, c) \<Rightarrow> subseq (R a @ c) (data_for i H)"
    using assms(1) [unfolded delivered_def, rule_format, of a] by cases simp_all
qed

lemma delivered_absorbs:
  assumes "delivered m R H" and "absorbs f m m'"
  shows "delivered m' R (H @ [f])"
  unfolding delivered_def
proof
  fix a
  from assms(2) consider "slot m' a = slot m a" | i c where "slot m a = Some (i, c)" "slot m' a = Some (i, c @ data_for i [f])"
    unfolding absorbs_def by blast
  then show "case slot m' a of None \<Rightarrow> R a = [] | Some (i, c) \<Rightarrow> subseq (R a @ c) (data_for i (H @ [f]))"
  proof cases
    case 1
    with assms(1) [unfolded delivered_def, rule_format, of a] show ?thesis by (auto split: option.splits)
  next
    case 2
    with assms(1) [unfolded delivered_def, rule_format, of a] have "subseq (R a @ c) (data_for i H)" by simp
    from list_emb_append_mono [OF this subseq_order.refl [of "data_for i [f]"]] 2 show ?thesis by simp
  qed
qed

lemma queued_append: "m_writeCh m' = m_writeCh m @ fs \<Longrightarrow> queued m m' = fs"
  by (simp add: queued_def)

lemma control_frames_data: "list_all control_frame fs \<Longrightarrow> data_for i fs = [] \<and> list_all frame_ok fs"
  by (induction fs) (auto simp: data_for_def control_frame_def frame_ok_def)

lemma control_call_ok: "control_call m m' \<Longrightarrow> mux_ok m \<Longrightarrow> mux_ok m'"
  by (induction rule: control_call.induct) (auto intro: mux_ok_step mux_step.intros)

lemma all_sides: "(\<forall>t. Q t) \<longleftrightarrow> Q s \<and> Q (other s)"
  using side_cases by metis

text \<open>A step that changes one multiplexer only.\<close>

lemma pair_inv_side:
  assumes inv: "pair_inv P"
    and m': "mux_ok m'" "m_writeCh m' = m_writeCh (mp_mux P s) @ fs" "m_closed (mp_mux P s) \<longrightarrow> m_closed m'"
    and fs: "list_all frame_ok fs" "\<And>i. data_for i fs = written_to i ws"
    and H: "link (mp_mux P (other s)) m' (mp_frames P (other s)) H" "delivered m' R H"
    and P': "mp_mux P' = (mp_mux P)(s := m')" "mp_frames P' = (mp_frames P)(s := mp_frames P s @ fs)"
      "mp_wrote P' = (mp_wrote P)(s := mp_wrote P s @ ws)" "mp_handled P' = (mp_handled P)(s := H)"
      "mp_read P' = (mp_read P)(s := R)"
  shows "pair_inv P'"
  unfolding pair_inv_def
proof
  fix t
  note i = inv [unfolded pair_inv_def, rule_format]
  consider "t = s" | "t = other s" using side_cases by blast
  then show "sound (mp_mux P' t) \<and> link (mp_mux P' t) (mp_mux P' (other t)) (mp_frames P' t) (mp_handled P' (other t)) \<and>
     delivered (mp_mux P' t) (mp_read P' t) (mp_handled P' t) \<and>
     (\<forall>i. data_for i (mp_frames P' t) = written_to i (mp_wrote P' t))"
  proof cases
    case 1
    from i [of s] have "link m' (mp_mux P (other s)) (mp_frames P s @ fs) (mp_handled P (other s))"
      using link_sender m'(2,3) by blast
    with 1 i [of s] m' fs H(2) show ?thesis by (simp add: P' sound_def written_to_def)
  next
    case 2
    with i [of "other s"] H(1) show ?thesis by (simp add: P')
  qed
qed

lemma pair_inv_calm:
  assumes inv: "pair_inv P" and "mux_ok m'" and c: "calm (mp_mux P s) m' fs"
    and "list_all frame_ok fs" and "\<And>i. data_for i fs = written_to i ws"
    and P': "mp_mux P' = (mp_mux P)(s := m')" "mp_frames P' = (mp_frames P)(s := mp_frames P s @ queued (mp_mux P s) m')"
      "mp_wrote P' = (mp_wrote P)(s := mp_wrote P s @ ws)" "mp_handled P' = mp_handled P" "mp_read P' = mp_read P"
  shows "pair_inv P'"
proof -
  note i = inv [unfolded pair_inv_def, rule_format]
  from c have m': "m_in m' = m_in (mp_mux P s)" "m_writeCh m' = m_writeCh (mp_mux P s) @ fs"
    "m_closed (mp_mux P s) \<longrightarrow> m_closed m'" by (simp_all add: calm_def)
  have "link (mp_mux P (other s)) m' (mp_frames P (other s)) (mp_handled P s)"
    using i [of "other s"] by (simp add: link_receiver [OF m'(1)])
  moreover have "delivered m' (mp_read P s) (mp_handled P s)" using i [of s] delivered_calm [OF _ c] by blast
  ultimately show ?thesis
    by (rule pair_inv_side [OF inv assms(2) m'(2,3) assms(4,5)]) (simp_all add: P' queued_append [OF m'(2)])
qed

lemma MuxStream_Write_calm:
  assumes "MuxStream_Write b a m = Some (Inr k, m')"
  shows "calm m m' [\<lparr>mf_Type = MuxData, mf_Stream = MuxStream_ID a m, mf_Data = b\<rparr>]"
  using assms
  by (auto simp: MuxStream_Write_def MuxStream_ID_def Let_def intro: send_write_calm split: if_splits option.splits)

text \<open>Reading moves the first chunk from the channel to the reader.\<close>

lemma MuxStream_Read_effect:
  assumes "MuxStream_Read n a m = Some (Inr bs, m')" and "a < length (m_heap m)" and "delivered m R H"
  shows "m_in m' = m_in m \<and> m_writeCh m' = m_writeCh m \<and> m_closed m' = m_closed m \<and>
    delivered m' (R(a := R a @ [hd (ms_readCh (m_heap m ! a))])) H"
proof -
  let ?s = "m_heap m ! a"
  obtain d ds where c: "ms_readCh ?s = d # ds" and m': "m' = m\<lparr>m_heap := (m_heap m)[a := ?s\<lparr>ms_readCh := ds\<rparr>]\<rparr>"
    using assms(1) by (auto simp: MuxStream_Read_def Let_def split: list.splits if_splits)
  have "slot m' b = (if b = a then Some (ms_id ?s, ds) else slot m b)" for b
    using assms(2) by (auto simp: m' slot_def nth_update)
  moreover have "slot m a = Some (ms_id ?s, d # ds)" using assms(2) c by (simp add: slot_def)
  ultimately have "case slot m' b of None \<Rightarrow> (R(a := R a @ [d])) b = []
      | Some (i, c) \<Rightarrow> subseq ((R(a := R a @ [d])) b @ c) (data_for i H)" for b
    using assms(3) [unfolded delivered_def, rule_format, of b] by (cases "b = a") (auto split: option.splits)
  then show ?thesis by (simp add: m' c delivered_def)
qed

text \<open>A round of the read loop takes the next frame off the wire.\<close>

lemma readLoop_round_effect:
  assumes "readLoop_round m = Some (go, m')" and "mux_ok m" and "link q m F H" and "delivered m R H"
  obtains fs where "m_writeCh m' = m_writeCh m @ fs" "list_all control_frame fs" "m_closed m \<longrightarrow> m_closed m'"
    "link q m' F (H @ incoming m)" "delivered m' R (H @ incoming m)"
proof (cases "m_closed m")
  case True
  with assms show thesis by (intro that [of "[]"]) (auto simp: readLoop_round_def incoming_def)
next
  case False
  from assms(3) obtain fs junk ys where l: "F = H @ fs @ ys" "pending (m_in m) = wire_bytes fs @ junk"
    "list_all frame_ok fs" "cut_frame junk" "\<not> m_closed q \<longrightarrow> junk = [] \<and> ys = m_writeCh q" by (auto simp: link_def)
  show thesis
  proof (cases fs)
    case Nil
    with l(2,4) have "cut_frame (pending (m_in m))" by simp
    from readLoop_round_cut [OF assms(1) False this]
    have c: "incoming m = []" "pending (m_in m') = []" "m_writeCh m' = m_writeCh m" "m_closed m'" "slot m' = slot m" by simp_all
    have "link q m' F H"
      by (rule linkI [of _ _ "[]" ys _ "[]"]) (use l Nil c(2) cut_frame_Nil in simp_all)
    with c(1,3,4) assms(4) delivered_slot [OF c(5)] show thesis by (intro that [of "[]"]) simp_all
  next
    case (Cons f gs)
    with l have fo: "frame_ok f" "pending (m_in m) = mux_bytes f @ wire_bytes gs @ junk" by auto
    obtain hs ci where c: "incoming m = [f]" "m_in m' = ci" "pending ci = wire_bytes gs @ junk"
      "m_writeCh m' = m_writeCh m @ hs" "list_all control_frame hs" "m_closed m' = m_closed m" "absorbs f m m'"
      by (rule readLoop_round_frame [OF assms(1,2) False fo(2,1)])
    have "link q m' F (H @ [f])"
      by (rule linkI [of _ _ gs ys _ junk]) (use l Cons c(2,3) in simp_all)
    with c delivered_absorbs [OF assms(4) c(7)] show thesis by (intro that [of hs]) simp_all
  qed
qed

text \<open>A round of the write loop puts the next frame on the wire.\<close>

lemma mux_receives_simps [simp]:
  "pending (m_in (mux_receives bs m)) = pending (m_in m) @ bs" "m_writeCh (mux_receives bs m) = m_writeCh m"
  "m_closed (mux_receives bs m) = m_closed m" "slot (mux_receives bs m) = slot m" "mux_ok (mux_receives bs m) = mux_ok m"
  by (simp_all add: mux_receives_def slot_def fun_eq_iff)

lemma link_extend:
  assumes "link m r F H" and "m_writeCh m = f # fs" and "m_writeCh m' = fs" and "frame_ok f"
    and "\<not> m_closed m" and "bs = mux_bytes f \<or> m_closed m' \<and> cut_frame bs"
  shows "link m' (mux_receives bs r) F H"
proof -
  from assms(1,5) obtain gs where l: "F = H @ gs @ m_writeCh m" "pending (m_in r) = wire_bytes gs" "list_all frame_ok gs"
    by (auto simp: link_def)
  from assms(6) show ?thesis
  proof
    assume "bs = mux_bytes f"
    then show ?thesis by (intro linkI [of _ _ "gs @ [f]" fs _ "[]"]) (use l assms(2-4) cut_frame_Nil in simp_all)
  next
    assume "m_closed m' \<and> cut_frame bs"
    then show ?thesis by (intro linkI [of _ _ gs "f # fs" _ bs]) (use l assms(2) in simp_all)
  qed
qed

lemma link_stopped:
  "link m r F H \<Longrightarrow> m_closed m \<Longrightarrow> m_closed m' \<Longrightarrow> link m' (mux_receives [] r) F H"
  by (simp add: link_def)

lemma pair_inv_transmit:
  assumes inv: "pair_inv P" and w: "writeLoop_round (mp_mux P s) = Some (go, m')"
    and bs: "bs = drop (length (sent (m_out (mp_mux P s)))) (sent (m_out m'))"
  shows "pair_inv (P\<lparr>mp_mux := (mp_mux P)(s := m', other s := mux_receives bs (mp_mux P (other s)))\<rparr>)"
proof -
  let ?m = "mp_mux P s" and ?r = "mp_mux P (other s)"
  note i = inv [unfolded pair_inv_def, rule_format]
  have ok: "sound ?m" using i [of s] by simp
  obtain f fs bs' where e: "m_writeCh ?m = f # fs" "m_writeCh m' = fs" "sent (m_out m') = sent (m_out ?m) @ bs'"
    "m_in m' = m_in ?m" "slot m' = slot ?m" "m_closed ?m \<longrightarrow> m_closed m'"
    "\<not> m_closed m' \<and> bs' = mux_bytes f \<or> m_closed m' \<and> \<not> m_closed ?m \<and> cut_frame bs' \<or> m_closed ?m \<and> bs' = []"
    using writeLoop_round_effect [OF w] ok by (auto simp: sound_def list_all_iff)
  have "frame_ok f" "list_all frame_ok fs" using ok e(1) by (simp_all add: sound_def)
  moreover have "mux_ok m'" using ok mux_ok_step [OF mux_step.write_round [OF w]] by (simp add: sound_def)
  ultimately have s': "sound m'" by (simp add: sound_def e(2))
  have "bs' = bs" using bs e(3) by simp
  have "link m' (mux_receives bs ?r) (mp_frames P s) (mp_handled P (other s))"
  proof (cases "m_closed ?m")
    case True
    with e(6,7) \<open>bs' = bs\<close> link_stopped i [of s] show ?thesis by auto
  next
    case False
    with e(7) \<open>bs' = bs\<close> have "bs = mux_bytes f \<or> m_closed m' \<and> cut_frame bs" by blast
    with link_extend e(1,2) \<open>frame_ok f\<close> False i [of s] show ?thesis by blast
  qed
  moreover have "link (mux_receives bs ?r) m' (mp_frames P (other s)) (mp_handled P s)"
    using i [of "other s"] by (simp add: link_def e(4))
  ultimately have "link m' (mux_receives bs ?r) (mp_frames P s) (mp_handled P (other s)) \<and>
    link (mux_receives bs ?r) m' (mp_frames P (other s)) (mp_handled P s)" ..
  moreover have "delivered m' (mp_read P s) (mp_handled P s)"
    "delivered (mux_receives bs ?r) (mp_read P (other s)) (mp_handled P (other s))"
    using i by (simp_all add: delivered_def e(5))
  ultimately show ?thesis
    unfolding pair_inv_def all_sides [of _ s] using s' i by (simp add: sound_def)
qed

lemma pair_inv_get:
  assumes inv: "pair_inv P" and a: "a < length (m_heap (mp_mux P s))" and r: "MuxStream_Read n a (mp_mux P s) = Some (Inr bs, m')"
  shows "pair_inv (P\<lparr>mp_mux := (mp_mux P)(s := m'),
      mp_read := (mp_read P)(s := (mp_read P s)(a := mp_read P s a @ [hd (ms_readCh (m_heap (mp_mux P s) ! a))]))\<rparr>)"
proof -
  note i = inv [unfolded pair_inv_def, rule_format]
  have "delivered (mp_mux P s) (mp_read P s) (mp_handled P s)" using i by simp
  note e = MuxStream_Read_effect [OF r a this]
  have "mux_ok m'" using mux_ok_step [OF mux_step.stream_read [OF a r]] i [of s] by (simp add: sound_def)
  then show ?thesis
    by (rule pair_inv_side [OF inv, where s = s and fs = "[]" and ws = "[]" and H = "mp_handled P s"])
      (use e link_receiver [of m' "mp_mux P s"] i [of "other s"] in \<open>simp_all add: written_to_def data_for_def\<close>)
qed

lemma pair_inv_handle:
  assumes inv: "pair_inv P" and r: "readLoop_round (mp_mux P s) = Some (go, m')"
  shows "pair_inv (P\<lparr>mp_mux := (mp_mux P)(s := m'),
      mp_frames := (mp_frames P)(s := mp_frames P s @ queued (mp_mux P s) m'),
      mp_handled := (mp_handled P)(s := mp_handled P s @ incoming (mp_mux P s))\<rparr>)"
proof -
  note i = inv [unfolded pair_inv_def, rule_format]
  have ok: "mux_ok (mp_mux P s)" using i [of s] by (simp add: sound_def)
  obtain fs where fs: "m_writeCh m' = m_writeCh (mp_mux P s) @ fs" "list_all control_frame fs"
    "m_closed (mp_mux P s) \<longrightarrow> m_closed m'"
    "link (mp_mux P (other s)) m' (mp_frames P (other s)) (mp_handled P s @ incoming (mp_mux P s))"
    "delivered m' (mp_read P s) (mp_handled P s @ incoming (mp_mux P s))"
    using readLoop_round_effect [OF r ok] i [of s] i [of "other s"] by (metis other_simps(1))
  have "mux_ok m'" using mux_ok_step [OF mux_step.read_round [OF r] ok] .
  then show ?thesis
    by (rule pair_inv_side [OF inv, where s = s and fs = fs and ws = "[]" and R = "mp_read P s" and
        H = "mp_handled P s @ incoming (mp_mux P s)"])
      (use fs control_frames_data [OF fs(2)] in \<open>simp_all add: queued_append written_to_def\<close>)
qed

lemma pair_inv_step: "pair_step P P' \<Longrightarrow> pair_inv P \<Longrightarrow> pair_inv P'"
proof (induction rule: pair_step.induct)
  case (control P s m')
  note i = control(2) [unfolded pair_inv_def, rule_format]
  have ok: "mux_ok (mp_mux P s)" using i [of s] by (simp add: sound_def)
  obtain fs where fs: "calm (mp_mux P s) m' fs" "list_all control_frame fs" by (rule control_call_calm [OF control(1) ok])
  have "mux_ok m'" using control(1) ok by (rule control_call_ok)
  then show ?case
    by (rule pair_inv_calm [OF control(2) _ fs(1), where ws = "[]"])
      (use control_frames_data [OF fs(2)] in \<open>simp_all add: written_to_def\<close>)
next
  case (put a P s b k m')
  note i = put(4) [unfolded pair_inv_def, rule_format]
  let ?f = "\<lparr>mf_Type = MuxData, mf_Stream = MuxStream_ID a (mp_mux P s), mf_Data = b\<rparr>"
  have c: "calm (mp_mux P s) m' [?f]" by (rule MuxStream_Write_calm [OF put(3)])
  have "mux_ok m'" using mux_ok_step [OF mux_step.stream_write [OF put(1,3)]] i [of s] by (simp add: sound_def)
  then show ?case
    by (rule pair_inv_calm [OF put(4) _ c, where ws = "[(MuxStream_ID a (mp_mux P s), b)]"])
      (use put(2) in \<open>simp_all add: written_to_def data_for_def frame_ok_def\<close>)
next
  case (get a P s n bs m')
  then show ?case by (intro pair_inv_get)
next
  case (transmit P s go m' bs)
  then show ?case by (intro pair_inv_transmit)
next
  case (handle P s go m')
  then show ?case by (intro pair_inv_handle)
qed

interpretation pair_sys: step_invariant pair_step "\<lambda>P. \<exists>ci co. P = new_pair ci co \<and> (\<forall>s. pending (ci s) = [])" pair_inv
proof
  show "pair_inv P" if "\<exists>ci co. P = new_pair ci co \<and> (\<forall>s. pending (ci s) = [])" for P
    using that
    by (auto simp: new_pair_def NewMux_def pair_inv_def sound_def mux_ok_def delivered_def slot_def data_for_def written_to_def
        intro!: linkI [of _ _ "[]" "[]" _ "[]"] cut_frame_Nil)
qed (rule pair_inv_step)

section \<open>Properties\<close>


text \<open>Runs from the client's side to the server's, step by step.\<close>

definition runs_to :: "mux_pair \<Rightarrow> Mux \<Rightarrow> Mux \<Rightarrow> byte list list \<Rightarrow> bool" where
  "runs_to P0 C S R \<longleftrightarrow>
     (\<exists>P. reaches pair_step P0 P \<and> mp_mux P Client = C \<and> mp_mux P Server = S \<and> mp_read P Server 0 = R)"

lemma runs_toI:
  "reaches pair_step P0 P \<Longrightarrow> pair_step P P' \<Longrightarrow> mp_mux P' Client = C \<Longrightarrow> mp_mux P' Server = S \<Longrightarrow> mp_read P' Server 0 = R \<Longrightarrow>
    runs_to P0 C S R"
  unfolding runs_to_def by (intro exI [of _ P'] conjI reaches_step [of pair_step P0 P P'])

lemma runs_toE:
  assumes "runs_to P0 C S R"
  obtains P where "reaches pair_step P0 P" "C = mp_mux P Client" "S = mp_mux P Server" "R = mp_read P Server 0"
  using assms by (auto simp: runs_to_def)

lemma runs_control:
  assumes "runs_to P0 C S R"
  shows "control_call C C' \<Longrightarrow> runs_to P0 C' S R" and "control_call S S' \<Longrightarrow> runs_to P0 C S' R"
proof -
  obtain P where P: "reaches pair_step P0 P" "C = mp_mux P Client" "S = mp_mux P Server" "R = mp_read P Server 0"
    using assms by (rule runs_toE)
  show "runs_to P0 C' S R" if "control_call C C'"
    by (rule runs_toI [OF P(1) pair_step.control [OF that [unfolded P(2)]]]) (simp_all add: P)
  show "runs_to P0 C S' R" if "control_call S S'"
    by (rule runs_toI [OF P(1) pair_step.control [OF that [unfolded P(3)]]]) (simp_all add: P)
qed

lemma runs_put:
  assumes "runs_to P0 C S R" and "MuxStream_Write b a C = Some (Inr k, C')" and "a < length (m_heap C)" and "length b < 2 ^ 32"
  shows "runs_to P0 C' S R"
proof -
  obtain P where P: "reaches pair_step P0 P" "C = mp_mux P Client" "S = mp_mux P Server" "R = mp_read P Server 0"
    using assms(1) by (rule runs_toE)
  show ?thesis
    by (rule runs_toI [OF P(1) pair_step.put [OF assms(3,4,2) [unfolded P(2)]]]) (simp_all add: P)
qed

lemma runs_get:
  assumes "runs_to P0 C S R" and "MuxStream_Read n 0 S = Some (Inr bs, S')" and "0 < length (m_heap S)"
  shows "runs_to P0 C S' (R @ [hd (ms_readCh (m_heap S ! 0))])"
proof -
  obtain P where P: "reaches pair_step P0 P" "C = mp_mux P Client" "S = mp_mux P Server" "R = mp_read P Server 0"
    using assms(1) by (rule runs_toE)
  show ?thesis
    by (rule runs_toI [OF P(1) pair_step.get [OF assms(3,2) [unfolded P(3)]]]) (simp_all add: P)
qed

lemma runs_transmit:
  assumes "runs_to P0 C S R" and "writeLoop_round C = Some (go, C')" and "sent (m_out C') = sent (m_out C) @ bs"
  shows "runs_to P0 C' (mux_receives bs S) R"
proof -
  obtain P where P: "reaches pair_step P0 P" "C = mp_mux P Client" "S = mp_mux P Server" "R = mp_read P Server 0"
    using assms(1) by (rule runs_toE)
  have "bs = drop (length (sent (m_out (mp_mux P Client)))) (sent (m_out C'))" using assms(3) P(2) by simp
  then show ?thesis
    by (rule runs_toI [OF P(1) pair_step.transmit [OF assms(2) [unfolded P(2)]]]) (simp_all add: P)
qed

lemma runs_handle:
  assumes "runs_to P0 C S R" and "readLoop_round S = Some (go, S')"
  shows "runs_to P0 C S' R"
proof -
  obtain P where P: "reaches pair_step P0 P" "C = mp_mux P Client" "S = mp_mux P Server" "R = mp_read P Server 0"
    using assms(1) by (rule runs_toE)
  show ?thesis
    by (rule runs_toI [OF P(1) pair_step.handle [OF assms(2) [unfolded P(3)]]]) (simp_all add: P)
qed


end
