(* ===== verification/Handshake.thy ===== *)
theory Handshake
  imports Packets
begin

text \<open>
  \<^verbatim>\<open>proxy/handshake.go\<close>: parsing, building and rewriting the first packet of a connection. The lemmas
  relate the operations to the layout of a handshake on the wire (\<open>hs_layout\<close>), which does not assume
  that the numbers in it are encoded in the shortest way; the theorems are the round trip and the
  behaviour of \<^verbatim>\<open>ModifyHandshakeHost\<close> on every packet.
\<close>

unbundle bit_operations_syntax

section \<open>Model\<close>

definition StateStatus :: i32 where "StateStatus = 1"
definition StateLogin :: i32 where "StateLogin = 2"
definition StateTransfer :: i32 where "StateTransfer = 3"

definition ParseHandshake :: "Packet \<Rightarrow> (gostring \<times> u16 \<times> i32) res" where
  "ParseHandshake pkt =
     (if length (pkt_Data pkt) < 2 then Inl ErrPacketTooShort
      else case ReadVarIntFromBytes (pkt_Data pkt) of
        Inl e \<Rightarrow> Inl e
      | Inr (protoVer, remaining) \<Rightarrow>
          case ReadVarIntFromBytes remaining of
            Inl e \<Rightarrow> Inl e
          | Inr (strLen, remaining) \<Rightarrow>
              if sint strLen > int (length remaining) \<or> sint strLen < 0 then Inl ErrPacketTooShort
              else
                let host = take (nat (sint strLen)) remaining;
                    remaining = drop (nat (sint strLen)) remaining
                in if length remaining < 2 then Inl ErrPacketTooShort
                   else
                     let port = push_bit 8 (ucast (remaining ! 0)) OR ucast (remaining ! 1);
                         remaining = drop 2 remaining
                     in case ReadVarIntFromBytes remaining of
                          Inl e \<Rightarrow> Inl e
                        | Inr (ns, _) \<Rightarrow> Inr (host, port, ns))"

text \<open>
  \<^verbatim>\<open>n := packet.PutVarInt(buf, v); data = append(data, buf[:n]...)\<close>, with a scratch buffer that keeps
  its contents from one call to the next.
\<close>

definition append_varint :: "byte list \<Rightarrow> byte list \<Rightarrow> i32 \<Rightarrow> (byte list \<times> byte list) res" where
  "append_varint data buf v =
     (case PutVarInt buf v of Inl e \<Rightarrow> Inl e | Inr (buf, n) \<Rightarrow> Inr (data @ take n buf, buf))"

definition BuildHandshake :: "i32 \<Rightarrow> gostring \<Rightarrow> u16 \<Rightarrow> i32 \<Rightarrow> Packet res" where
  "BuildHandshake protocolVersion host port nextState =
     (case append_varint [] (replicate MaxVarIntLen 0) protocolVersion of
        Inl e \<Rightarrow> Inl e
      | Inr (data, buf) \<Rightarrow>
          case append_varint data buf (word_of_nat (length host)) of
            Inl e \<Rightarrow> Inl e
          | Inr (data, buf) \<Rightarrow>
              let data = data @ host @ [ucast (drop_bit 8 port), ucast port] in
              case append_varint data buf nextState of
                Inl e \<Rightarrow> Inl e
              | Inr (data, buf) \<Rightarrow> Inr \<lparr>pkt_ID = 0, pkt_Data = data\<rparr>)"

definition ModifyHandshakeHost :: "Packet \<Rightarrow> gostring \<Rightarrow> Packet res" where
  "ModifyHandshakeHost pkt newHost =
     (case ParseHandshake pkt of
        Inl e \<Rightarrow> Inl e
      | Inr _ \<Rightarrow>
          let data = pkt_Data pkt in
          case ReadVarIntFromBytes data of
            Inl e \<Rightarrow> Inl e
          | Inr (_, remaining) \<Rightarrow>
              let protoLen = length data - length remaining in
              case ReadVarIntFromBytes remaining of
                Inl e \<Rightarrow> Inl e
              | Inr (strLen, remaining2) \<Rightarrow>
                  let oldHostLen = sint strLen in
                  if oldHostLen < 0 \<or> oldHostLen > int (length remaining2) then Inl Panic
                  else
                    let afterHost = drop (nat oldHostLen) remaining2 in
                    case append_varint (take protoLen data) (replicate MaxVarIntLen 0) (word_of_nat (length newHost)) of
                      Inl e \<Rightarrow> Inl e
                    | Inr (newData, buf) \<Rightarrow>
                        Inr \<lparr>pkt_ID = pkt_ID pkt, pkt_Data = newData @ newHost @ afterHost\<rparr>)"

section \<open>Numbers in front of a byte string\<close>

lemma append_varint_leb:
  "MaxVarIntLen \<le> length buf \<Longrightarrow>
   append_varint data buf v = Inr (data @ leb v, leb v @ drop (length (leb v)) buf)"
  using length_leb_i32 [of v]
  by (simp add: append_varint_def PutVarInt_leb store_def MaxVarIntLen_def)

lemma takeWhile_contd_replace:
  assumes "length (takeWhile P xs) < length xs"
  shows "takeWhile P (take (Suc (length (takeWhile P xs))) xs @ ys) = takeWhile P xs"
  using assms by (induction xs) auto

text \<open>A decoded number is the value of the bytes consumed, whatever follows them.\<close>

lemma ReadVarIntFromBytes_split:
  assumes "ReadVarIntFromBytes data = Inr (v, rest)"
  obtains pre where "data = pre @ rest" "pre \<noteq> []" "\<And>ys. ReadVarIntFromBytes (pre @ ys) = Inr (v, ys)"
proof -
  let ?n = "length (takeWhile contd data)"
  from assms have n: "?n < 5" "?n \<noteq> length data" "v = word_of_nat (leb_value (take (Suc ?n) data))"
    "rest = drop (Suc ?n) data"
    by (auto simp: ReadVarIntFromBytes_shape number_shape_def Let_def split: if_splits)
  have lt: "?n < length data" using n(2) length_takeWhile_le [of contd data] by linarith
  have "ReadVarIntFromBytes (take (Suc ?n) data @ ys) = Inr (v, ys)" for ys
    using n(1,3) lt takeWhile_contd_replace [OF lt, of ys]
    by (simp add: ReadVarIntFromBytes_shape number_shape_def Let_def)
  with n(4) lt show thesis
    by (intro that [of "take (Suc ?n) data"]) auto
qed

lemma take_split2: "2 \<le> length xs \<Longrightarrow> xs = xs ! 0 # xs ! 1 # drop 2 xs"
  by (cases xs; cases "tl xs") auto

section \<open>The layout of a handshake\<close>

text \<open>
  The fields of a handshake on the wire: the bytes of the version, the bytes of the length of the
  host, the host, the port and the rest, which starts with the next state. The encodings of the
  numbers need not be the shortest.
\<close>

definition hs_layout :: "byte list \<Rightarrow> i32 \<Rightarrow> byte list \<Rightarrow> gostring \<Rightarrow> u16 \<Rightarrow> byte list \<Rightarrow> i32 \<Rightarrow> byte list \<Rightarrow> bool" where
  "hs_layout data ver lenb host port trail ns verb \<longleftrightarrow>
     data = verb @ lenb @ host @ be_put 2 port @ trail \<and> verb \<noteq> [] \<and> lenb \<noteq> [] \<and> length host < 2 ^ 31 \<and>
     (\<forall>ys. ReadVarIntFromBytes (verb @ ys) = Inr (ver, ys)) \<and>
     (\<forall>ys. ReadVarIntFromBytes (lenb @ ys) = Inr (word_of_nat (length host), ys)) \<and>
     (\<exists>ys. ReadVarIntFromBytes trail = Inr (ns, ys))"

lemma port_bytes: "be_put 2 (port :: u16) = [ucast (drop_bit 8 port), ucast port]"
  by (simp add: numeral_2_eq_2)

lemma port_get: "push_bit 8 (ucast (a :: byte)) OR ucast b = (be_get [a, b] :: u16)"
  using be_get_snoc [of "[a]" b, where ?'a = 16] be_get_snoc [of "[]" a, where ?'a = 16] by simp

lemma ParseHandshake_layout:
  assumes "hs_layout (pkt_Data pkt) ver lenb host port trail ns verb"
  shows "ParseHandshake pkt = Inr (host, port, ns)"
proof -
  from assms have d: "pkt_Data pkt = verb @ lenb @ host @ be_put 2 port @ trail"
    and ne: "verb \<noteq> []" "lenb \<noteq> []" and l: "length host < 2 ^ 31"
    and r: "\<And>ys. ReadVarIntFromBytes (verb @ ys) = Inr (ver, ys)"
      "\<And>ys. ReadVarIntFromBytes (lenb @ ys) = Inr (word_of_nat (length host), ys)"
    and t: "\<exists>ys. ReadVarIntFromBytes trail = Inr (ns, ys)" by (auto simp: hs_layout_def)
  define u :: i32 where "u = word_of_nat (length host)"
  have s: "sint u = int (length host)" using l by (simp add: u_def sint_i32_of_nat)
  have p: "push_bit 8 (ucast (be_put 2 port ! 0)) OR ucast (be_put 2 port ! 1) = port"
    using be_get_be_put [of 2 port] by (simp add: port_bytes port_get)
  have "\<not> length (pkt_Data pkt) < 2" using d by simp
  then show ?thesis
    using t p by (auto simp: ParseHandshake_def d r u_def [symmetric] s Let_def nth_append port_bytes)
qed

lemma ParseHandshake_layoutD:
  assumes "ParseHandshake pkt = Inr (host, port, ns)"
  obtains ver verb lenb trail where "hs_layout (pkt_Data pkt) ver lenb host port trail ns verb"
proof -
  from assms obtain ver r1 strLen r2 trail' where a: "ReadVarIntFromBytes (pkt_Data pkt) = Inr (ver, r1)"
    and b: "ReadVarIntFromBytes r1 = Inr (strLen, r2)"
    and c: "0 \<le> sint strLen" "sint strLen \<le> int (length r2)" "host = take (nat (sint strLen)) r2"
    and e: "2 \<le> length (drop (nat (sint strLen)) r2)"
      "port = be_get [drop (nat (sint strLen)) r2 ! 0, drop (nat (sint strLen)) r2 ! 1]"
    and f: "ReadVarIntFromBytes (drop 2 (drop (nat (sint strLen)) r2)) = Inr (ns, trail')"
    by (auto simp: ParseHandshake_def Let_def port_get not_less split: if_splits sum.splits)
  obtain verb where v: "pkt_Data pkt = verb @ r1" "verb \<noteq> []" "\<And>ys. ReadVarIntFromBytes (verb @ ys) = Inr (ver, ys)"
    using ReadVarIntFromBytes_split [OF a] by metis
  obtain lenb where w: "r1 = lenb @ r2" "lenb \<noteq> []" "\<And>ys. ReadVarIntFromBytes (lenb @ ys) = Inr (strLen, ys)"
    using ReadVarIntFromBytes_split [OF b] by metis
  let ?x = "drop (nat (sint strLen)) r2"
  have lh: "length host = nat (sint strLen)" using c by auto
  have "sint strLen < 2 ^ 31" using sint_lt [of strLen] by simp
  with lh c have l: "length host < 2 ^ 31" by (simp add: nat_less_iff)
  have "(word_of_nat (length host) :: i32) = strLen" using lh c(1) by simp
  moreover have "?x = be_put 2 port @ drop 2 ?x"
  proof -
    have "be_put 2 port = [?x ! 0, ?x ! 1]"
      using be_put_be_get [of "[?x ! 0, ?x ! 1]", where ?'a = 16] e(2) by (simp add: numeral_2_eq_2)
    with take_split2 [OF e(1)] show ?thesis by simp
  qed
  moreover have "r2 = host @ ?x" using c(3) by simp
  ultimately show thesis
    using v w l f by (intro that [of ver lenb "drop 2 ?x" verb]) (auto simp: hs_layout_def)
qed

lemma BuildHandshake_bytes:
  "BuildHandshake ver host port ns =
     Inr \<lparr>pkt_ID = 0, pkt_Data = leb ver @ leb (word_of_nat (length host) :: i32) @ host @ be_put 2 port @ leb ns\<rparr>"
proof -
  have a: "length (leb v @ drop (length (leb v)) buf) = length buf" if "5 \<le> length buf"
    for v :: i32 and buf :: "byte list" using length_leb_i32 [of v] that by simp
  show ?thesis
    by (simp add: BuildHandshake_def append_varint_leb a MaxVarIntLen_def port_bytes Let_def)
qed

lemma ModifyHandshakeHost_layout:
  assumes "hs_layout (pkt_Data pkt) ver lenb host port trail ns verb"
  shows "ModifyHandshakeHost pkt newHost =
    Inr \<lparr>pkt_ID = pkt_ID pkt,
         pkt_Data = verb @ leb (word_of_nat (length newHost) :: i32) @ newHost @ be_put 2 port @ trail\<rparr>"
proof -
  from assms have d: "pkt_Data pkt = verb @ lenb @ host @ be_put 2 port @ trail" and l: "length host < 2 ^ 31"
    and r: "\<And>ys. ReadVarIntFromBytes (verb @ ys) = Inr (ver, ys)"
      "\<And>ys. ReadVarIntFromBytes (lenb @ ys) = Inr (word_of_nat (length host), ys)" by (auto simp: hs_layout_def)
  define u :: i32 where "u = word_of_nat (length host)"
  have s: "sint u = int (length host)" using l by (simp add: u_def sint_i32_of_nat)
  show ?thesis
    by (simp add: ModifyHandshakeHost_def ParseHandshake_layout [OF assms] d r u_def [symmetric] s Let_def
        append_varint_leb del: be_put.simps)
qed

lemma hs_layout_new_host:
  assumes "hs_layout data ver lenb host port trail ns verb" and "length newHost < 2 ^ 31"
  shows "hs_layout (verb @ leb (word_of_nat (length newHost) :: i32) @ newHost @ be_put 2 port @ trail) ver
    (leb (word_of_nat (length newHost) :: i32)) newHost port trail ns verb"
  using assms by (auto simp: hs_layout_def)

section \<open>Properties\<close>

text \<open>\<^verbatim>\<open>ParseHandshake\<close> returns the host, the port and the next state that \<^verbatim>\<open>BuildHandshake\<close> was given,
  for every version, and building never fails.\<close>

theorem Handshake_roundtrip:
  assumes "length host < 2 ^ 31"
  shows "\<exists>pkt. BuildHandshake ver host port ns = Inr pkt \<and> pkt_ID pkt = 0 \<and>
    ParseHandshake pkt = Inr (host, port, ns)"
proof -
  have "hs_layout (leb ver @ leb (word_of_nat (length host) :: i32) @ host @ be_put 2 port @ leb ns) ver
      (leb (word_of_nat (length host) :: i32)) host port (leb ns) ns (leb ver)"
    using assms ReadVarIntFromBytes_leb [of ns "[]"] by (auto simp: hs_layout_def)
  with ParseHandshake_layout show ?thesis by (auto simp: BuildHandshake_bytes)
qed

theorem Handshake_roundtrip_witness:
  "\<exists>pkt. BuildHandshake 766 (bytes_of ''mc.example.com'') 25565 StateLogin = Inr pkt \<and> pkt_ID pkt = 0 \<and>
    ParseHandshake pkt = Inr (bytes_of ''mc.example.com'', 25565, StateLogin)"
  by (rule Handshake_roundtrip) simp

text \<open>C14: \<^verbatim>\<open>ModifyHandshakeHost\<close> fails exactly when \<^verbatim>\<open>ParseHandshake\<close> does, with the same error; otherwise
  the result has the new host and the old packet ID, version, port and next state, and anything behind
  the next state is kept; a second change overwrites the first without a trace.\<close>

theorem ModifyHandshakeHost_spec:
  assumes "length newHost < 2 ^ 31"
  shows "case ParseHandshake pkt of
      Inl e \<Rightarrow> ModifyHandshakeHost pkt newHost = Inl e
    | Inr (host, port, ns) \<Rightarrow>
        \<exists>pkt'. ModifyHandshakeHost pkt newHost = Inr pkt' \<and> pkt_ID pkt' = pkt_ID pkt \<and>
          ParseHandshake pkt' = Inr (newHost, port, ns) \<and>
          map_sum id fst (ReadVarIntFromBytes (pkt_Data pkt')) = map_sum id fst (ReadVarIntFromBytes (pkt_Data pkt)) \<and>
          (\<exists>pre pre' post. pkt_Data pkt = pre @ host @ be_put 2 port @ post \<and>
             pkt_Data pkt' = pre' @ newHost @ be_put 2 port @ post) \<and>
          (\<forall>host'. ModifyHandshakeHost pkt' host' = ModifyHandshakeHost pkt host')"
proof (cases "ParseHandshake pkt")
  case (Inl e)
  then show ?thesis by (simp add: ModifyHandshakeHost_def)
next
  case (Inr x)
  obtain host port ns where x: "x = (host, port, ns)" by (cases x)
  with Inr obtain ver verb lenb trail where l: "hs_layout (pkt_Data pkt) ver lenb host port trail ns verb"
    by (metis ParseHandshake_layoutD)
  let ?n = "leb (word_of_nat (length newHost) :: i32)"
  let ?pkt = "\<lparr>pkt_ID = pkt_ID pkt, pkt_Data = verb @ ?n @ newHost @ be_put 2 port @ trail\<rparr>"
  have l': "hs_layout (pkt_Data ?pkt) ver ?n newHost port trail ns verb"
    using hs_layout_new_host [OF l assms] by simp
  have m: "ModifyHandshakeHost pkt newHost = Inr ?pkt" by (rule ModifyHandshakeHost_layout [OF l])
  have again: "\<forall>host'. ModifyHandshakeHost ?pkt host' = ModifyHandshakeHost pkt host'"
    unfolding ModifyHandshakeHost_layout [OF l] ModifyHandshakeHost_layout [OF l'] by simp
  have d: "pkt_Data pkt = (verb @ lenb) @ host @ be_put 2 port @ trail"
    and d': "pkt_Data ?pkt = (verb @ ?n) @ newHost @ be_put 2 port @ trail"
    and v: "\<And>ys. ReadVarIntFromBytes (verb @ ys) = Inr (ver, ys)" using l by (auto simp: hs_layout_def)
  have "map_sum id fst (ReadVarIntFromBytes (pkt_Data ?pkt)) = map_sum id fst (ReadVarIntFromBytes (pkt_Data pkt))"
    using v by (simp add: d del: be_put.simps)
  moreover have "pkt_ID ?pkt = pkt_ID pkt" by simp
  ultimately show ?thesis
    unfolding Inr x sum.case prod.case using m again d d' ParseHandshake_layout [OF l'] by blast
qed

theorem ModifyHandshakeHost_spec_witness:
  "\<exists>pkt'. ModifyHandshakeHost \<lparr>pkt_ID = 0, pkt_Data = [5, 2, 97, 98, 1, 2, 1]\<rparr> [99] = Inr pkt' \<and>
     ParseHandshake pkt' = Inr ([99], 0x102, 1)"
proof -
  have "ParseHandshake \<lparr>pkt_ID = 0, pkt_Data = [5, 2, 97, 98, 1, 2, 1]\<rparr> = Inr ([97, 98], 0x102, 1)" by code_simp
  with ModifyHandshakeHost_spec [of "[99]" "\<lparr>pkt_ID = 0, pkt_Data = [5, 2, 97, 98, 1, 2, 1]\<rparr>"]
  show ?thesis by auto
qed

end
