(* ===== verification/Forwarding.thy ===== *)
theory Forwarding
  imports Handshake
begin

text \<open>
  \<^verbatim>\<open>proxy/auth.go\<close>: the forwarding formats a proxy uses to tell a server who its client is. HMAC-SHA256
  and the textual form of addresses are parameters; what is assumed of them is \<open>hmac_ok\<close> and
  \<open>ip_text_ok\<close>. The theorems: round trips, and that \<^verbatim>\<open>ValidateVelocityForwarding\<close> accepts exactly what was
  signed.
\<close>

section \<open>Model\<close>

datatype ForwardingMode = ForwardNone | ForwardLegacy | ForwardModern | ForwardVelocity

text \<open>A \<^verbatim>\<open>net.IP\<close> is a slice of bytes, \<^verbatim>\<open>nil\<close> the empty one; 4 and 16 are the lengths of addresses.\<close>

type_synonym IP = "byte list"

record ForwardingData =
  fd_Mode :: ForwardingMode
  fd_UUID :: "byte list"
  fd_IP :: IP
  fd_Username :: gostring
  fd_Profile :: "byte list"
  fd_Secret :: "byte list"

definition zero_data :: ForwardingData where
  "zero_data = \<lparr>fd_Mode = ForwardNone, fd_UUID = replicate 16 0, fd_IP = [], fd_Username = [],
     fd_Profile = [], fd_Secret = []\<rparr>"

text \<open>
  The textual form of addresses (\<^verbatim>\<open>IP.String\<close> and \<^verbatim>\<open>ParseIP\<close> of package \<^verbatim>\<open>net\<close>) and HMAC-SHA256 are
  parameters.
\<close>

record ip_text =
  ip_String :: "IP \<Rightarrow> gostring"
  ParseIP :: "gostring \<Rightarrow> IP"

text \<open>\<^verbatim>\<open>IP.To4\<close> and \<^verbatim>\<open>IP.To16\<close>: an IPv4 address has two representations.\<close>

definition v4InV6Prefix :: "byte list" where
  "v4InV6Prefix = replicate 10 0 @ [0xFF, 0xFF]"

definition To4 :: "IP \<Rightarrow> IP option" where
  "To4 ip =
     (if length ip = 4 then Some ip
      else if length ip = 16 \<and> take 12 ip = v4InV6Prefix then Some (drop 12 ip)
      else None)"

definition To16 :: "IP \<Rightarrow> IP option" where
  "To16 ip =
     (if length ip = 4 then Some (v4InV6Prefix @ ip) else if length ip = 16 then Some ip else None)"

definition AppendLegacyForwarding :: "ip_text \<Rightarrow> gostring \<Rightarrow> IP \<Rightarrow> gostring" where
  "AppendLegacyForwarding T host clientIP = host @ [0] @ ip_String T clientIP @ [0]"

definition AppendModernForwarding :: "ip_text \<Rightarrow> Packet \<Rightarrow> ForwardingData \<Rightarrow> Packet res" where
  "AppendModernForwarding T pkt data =
     (let extra = fd_UUID data; ipStr = ip_String T (fd_IP data) in
      case append_varint extra (replicate MaxVarIntLen 0) (word_of_nat (length ipStr)) of
        Inl e \<Rightarrow> Inl e
      | Inr (extra, buf) \<Rightarrow>
          let extra = extra @ ipStr in
          case append_varint extra buf 0 of
            Inl e \<Rightarrow> Inl e
          | Inr (extra, buf) \<Rightarrow> Inr (pkt\<lparr>pkt_Data := pkt_Data pkt @ extra\<rparr>))"

definition ParseModernForwarding :: "ip_text \<Rightarrow> byte list \<Rightarrow> ForwardingData res" where
  "ParseModernForwarding T extra =
     (if length extra < 16 then Inl ErrPacketTooShort
      else
        let fd = zero_data\<lparr>fd_UUID := take 16 extra\<rparr>; extra = drop 16 extra in
        case ReadVarIntFromBytes extra of
          Inl e \<Rightarrow> Inl e
        | Inr (ipLen, remaining) \<Rightarrow>
            if sint ipLen > int (length remaining) \<or> sint ipLen < 0 then Inl ErrPacketTooShort
            else Inr (fd\<lparr>fd_IP := ParseIP T (take (nat (sint ipLen)) remaining)\<rparr>))"

definition buildVelocityPlaintext :: "ip_text \<Rightarrow> ForwardingData \<Rightarrow> byte list res" where
  "buildVelocityPlaintext T data =
     (let payload = fd_UUID data @ fd_Username data @ [0]; ipStr = ip_String T (fd_IP data) in
      case append_varint payload (replicate MaxVarIntLen 0) (word_of_nat (length ipStr)) of
        Inl e \<Rightarrow> Inl e
      | Inr (payload, buf) \<Rightarrow> Inr (payload @ ipStr @ be_put 4 (0 :: 32 word)))"

definition VelocityChannel :: gostring where
  "VelocityChannel = bytes_of ''velocity:player_info''"

definition signVelocityPayload :: "(byte list \<Rightarrow> byte list \<Rightarrow> byte list) \<Rightarrow> byte list \<Rightarrow> byte list \<Rightarrow> byte list" where
  "signVelocityPayload hmac plaintext secret = hmac secret plaintext @ plaintext"

definition ValidateVelocityForwarding ::
  "(byte list \<Rightarrow> byte list \<Rightarrow> byte list) \<Rightarrow> byte list \<Rightarrow> byte list \<Rightarrow> byte list option" where
  "ValidateVelocityForwarding hmac data secret =
     (if length data < 32 then None
      else
        let signature = take 32 data; plaintext = drop 32 data in
        if signature = hmac secret plaintext then Some plaintext else None)"

definition CreateVelocityForwardingPacket ::
  "ip_text \<Rightarrow> (byte list \<Rightarrow> byte list \<Rightarrow> byte list) \<Rightarrow> ForwardingData \<Rightarrow> Packet res" where
  "CreateVelocityForwardingPacket T hmac data =
     (case buildVelocityPlaintext T data of
        Inl e \<Rightarrow> Inl e
      | Inr plaintext \<Rightarrow>
          let payload = signVelocityPayload hmac plaintext (fd_Secret data); channelBytes = VelocityChannel in
          case append_varint [] (replicate MaxVarIntLen 0) (word_of_nat (length channelBytes)) of
            Inl e \<Rightarrow> Inl e
          | Inr (result, _) \<Rightarrow> Inr \<lparr>pkt_ID = 0, pkt_Data = result @ channelBytes @ payload\<rparr>)"

text \<open>The body is a copy of \<^verbatim>\<open>CreateVelocityForwardingPacket\<close>'s; the packet given is not looked at.\<close>

definition AppendVelocityForwarding ::
  "ip_text \<Rightarrow> (byte list \<Rightarrow> byte list \<Rightarrow> byte list) \<Rightarrow> Packet \<Rightarrow> ForwardingData \<Rightarrow> Packet res" where
  "AppendVelocityForwarding T hmac pkt data =
     (case buildVelocityPlaintext T data of
        Inl e \<Rightarrow> Inl e
      | Inr plaintext \<Rightarrow>
          let payload = signVelocityPayload hmac plaintext (fd_Secret data); channelBytes = VelocityChannel in
          case append_varint [] (replicate MaxVarIntLen 0) (word_of_nat (length channelBytes)) of
            Inl e \<Rightarrow> Inl e
          | Inr (result, _) \<Rightarrow> Inr \<lparr>pkt_ID = 0, pkt_Data = result @ channelBytes @ payload\<rparr>)"

section \<open>Lemmas\<close>

text \<open>
  What is documented of the parameters: the text of an address parses to its 16-byte form; and the
  digest of HMAC-SHA256 has 32 bytes.
\<close>

definition ip_text_ok :: "ip_text \<Rightarrow> bool" where
  "ip_text_ok T \<longleftrightarrow> (\<forall>ip. length ip \<in> {4, 16} \<longrightarrow> ParseIP T (ip_String T ip) = the (To16 ip) \<and> length (ip_String T ip) \<le> 45)"

definition hmac_ok :: "(byte list \<Rightarrow> byte list \<Rightarrow> byte list) \<Rightarrow> bool" where
  "hmac_ok hmac \<longleftrightarrow> (\<forall>k m. length (hmac k m) = 32)"

lemma length_scratch [simp]:
  "length (leb v @ drop (length (leb (v :: i32))) (replicate MaxVarIntLen (0 :: byte))) = MaxVarIntLen"
  using length_leb_i32 [of v] by (simp add: MaxVarIntLen_def)

lemma AppendModernForwarding_bytes:
  "AppendModernForwarding T pkt data =
     (let s = ip_String T (fd_IP data) in
      Inr (pkt\<lparr>pkt_Data := pkt_Data pkt @ fd_UUID data @ leb (word_of_nat (length s) :: i32) @ s @ [0]\<rparr>))"
proof -
  have "leb (0 :: i32) = [0]" by (simp add: leb_i32)
  then show ?thesis
    using length_scratch
    by (simp add: AppendModernForwarding_def append_varint_leb Let_def del: length_scratch length_append)
qed

lemma buildVelocityPlaintext_bytes:
  "buildVelocityPlaintext T data =
     (let s = ip_String T (fd_IP data) in
      Inr (fd_UUID data @ fd_Username data @ [0] @ leb (word_of_nat (length s) :: i32) @ s @ be_put 4 (0 :: 32 word)))"
  by (simp add: buildVelocityPlaintext_def append_varint_leb Let_def)

lemma CreateVelocityForwardingPacket_bytes:
  "CreateVelocityForwardingPacket T hmac data =
     Inr \<lparr>pkt_ID = 0, pkt_Data = leb (word_of_nat (length VelocityChannel) :: i32) @ VelocityChannel @
        signVelocityPayload hmac (projr (buildVelocityPlaintext T data)) (fd_Secret data)\<rparr>"
  by (simp add: CreateVelocityForwardingPacket_def buildVelocityPlaintext_bytes append_varint_leb Let_def)

lemma split_at_zero:
  assumes "a @ 0 # xs = b @ 0 # ys" and "0 \<notin> set a" and "0 \<notin> set (b :: byte list)"
  shows "a = b \<and> xs = ys"
  using assms by (induction a arbitrary: b) (auto simp: Cons_eq_append_conv)

section \<open>Properties\<close>

text \<open>C23: what \<^verbatim>\<open>AppendModernForwarding\<close> appends to a packet, \<^verbatim>\<open>ParseModernForwarding\<close> reads back from the
  bytes behind the packet's own data: the UUID and the address; the packet ID and the data in front are
  untouched.\<close>

theorem ModernForwarding_roundtrip:
  assumes "ip_text_ok T" and "length (fd_UUID data) = 16" and "To16 (fd_IP data) = Some ip"
  shows "\<exists>pkt' fd. AppendModernForwarding T pkt data = Inr pkt' \<and> pkt_ID pkt' = pkt_ID pkt \<and>
    take (length (pkt_Data pkt)) (pkt_Data pkt') = pkt_Data pkt \<and>
    ParseModernForwarding T (drop (length (pkt_Data pkt)) (pkt_Data pkt')) = Inr fd \<and>
    fd_UUID fd = fd_UUID data \<and> fd_IP fd = ip"
proof -
  let ?s = "ip_String T (fd_IP data)"
  have "length (fd_IP data) \<in> {4, 16}" using assms(3) by (auto simp: To16_def split: if_splits)
  with assms(1,3) have p: "ParseIP T ?s = ip" "length ?s \<le> 45"
    unfolding ip_text_ok_def by (metis option.sel)+
  define u :: i32 where "u = word_of_nat (length ?s)"
  have u: "sint u = int (length ?s)" using p(2) by (simp add: u_def sint_i32_of_nat)
  have "ParseModernForwarding T (fd_UUID data @ leb u @ ?s @ [0]) =
      Inr (zero_data\<lparr>fd_UUID := fd_UUID data, fd_IP := ip\<rparr>)"
    using assms(2) p(1) by (simp add: ParseModernForwarding_def u)
  then show ?thesis by (simp add: AppendModernForwarding_bytes Let_def u_def)
qed

definition raw_ip_text :: ip_text where
  "raw_ip_text = \<lparr>ip_String = (\<lambda>ip. the (To16 ip)), ParseIP = (\<lambda>s. s)\<rparr>"

lemma raw_ip_text_ok: "ip_text_ok raw_ip_text"
  by (auto simp: ip_text_ok_def raw_ip_text_def To16_def v4InV6Prefix_def)

theorem ModernForwarding_roundtrip_witness:
  "\<exists>pkt' fd. AppendModernForwarding raw_ip_text \<lparr>pkt_ID = 2, pkt_Data = [7]\<rparr>
       (zero_data\<lparr>fd_IP := [10, 0, 0, 1]\<rparr>) = Inr pkt' \<and>
     ParseModernForwarding raw_ip_text (drop 1 (pkt_Data pkt')) = Inr fd \<and>
     fd_IP fd = v4InV6Prefix @ [10, 0, 0, 1]"
  using ModernForwarding_roundtrip [OF raw_ip_text_ok, of "zero_data\<lparr>fd_IP := [10, 0, 0, 1]\<rparr>" _
      "\<lparr>pkt_ID = 2, pkt_Data = [7]\<rparr>"]
  by (auto simp: zero_data_def To16_def)

text \<open>C15: \<^verbatim>\<open>ValidateVelocityForwarding\<close> accepts exactly the signed payloads: it returns a plaintext if and only
  if the data is what \<^verbatim>\<open>signVelocityPayload\<close> makes of that plaintext with the same secret.\<close>

theorem ValidateVelocityForwarding_spec:
  assumes "hmac_ok hmac"
  shows "ValidateVelocityForwarding hmac data secret = Some plaintext \<longleftrightarrow>
    data = signVelocityPayload hmac plaintext secret"
proof -
  have l: "length (hmac secret plaintext) = 32" using assms by (simp add: hmac_ok_def)
  show ?thesis
  proof
    assume "ValidateVelocityForwarding hmac data secret = Some plaintext"
    then have "take 32 data = hmac secret plaintext" "drop 32 data = plaintext"
      by (auto simp: ValidateVelocityForwarding_def Let_def split: if_splits)
    then show "data = signVelocityPayload hmac plaintext secret"
      unfolding signVelocityPayload_def by (metis append_take_drop_id)
  next
    assume "data = signVelocityPayload hmac plaintext secret"
    with l show "ValidateVelocityForwarding hmac data secret = Some plaintext"
      by (simp add: ValidateVelocityForwarding_def signVelocityPayload_def)
  qed
qed

definition toy_hmac :: "byte list \<Rightarrow> byte list \<Rightarrow> byte list" where
  "toy_hmac k m = replicate 32 (sum_list k + sum_list m)"

lemma toy_hmac_ok: "hmac_ok toy_hmac"
  by (simp add: hmac_ok_def toy_hmac_def)

theorem ValidateVelocityForwarding_spec_witness:
  "ValidateVelocityForwarding toy_hmac (signVelocityPayload toy_hmac [1, 2] [3]) [3] = Some [1, 2] \<and>
   ValidateVelocityForwarding toy_hmac (signVelocityPayload toy_hmac [1, 2] [3]) [4] \<noteq> Some [1, 2]"
  using ValidateVelocityForwarding_spec [OF toy_hmac_ok, of "signVelocityPayload toy_hmac [1, 2] [3]" "[3]" "[1, 2]"]
    ValidateVelocityForwarding_spec [OF toy_hmac_ok, of "signVelocityPayload toy_hmac [1, 2] [3]" "[4]" "[1, 2]"]
  by (simp add: signVelocityPayload_def toy_hmac_def)

text \<open>C22: the receiver of a Velocity forwarding packet finds the channel name and, behind it, a payload whose
  signature checks with the shared secret; and the plaintext determines the UUID, the user name (if it
  has no zero byte) and the text of the address.\<close>

theorem VelocityForwarding_delivers:
  assumes "hmac_ok hmac" and "CreateVelocityForwardingPacket T hmac data = Inr pkt"
  shows "\<exists>rest plaintext. ReadVarIntFromBytes (pkt_Data pkt) = Inr (word_of_nat (length VelocityChannel), VelocityChannel @ rest) \<and>
    ValidateVelocityForwarding hmac rest (fd_Secret data) = Some plaintext \<and>
    buildVelocityPlaintext T data = Inr plaintext \<and>
    (\<forall>data'. buildVelocityPlaintext T data' = Inr plaintext \<and>
       length (fd_UUID data) = 16 \<and> length (fd_UUID data') = 16 \<and>
       0 \<notin> set (fd_Username data) \<and> 0 \<notin> set (fd_Username data') \<longrightarrow>
       fd_UUID data' = fd_UUID data \<and> fd_Username data' = fd_Username data \<and>
       ip_String T (fd_IP data') = ip_String T (fd_IP data))"
proof -
  obtain plain where pl: "buildVelocityPlaintext T data = Inr plain" by (simp add: buildVelocityPlaintext_bytes Let_def)
  let ?rest = "signVelocityPayload hmac plain (fd_Secret data)"
  have d: "pkt_Data pkt = leb (word_of_nat (length VelocityChannel) :: i32) @ VelocityChannel @ ?rest"
    using assms(2) pl by (auto simp: CreateVelocityForwardingPacket_bytes)
  have v: "ValidateVelocityForwarding hmac ?rest (fd_Secret data) = Some plain"
    using assms(1) by (simp add: ValidateVelocityForwarding_def signVelocityPayload_def hmac_ok_def)
  have "fd_UUID data' = fd_UUID data \<and> fd_Username data' = fd_Username data \<and>
       ip_String T (fd_IP data') = ip_String T (fd_IP data)"
    if h: "buildVelocityPlaintext T data' = Inr plain" "length (fd_UUID data) = 16" "length (fd_UUID data') = 16"
      "0 \<notin> set (fd_Username data)" "0 \<notin> set (fd_Username data')" for data'
  proof -
    let ?t = "\<lambda>d. leb (word_of_nat (length (ip_String T (fd_IP d))) :: i32) @ ip_String T (fd_IP d) @ be_put 4 (0 :: 32 word)"
    have e: "fd_UUID data' @ fd_Username data' @ 0 # ?t data' = fd_UUID data @ fd_Username data @ 0 # ?t data"
      using h(1) pl by (simp add: buildVelocityPlaintext_bytes Let_def del: be_put.simps)
    then have "fd_UUID data' = fd_UUID data"
      and "fd_Username data' @ 0 # ?t data' = fd_Username data @ 0 # ?t data" using h(2,3) by simp_all
    moreover from this(2) have "fd_Username data' = fd_Username data" "?t data' = ?t data"
      using split_at_zero [of "fd_Username data'"] h(4,5) by blast+
    moreover from this(2) have "ip_String T (fd_IP data') @ be_put 4 (0 :: 32 word) = ip_String T (fd_IP data) @ be_put 4 (0 :: 32 word)"
      by (metis Inr_inject Pair_inject ReadVarIntFromBytes_leb)
    ultimately show ?thesis by simp
  qed
  with v pl have "ValidateVelocityForwarding hmac ?rest (fd_Secret data) = Some plain \<and>
    buildVelocityPlaintext T data = Inr plain \<and>
    (\<forall>data'. buildVelocityPlaintext T data' = Inr plain \<and>
       length (fd_UUID data) = 16 \<and> length (fd_UUID data') = 16 \<and>
       0 \<notin> set (fd_Username data) \<and> 0 \<notin> set (fd_Username data') \<longrightarrow>
       fd_UUID data' = fd_UUID data \<and> fd_Username data' = fd_Username data \<and>
       ip_String T (fd_IP data') = ip_String T (fd_IP data))" by blast
  then show ?thesis unfolding d ReadVarIntFromBytes_leb by blast
qed

theorem VelocityForwarding_delivers_witness:
  "\<exists>pkt rest plaintext. CreateVelocityForwardingPacket raw_ip_text toy_hmac (zero_data\<lparr>fd_IP := [10, 0, 0, 1]\<rparr>) = Inr pkt \<and>
     ReadVarIntFromBytes (pkt_Data pkt) = Inr (word_of_nat (length VelocityChannel), VelocityChannel @ rest) \<and>
     ValidateVelocityForwarding toy_hmac rest [] = Some plaintext"
proof -
  let ?d = "zero_data\<lparr>fd_IP := [10, 0, 0, 1]\<rparr>"
  obtain pkt where p: "CreateVelocityForwardingPacket raw_ip_text toy_hmac ?d = Inr pkt"
    by (simp add: CreateVelocityForwardingPacket_bytes)
  with VelocityForwarding_delivers [OF toy_hmac_ok p] show ?thesis by (auto simp: zero_data_def)
qed

text \<open>\<^verbatim>\<open>AppendVelocityForwarding\<close> does not wrap the packet it is given: its result does not depend on it.\<close>

theorem AppendVelocityForwarding_ignores_packet:
  "AppendVelocityForwarding T hmac pkt data = CreateVelocityForwardingPacket T hmac data"
  by (simp add: AppendVelocityForwarding_def CreateVelocityForwardingPacket_def)

text \<open>Legacy forwarding through the handshake: after \<^verbatim>\<open>ModifyHandshakeHost\<close> with the host that
  \<^verbatim>\<open>AppendLegacyForwarding\<close> builds, the server parses a host whose first part, up to the first zero byte,
  is the host the client named and whose second part is the text of the client's address; port and next
  state are those of the client.\<close>

theorem LegacyForwarding_handshake:
  assumes "ParseHandshake pkt = Inr (host, port, ns)" and "0 \<notin> set host"
    and "0 \<notin> set (ip_String T ip)" and "length (AppendLegacyForwarding T host ip) < 2 ^ 31"
  shows "\<exists>pkt' h. ModifyHandshakeHost pkt (AppendLegacyForwarding T host ip) = Inr pkt' \<and>
    ParseHandshake pkt' = Inr (h, port, ns) \<and> takeWhile (\<lambda>b. b \<noteq> 0) h = host \<and>
    takeWhile (\<lambda>b. b \<noteq> 0) (drop (length host + 1) h) = ip_String T ip"
proof -
  let ?h = "AppendLegacyForwarding T host ip"
  obtain ver verb lenb trail where l: "hs_layout (pkt_Data pkt) ver lenb host port trail ns verb"
    by (rule ParseHandshake_layoutD [OF assms(1)])
  obtain pkt' where m: "ModifyHandshakeHost pkt ?h = Inr pkt'" "ParseHandshake pkt' = Inr (?h, port, ns)"
    using ModifyHandshakeHost_layout [OF l, of ?h] ParseHandshake_layout hs_layout_new_host [OF l assms(4)] by auto
  have t: "takeWhile (\<lambda>b. b \<noteq> 0) (xs @ 0 # ys) = xs" if "0 \<notin> set xs" for xs ys :: "byte list"
    using that by (metis (mono_tags, lifting) takeWhile_append2 takeWhile.simps(2) append.right_neutral)
  have "takeWhile (\<lambda>b. b \<noteq> 0) ?h = host" "takeWhile (\<lambda>b. b \<noteq> 0) (drop (length host + 1) ?h) = ip_String T ip"
    using t [OF assms(2)] t [OF assms(3)] by (simp_all add: AppendLegacyForwarding_def)
  with m show ?thesis by blast
qed

theorem LegacyForwarding_handshake_witness:
  "\<exists>pkt' h. ModifyHandshakeHost \<lparr>pkt_ID = 0, pkt_Data = [5, 2, 97, 98, 1, 2, 1]\<rparr>
       (AppendLegacyForwarding (raw_ip_text\<lparr>ip_String := \<lambda>_. [49]\<rparr>) [97, 98] [1, 2, 3, 4]) = Inr pkt' \<and>
     ParseHandshake pkt' = Inr (h, 0x102, 1) \<and> takeWhile (\<lambda>b. b \<noteq> 0) h = [97, 98]"
proof -
  have "ParseHandshake \<lparr>pkt_ID = 0, pkt_Data = [5, 2, 97, 98, 1, 2, 1]\<rparr> = Inr ([97, 98], 0x102, 1)" by code_simp
  from LegacyForwarding_handshake [OF this, of "raw_ip_text\<lparr>ip_String := \<lambda>_. [49]\<rparr>" "[1, 2, 3, 4]"]
  show ?thesis by (simp add: AppendLegacyForwarding_def) blast
qed

end
