(* ===== verification/Socks5.thy ===== *)
theory Socks5
  imports Relay Forwarding
begin

text \<open>
  \<^verbatim>\<open>transport/socks5.go\<close>: the client side of SOCKS5, with the functions of \<^verbatim>\<open>net\<close> and \<^verbatim>\<open>strconv\<close> it uses to
  take an address apart. Reads may be short, as on a real connection. The theorems: dialling against a
  proxy that follows RFC 1928 and RFC 1929, the format of the request, and what the code does with short
  replies and long names.
\<close>

section \<open>Model\<close>

subsection \<open>Addresses\<close>

text \<open>\<^verbatim>\<open>strings.LastIndexByte\<close> and \<^verbatim>\<open>strings.IndexByte\<close>, \<open>None\<close> for -1.\<close>

definition last_index :: "byte \<Rightarrow> gostring \<Rightarrow> nat option" where
  "last_index b s =
     (if b \<in> set s then Some (length s - 1 - length (takeWhile (\<lambda>c. c \<noteq> b) (rev s))) else None)"

definition first_index :: "byte \<Rightarrow> gostring \<Rightarrow> nat option" where
  "first_index b s = (if b \<in> set s then Some (length (takeWhile (\<lambda>c. c \<noteq> b) s)) else None)"

text \<open>The errors of this file; a wrapped error is an argument.\<close>

datatype s5_err =
    S5_ProxyConn go_err | S5_HandshakeWrite go_err | S5_HandshakeRead go_err | S5_Version byte | S5_Method byte
  | S5_AuthWrite go_err | S5_AuthRead go_err | S5_AuthRejected byte
  | S5_Target | S5_Port | S5_RequestWrite go_err | S5_RequestRead go_err | S5_Rejected byte
  | S5_DomainLength go_err | S5_AddrType byte | S5_BindAddr go_err | S5_ListenUnsupported

text \<open>
  \<^verbatim>\<open>net.SplitHostPort\<close>: the last colon separates the port; a host with colons stands in brackets. The
  characters are colon (58), opening (91) and closing bracket (93).
\<close>

definition SplitHostPort :: "gostring \<Rightarrow> (gostring \<times> gostring) option" where
  "SplitHostPort s =
     (case last_index 58 s of
        None \<Rightarrow> None
      | Some i \<Rightarrow>
          if s ! 0 = 91 then
            (case first_index 93 s of
               None \<Rightarrow> None
             | Some e \<Rightarrow>
                 if e + 1 = i \<and> 91 \<notin> set (drop 1 s) \<and> 93 \<notin> set (drop (e + 1) s)
                 then Some (take (e - 1) (drop 1 s), drop (i + 1) s) else None)
          else
            (let host = take i s in
             if 58 \<notin> set host \<and> 91 \<notin> set s \<and> 93 \<notin> set s then Some (host, drop (i + 1) s) else None))"

text \<open>\<^verbatim>\<open>strconv.Atoi\<close>: an optional sign and decimal digits, within 64 bits.\<close>

definition Atoi :: "gostring \<Rightarrow> int option" where
  "Atoi s =
     (let neg = (s \<noteq> [] \<and> hd s = 45); ds = (if s \<noteq> [] \<and> hd s \<in> {43, 45} then List.tl s else s) in
      if ds = [] \<or> \<not> list_all (\<lambda>d. 48 \<le> d \<and> d \<le> 57) ds then None
      else
        let v = foldl (\<lambda>v d. v * 10 + (uint d - 48)) 0 ds; v = (if neg then - v else v) in
        if - (2 ^ 63) \<le> v \<and> v < 2 ^ 63 then Some v else None)"

subsection \<open>The client\<close>

record SOCKS5Transport =
  s5_ProxyAddr :: gostring
  s5_Username :: gostring
  s5_Password :: gostring
  s5_DialTimeout :: nat

definition NewSOCKS5Transport :: "gostring \<Rightarrow> SOCKS5Transport" where
  "NewSOCKS5Transport proxyAddr =
     \<lparr>s5_ProxyAddr = proxyAddr, s5_Username = [], s5_Password = [], s5_DialTimeout = 30\<rparr>"

definition socks5Version :: byte where "socks5Version = 5"
definition socks5AuthNone :: byte where "socks5AuthNone = 0"
definition socks5AuthPassword :: byte where "socks5AuthPassword = 2"
definition socks5CmdConnect :: byte where "socks5CmdConnect = 1"
definition socks5AddrTypeIPv4 :: byte where "socks5AddrTypeIPv4 = 1"
definition socks5AddrTypeDomain :: byte where "socks5AddrTypeDomain = 3"
definition socks5AddrTypeIPv6 :: byte where "socks5AddrTypeIPv6 = 4"

lemmas s5_consts = socks5Version_def socks5AuthNone_def socks5AuthPassword_def socks5CmdConnect_def
  socks5AddrTypeIPv4_def socks5AddrTypeDomain_def socks5AddrTypeIPv6_def

text \<open>
  One \<^verbatim>\<open>conn.Read(buf)\<close>, which may return fewer bytes than the buffer holds (\<open>piece\<close> chooses, as in
  \<open>conn_Read\<close>): the buffer afterwards. A read into an empty buffer returns at once.
\<close>

definition read_into :: "(nat \<Rightarrow> inconn \<Rightarrow> nat) \<Rightarrow> byte list \<Rightarrow> rwc \<Rightarrow> byte list res \<times> rwc" where
  "read_into piece buf c =
     (if buf = [] then (Inr [], c)
      else case conn_Read piece (length buf) (rwc_in c) of
        ((bs, None), ci) \<Rightarrow> (Inr (bs @ drop (length bs) buf), c\<lparr>rwc_in := ci\<rparr>)
      | ((bs, Some e), ci) \<Rightarrow> (Inl e, c\<lparr>rwc_in := ci\<rparr>))"

definition write_conn :: "byte list \<Rightarrow> rwc \<Rightarrow> go_err option \<times> rwc" where
  "write_conn bs c = (case conn_Write bs (rwc_out c) of ((_, e), co) \<Rightarrow> (e, c\<lparr>rwc_out := co\<rparr>))"

definition passwordAuth :: "(nat \<Rightarrow> inconn \<Rightarrow> nat) \<Rightarrow> SOCKS5Transport \<Rightarrow> rwc \<Rightarrow> s5_err option \<times> rwc" where
  "passwordAuth piece s c =
     (let auth = [1, word_of_nat (length (s5_Username s))] @ s5_Username s @
                 [word_of_nat (length (s5_Password s))] @ s5_Password s in
      case write_conn auth c of
        (Some e, c) \<Rightarrow> (Some (S5_AuthWrite e), c)
      | (None, c) \<Rightarrow>
          case read_into piece [0, 0] c of
            (Inl e, c) \<Rightarrow> (Some (S5_AuthRead e), c)
          | (Inr resp, c) \<Rightarrow>
              if resp ! 1 \<noteq> 0 then (Some (S5_AuthRejected (resp ! 1)), c) else (None, c))"

definition handshake :: "(nat \<Rightarrow> inconn \<Rightarrow> nat) \<Rightarrow> SOCKS5Transport \<Rightarrow> rwc \<Rightarrow> s5_err option \<times> rwc" where
  "handshake piece s c =
     (let methods = (if s5_Username s \<noteq> [] then [socks5Version, 2, socks5AuthNone, socks5AuthPassword]
                     else [socks5Version, 1, socks5AuthNone]) in
      case write_conn methods c of
        (Some e, c) \<Rightarrow> (Some (S5_HandshakeWrite e), c)
      | (None, c) \<Rightarrow>
          case read_into piece [0, 0] c of
            (Inl e, c) \<Rightarrow> (Some (S5_HandshakeRead e), c)
          | (Inr resp, c) \<Rightarrow>
              if resp ! 0 \<noteq> socks5Version then (Some (S5_Version (resp ! 0)), c)
              else if resp ! 1 = socks5AuthPassword then passwordAuth piece s c
              else if resp ! 1 \<noteq> socks5AuthNone then (Some (S5_Method (resp ! 1)), c)
              else (None, c))"

text \<open>The request for a host and a port number, as built before it is written.\<close>

definition build_request :: "ip_text \<Rightarrow> gostring \<Rightarrow> int \<Rightarrow> byte list" where
  "build_request T host port =
     (let req = [socks5Version, socks5CmdConnect, 0]; ip = ParseIP T host;
          req = (if ip \<noteq> [] then
                   (case To4 ip of
                      Some ip4 \<Rightarrow> req @ [socks5AddrTypeIPv4] @ ip4
                    | None \<Rightarrow> case To16 ip of
                        Some ip16 \<Rightarrow> req @ [socks5AddrTypeIPv6] @ ip16
                      | None \<Rightarrow> req)
                 else req @ [socks5AddrTypeDomain, word_of_nat (length host)] @ host)
      in req @ be_put 2 (word_of_int port :: u16))"

text \<open>
  The reply. In \<^verbatim>\<open>make([]byte, resp[0]+2)\<close> the sum is a byte and wraps around. A one-byte read from a
  connection either fails or fills its buffer.
\<close>

definition request :: "ip_text \<Rightarrow> (nat \<Rightarrow> inconn \<Rightarrow> nat) \<Rightarrow> gostring \<Rightarrow> rwc \<Rightarrow> s5_err option \<times> rwc" where
  "request T piece targetAddr c =
     (case SplitHostPort targetAddr of
        None \<Rightarrow> (Some S5_Target, c)
      | Some (host, portStr) \<Rightarrow>
          case Atoi portStr of
            None \<Rightarrow> (Some S5_Port, c)
          | Some port \<Rightarrow>
              case write_conn (build_request T host port) c of
                (Some e, c) \<Rightarrow> (Some (S5_RequestWrite e), c)
              | (None, c) \<Rightarrow>
                  case read_into piece [0, 0, 0, 0] c of
                    (Inl e, c) \<Rightarrow> (Some (S5_RequestRead e), c)
                  | (Inr resp, c) \<Rightarrow>
                      if resp ! 1 \<noteq> 0 then (Some (S5_Rejected (resp ! 1)), c)
                      else
                        let rest = (\<lambda>n c. case read_into piece (replicate n 0) c of
                                            (Inl e, c) \<Rightarrow> (Some (S5_BindAddr e), c)
                                          | (Inr _, c) \<Rightarrow> (None, c))
                        in if resp ! 3 = socks5AddrTypeIPv4 then rest 6 c
                           else if resp ! 3 = socks5AddrTypeIPv6 then rest 18 c
                           else if resp ! 3 = socks5AddrTypeDomain then
                             (case read_into piece (take 1 resp) c of
                                (Inl e, c) \<Rightarrow> (Some (S5_DomainLength e), c)
                              | (Inr r1, c) \<Rightarrow> rest (unat (r1 ! 0 + 2)) c)
                           else (Some (S5_AddrType (resp ! 3)), c))"

text \<open>\<open>dial\<close> is the TCP connection to the proxy.\<close>

definition SOCKS5_Dial ::
  "ip_text \<Rightarrow> (nat \<Rightarrow> inconn \<Rightarrow> nat) \<Rightarrow> (gostring \<Rightarrow> rwc res) \<Rightarrow> SOCKS5Transport \<Rightarrow> gostring \<Rightarrow> (s5_err \<times> rwc option) + rwc" where
  "SOCKS5_Dial T piece dial s targetAddr =
     (case dial (s5_ProxyAddr s) of
        Inl e \<Rightarrow> Inl (S5_ProxyConn e, None)
      | Inr c \<Rightarrow>
          case handshake piece s c of
            (Some e, c) \<Rightarrow> Inl (e, Some (c\<lparr>rwc_closed := True\<rparr>))
          | (None, c) \<Rightarrow>
              case request T piece targetAddr c of
                (Some e, c) \<Rightarrow> Inl (e, Some (c\<lparr>rwc_closed := True\<rparr>))
              | (None, c) \<Rightarrow> Inr c)"

definition SOCKS5_Listen :: "SOCKS5Transport \<Rightarrow> gostring \<Rightarrow> s5_err + unit" where
  "SOCKS5_Listen s addr = Inl S5_ListenUnsupported"

section \<open>Reading replies\<close>

text \<open>A network that delivers what is asked for, as far as it has it.\<close>

definition whole :: "nat \<Rightarrow> inconn \<Rightarrow> nat" where
  "whole n c = n"

lemma read_into_whole:
  assumes "pending (rwc_in c) = bs @ rest" and "length bs = length buf"
  shows "read_into whole buf c = (Inr bs, c\<lparr>rwc_in := (rwc_in c)\<lparr>pending := rest\<rparr>\<rparr>)"
proof (cases "bs = []")
  case True
  with assms show ?thesis by (simp add: read_into_def)
next
  case False
  with assms have "1 \<le> length buf" by (cases buf) auto
  with assms False show ?thesis by (auto simp: read_into_def conn_Read_def whole_def)
qed

lemma read_into_keeps: "read_into piece buf c = (r, c') \<Longrightarrow> rwc_out c' = rwc_out c \<and> rwc_closed c' = rwc_closed c"
  by (auto simp: read_into_def split: if_splits prod.splits option.splits)

lemma write_conn_room:
  assumes "room (rwc_out c) = None"
  shows "write_conn bs c = (None, c\<lparr>rwc_out := (rwc_out c)\<lparr>sent := sent (rwc_out c) @ bs\<rparr>\<rparr>)"
  using assms by (simp add: write_conn_def conn_Write_def)

section \<open>The reply and the request as RFC 1928 has them\<close>

text \<open>The bound address of a reply: its type and its bytes, for names of up to 253 bytes.\<close>

definition bind_addr :: "byte \<Rightarrow> byte list \<Rightarrow> bool" where
  "bind_addr atyp bnd \<longleftrightarrow>
     atyp = 1 \<and> length bnd = 6 \<or> atyp = 4 \<and> length bnd = 18 \<or>
     atyp = 3 \<and> (\<exists>n name. bnd = n # name \<and> n \<le> 253 \<and> length name = unat n + 2)"

lemma bind_domain_length: "n \<le> 253 \<Longrightarrow> unat (n + 2 :: byte) = unat n + 2"
  by (simp add: word_le_nat_alt unat_word_ariths)

lemma request_ok:
  assumes "SplitHostPort target = Some (host, ps)" and "Atoi ps = Some port" and "room (rwc_out c) = None"
    and "pending (rwc_in c) = [v, 0, r, atyp] @ bnd @ rest" and "bind_addr atyp bnd"
  shows "request T whole target c =
    (None, c\<lparr>rwc_in := (rwc_in c)\<lparr>pending := rest\<rparr>,
             rwc_out := (rwc_out c)\<lparr>sent := sent (rwc_out c) @ build_request T host port\<rparr>\<rparr>)"
proof -
  let ?c1 = "c\<lparr>rwc_out := (rwc_out c)\<lparr>sent := sent (rwc_out c) @ build_request T host port\<rparr>\<rparr>"
  let ?c2 = "?c1\<lparr>rwc_in := (rwc_in c)\<lparr>pending := bnd @ rest\<rparr>\<rparr>"
  have w: "write_conn (build_request T host port) c = (None, ?c1)" by (rule write_conn_room [OF assms(3)])
  have r: "read_into whole [0, 0, 0, 0] ?c1 = (Inr [v, 0, r, atyp], ?c2)"
    using read_into_whole [of ?c1 "[v, 0, r, atyp]" "bnd @ rest" "[0, 0, 0, 0]"] assms(4) by simp
  have last: "read_into whole (replicate (length bnd) 0) ?c2 = (Inr bnd, ?c2\<lparr>rwc_in := (rwc_in c)\<lparr>pending := rest\<rparr>\<rparr>)"
    using read_into_whole [of ?c2 bnd rest "replicate (length bnd) 0"] by simp
  from assms(5) consider "atyp = 1" "length bnd = 6" | "atyp = 4" "length bnd = 18"
    | n name where "atyp = 3" "bnd = n # name" "n \<le> 253" "length name = unat n + 2" by (auto simp: bind_addr_def)
  then show ?thesis
  proof cases
    case 3
    let ?c3 = "?c2\<lparr>rwc_in := (rwc_in c)\<lparr>pending := name @ rest\<rparr>\<rparr>"
    have a: "read_into whole [v] ?c2 = (Inr [n], ?c3)"
      using read_into_whole [of ?c2 "[n]" "name @ rest" "[v]"] 3 by simp
    have b: "read_into whole (replicate (unat n + 2) 0) ?c3 = (Inr name, ?c3\<lparr>rwc_in := (rwc_in c)\<lparr>pending := rest\<rparr>\<rparr>)"
      using read_into_whole [of ?c3 name rest "replicate (unat n + 2) 0"] 3 by simp
    show ?thesis
      unfolding request_def assms(1,2) option.case prod.case w r sum.case
      using 3 a b bind_domain_length [OF 3(3)] by (simp add: s5_consts)
  qed (unfold request_def assms(1,2) option.case prod.case w r sum.case,
       use last in \<open>simp_all add: s5_consts\<close>)
qed

text \<open>The request a server reads: command, address type, address and port.\<close>

definition parse_request :: "byte list \<Rightarrow> (byte \<times> byte \<times> byte list \<times> u16) option" where
  "parse_request bs =
     (case bs of
        ver # cmd # rsv # atyp # rest \<Rightarrow>
          if ver \<noteq> 5 then None
          else
            let (n, rest) = (if atyp = 1 then (4, rest) else if atyp = 4 then (16, rest)
                             else case rest of [] \<Rightarrow> (0, []) | l # rest \<Rightarrow> (unat l, rest))
            in if length rest = n + 2 then Some (cmd, atyp, take n rest, be_get (drop n rest)) else None
      | _ \<Rightarrow> None)"

section \<open>Properties\<close>



text \<open>The request is the one RFC 1928 describes for the target: an IPv4 or IPv6 address literal is sent as
  the address, any other host of up to 255 bytes as a name, with the port modulo 65536.\<close>

theorem SOCKS5_request_format:
  assumes "ParseIP T host \<in> {[]} \<union> {ip. length ip \<in> {4, 16}}" and "length host < 256"
  shows "parse_request (build_request T host port) = Some
    (if ParseIP T host = [] then (1, 3, host, word_of_int port)
     else case To4 (ParseIP T host) of
       Some ip4 \<Rightarrow> (1, 1, ip4, word_of_int port)
     | None \<Rightarrow> (1, 4, ParseIP T host, word_of_int port))"
proof -
  define pb where "pb = be_put 2 (word_of_int port :: u16)"
  have p: "length pb = 2" "(be_get pb :: u16) = word_of_int port"
    by (simp_all add: pb_def be_get_be_put)
  have l: "unat (word_of_nat (length host) :: byte) = length host"
    using assms(2) by (simp add: unat_of_nat take_bit_nat_eq_self)
  have t4: "length a = 4" if "To4 ip = Some a" for ip a
    using that by (auto simp: To4_def split: if_splits)
  have t16: "length (ParseIP T host) = 16" if "ParseIP T host \<noteq> []" "To4 (ParseIP T host) = None"
    using assms(1) that by (auto simp: To4_def)
  consider "ParseIP T host = []" | ip4 where "ParseIP T host \<noteq> []" "To4 (ParseIP T host) = Some ip4"
    | "ParseIP T host \<noteq> []" "To4 (ParseIP T host) = None" "length (ParseIP T host) = 16"
    using t16 by (cases "To4 (ParseIP T host)") auto
  then show ?thesis
  proof cases
    case 1
    then have "build_request T host port = [5, 1, 0, 3, word_of_nat (length host)] @ host @ pb"
      by (simp add: build_request_def pb_def s5_consts)
    with 1 p l show ?thesis by (simp add: parse_request_def)
  next
    case 2
    then have "build_request T host port = [5, 1, 0, 1] @ ip4 @ pb"
      by (simp add: build_request_def pb_def s5_consts)
    with 2 p t4 [OF 2(2)] show ?thesis by (simp add: parse_request_def)
  next
    case 3
    then have "build_request T host port = [5, 1, 0, 4] @ ParseIP T host @ pb"
      by (simp add: build_request_def pb_def s5_consts To16_def)
    with 3 p show ?thesis by (simp add: parse_request_def)
  qed
qed

theorem SOCKS5_request_format_witness:
  "parse_request (build_request (raw_ip_text\<lparr>ParseIP := \<lambda>_. []\<rparr>) [97, 98] 25565) = Some (1, 3, [97, 98], 25565)"
  using SOCKS5_request_format [of "raw_ip_text\<lparr>ParseIP := \<lambda>_. []\<rparr>" "[97, 98]" 25565] by simp

text \<open>A short read is taken for a full one. If the network delivers the proxy's reply a byte at a time, the
  client does not see the method byte: it takes a refusal of every method for an agreement on none, and
  goes on with its request.\<close>

theorem SOCKS5_short_read_accepts:
  assumes "pending (rwc_in c) = 5 # refusal # rest" and "room (rwc_out c) = None"
  shows "\<exists>c'. handshake (\<lambda>_ _. 1) s c = (None, c') \<and> pending (rwc_in c') = refusal # rest"
  using assms
  by (simp add: handshake_def write_conn_room read_into_def conn_Read_def s5_consts Let_def)

theorem SOCKS5_short_read_accepts_witness:
  "\<exists>c'. handshake (\<lambda>_ _. 1) (NewSOCKS5Transport [])
     \<lparr>rwc_in = \<lparr>pending = [5, 0xFF], fin = EOF\<rparr>, rwc_out = \<lparr>sent = [], room = None, ofail = EOF\<rparr>, rwc_closed = False\<rparr> =
     (None, c') \<and> pending (rwc_in c') = [0xFF]"
  by (rule SOCKS5_short_read_accepts) simp_all

text \<open>The length of a bound name is computed in a byte: for a name of 254 or 255 bytes the client consumes
  none or one of the bytes that follow the length and leaves the rest of the reply at the front of the stream.\<close>

theorem SOCKS5_bind_name_wraps:
  assumes "254 \<le> n" and "pending (rwc_in c) = [v, 0, r, 3, n] @ name" and "length name = unat n + 2"
    and "SplitHostPort target = Some (host, ps)" and "Atoi ps = Some port" and "room (rwc_out c) = None"
  shows "\<exists>c'. request T whole target c = (None, c') \<and> pending (rwc_in c') = drop (unat n - 254) name"
proof -
  have l: "length name = unat n + 2" by (rule assms(3))
  have "unat n < 2 ^ LENGTH(8)" by (rule unsigned_less)
  with assms(1) have n: "unat n < 256" "254 \<le> unat n" by (simp_all add: word_le_nat_alt)
  then have k: "unat (n + 2) = unat n - 254" by (simp add: unat_word_ariths le_mod_geq)
  let ?c1 = "c\<lparr>rwc_out := (rwc_out c)\<lparr>sent := sent (rwc_out c) @ build_request T host port\<rparr>\<rparr>"
  let ?c2 = "?c1\<lparr>rwc_in := (rwc_in c)\<lparr>pending := n # name\<rparr>\<rparr>"
  let ?c3 = "?c1\<lparr>rwc_in := (rwc_in c)\<lparr>pending := name\<rparr>\<rparr>"
  let ?c4 = "?c1\<lparr>rwc_in := (rwc_in c)\<lparr>pending := drop (unat n - 254) name\<rparr>\<rparr>"
  have w: "write_conn (build_request T host port) c = (None, ?c1)" by (rule write_conn_room [OF assms(6)])
  have r: "read_into whole [0, 0, 0, 0] ?c1 = (Inr [v, 0, r, 3], ?c2)"
    using read_into_whole [of ?c1 "[v, 0, r, 3]" "n # name" "[0, 0, 0, 0]"] assms(2) by simp
  have a: "read_into whole [v] ?c2 = (Inr [n], ?c3)"
    using read_into_whole [of ?c2 "[n]" name "[v]"] by simp
  have b: "read_into whole (replicate (unat n - 254) 0) ?c3 = (Inr (take (unat n - 254) name), ?c4)"
    using read_into_whole [of ?c3 "take (unat n - 254) name" "drop (unat n - 254) name" "replicate (unat n - 254) 0"] l by simp
  have "request T whole target c = (None, ?c4)"
    unfolding request_def assms(4,5) option.case prod.case w r sum.case using a b k by (simp add: s5_consts)
  then show ?thesis by simp
qed

theorem SOCKS5_bind_name_wraps_witness:
  "\<exists>c'. request raw_ip_text whole [97, 58, 56, 48]
     \<lparr>rwc_in = \<lparr>pending = [5, 0, 0, 3, 254] @ replicate 256 7, fin = EOF\<rparr>,
      rwc_out = \<lparr>sent = [], room = None, ofail = EOF\<rparr>, rwc_closed = False\<rparr> = (None, c') \<and>
     pending (rwc_in c') = replicate 256 7"
proof -
  have 1: "SplitHostPort [97, 58, 56, 48] = Some ([97], [56, 48])" by code_simp
  have 2: "Atoi [56, 48] = Some 80" by code_simp
  show ?thesis
    using SOCKS5_bind_name_wraps [OF _ _ _ 1 2, of 254
        "\<lparr>rwc_in = \<lparr>pending = [5, 0, 0, 3, 254] @ replicate 256 7, fin = EOF\<rparr>,
          rwc_out = \<lparr>sent = [], room = None, ofail = EOF\<rparr>, rwc_closed = False\<rparr>" 5 0 "replicate 256 7" raw_ip_text]
    by simp
qed

end
