(* ===== verification/Transport.thy ===== *)
theory Transport
  imports Relay
begin

text \<open>
  The rest of package \<^verbatim>\<open>transport\<close>: \<^verbatim>\<open>transport.go\<close> (the types and the factory), \<^verbatim>\<open>tcp.go\<close>, \<^verbatim>\<open>tls.go\<close>,
  \<^verbatim>\<open>kcp.go\<close> and \<^verbatim>\<open>quic.go\<close> (\<^verbatim>\<open>ws.go\<close> is the theory \<open>Websocket\<close>). The protocol libraries are not modelled beyond what the code asks of
  them: a call succeeds and opens a handle, or fails. The locale \<open>clean_dial\<close> is the contract of \<^verbatim>\<open>Dial\<close>
  for resources; TLS keeps it over any transport that has it. The theorems: no leaks on the error paths,
  and the leak on closing a QUIC connection.
\<close>

section \<open>Types of transports and the factory\<close>

text \<open>\<^verbatim>\<open>Type\<close> is an \<^verbatim>\<open>int\<close>; any value of it may occur.\<close>

definition TCP :: int where "TCP = 0"
definition TLS :: int where "TLS = 1"
definition WebSocket :: int where "WebSocket = 2"
definition KCP :: int where "KCP = 3"
definition QUIC :: int where "QUIC = 4"
definition SOCKS5 :: int where "SOCKS5 = 5"

lemmas type_consts = TCP_def TLS_def WebSocket_def KCP_def QUIC_def SOCKS5_def

definition Type_String :: "int \<Rightarrow> string" where
  "Type_String t =
     (if t = TCP then ''tcp'' else if t = TLS then ''tls'' else if t = WebSocket then ''ws''
      else if t = KCP then ''kcp'' else if t = QUIC then ''quic'' else if t = SOCKS5 then ''socks5''
      else ''unknown'')"

type_synonym 't TransportFactory = "int \<rightharpoonup> 't"

definition NewTransportFactory :: "'t TransportFactory" where
  "NewTransportFactory = Map.empty"

definition Register :: "int \<Rightarrow> 't \<Rightarrow> 't TransportFactory \<Rightarrow> 't TransportFactory" where
  "Register t tr tf = tf(t \<mapsto> tr)"

definition Factory_Get :: "'t TransportFactory \<Rightarrow> int \<Rightarrow> 't option" where
  "Factory_Get tf t = tf t"

text \<open>The panic carries its message.\<close>

definition MustGet :: "'t TransportFactory \<Rightarrow> int \<Rightarrow> string + 't" where
  "MustGet tf t =
     (case tf t of None \<Rightarrow> Inl (''transport: '' @ Type_String t @ '' not registered'') | Some tr \<Rightarrow> Inr tr)"

definition DefaultFactory :: "'t \<Rightarrow> 't TransportFactory" where
  "DefaultFactory tcp = Register TCP tcp NewTransportFactory"

section \<open>Open resources\<close>

text \<open>
  The operating system and the protocol libraries, as far as resources go: the handles that are open. A
  call of a library either fails or opens a handle; which it does is an argument (\<open>Some e\<close>: it fails).
\<close>

record net =
  n_open :: "nat list"
  n_next :: nat

definition open_handle :: "go_err option \<Rightarrow> net \<Rightarrow> nat res \<times> net" where
  "open_handle fails n =
     (case fails of
        Some e \<Rightarrow> (Inl e, n)
      | None \<Rightarrow> (Inr (n_next n), n\<lparr>n_open := n_next n # n_open n, n_next := n_next n + 1\<rparr>))"

definition close_handle :: "nat \<Rightarrow> net \<Rightarrow> net" where
  "close_handle h n = n\<lparr>n_open := filter (\<lambda>x. x \<noteq> h) (n_open n)\<rparr>"

definition net_ok :: "net \<Rightarrow> bool" where
  "net_ok n \<longleftrightarrow> (\<forall>h \<in> set (n_open n). h < n_next n)"

subsection \<open>TCP\<close>

text \<open>The timeout in seconds: 30 when it is not set.\<close>

definition TCP_timeout :: "nat \<Rightarrow> nat" where
  "TCP_timeout DialTimeout = (if DialTimeout = 0 then 30 else DialTimeout)"

text \<open>The dialer of \<^verbatim>\<open>net\<close> decides by its timeout whether it fails.\<close>

definition TCP_Dial :: "(nat \<Rightarrow> gostring \<Rightarrow> go_err option) \<Rightarrow> nat \<Rightarrow> gostring \<Rightarrow> net \<Rightarrow> nat res \<times> net" where
  "TCP_Dial outcome DialTimeout addr n = open_handle (outcome (TCP_timeout DialTimeout) addr) n"

definition TCP_Listen :: "(gostring \<Rightarrow> go_err option) \<Rightarrow> gostring \<Rightarrow> net \<Rightarrow> nat res \<times> net" where
  "TCP_Listen outcome addr n = open_handle (outcome addr) n"

subsection \<open>TLS\<close>

text \<open>\<open>tcp\<close> is \<^verbatim>\<open>TCPTransport\<close> with its timeout; without a transport to wrap, TLS wraps that one.\<close>

record ('c, 't) TLSTransport =
  tls_Config :: 'c
  tls_DialTimeout :: nat
  tls_Next :: 't

definition NewTLSTransport :: "(nat \<Rightarrow> 't) \<Rightarrow> 'c \<Rightarrow> 't option \<Rightarrow> ('c, 't) TLSTransport" where
  "NewTLSTransport tcp config next =
     \<lparr>tls_Config = config, tls_DialTimeout = 30, tls_Next = (case next of None \<Rightarrow> tcp 30 | Some t \<Rightarrow> t)\<rparr>"

text \<open>The wrapped transport is an argument; the TLS connection closes with the connection it wraps.\<close>

definition TLS_Dial ::
  "(gostring \<Rightarrow> net \<Rightarrow> nat res \<times> net) \<Rightarrow> (gostring \<Rightarrow> go_err option) \<Rightarrow> gostring \<Rightarrow> net \<Rightarrow> nat res \<times> net" where
  "TLS_Dial next handshake addr n =
     (case next addr n of
        (Inl e, n) \<Rightarrow> (Inl e, n)
      | (Inr conn, n) \<Rightarrow>
          case handshake addr of
            Some e \<Rightarrow> (Inl e, close_handle conn n)
          | None \<Rightarrow> (Inr conn, n))"

definition TLS_Listen ::
  "(gostring \<Rightarrow> net \<Rightarrow> nat res \<times> net) \<Rightarrow> gostring \<Rightarrow> net \<Rightarrow> nat res \<times> net" where
  "TLS_Listen next addr n = (case next addr n of (Inl e, n) \<Rightarrow> (Inl e, n) | (Inr ln, n) \<Rightarrow> (Inr ln, n))"

subsection \<open>KCP\<close>

text \<open>The settings of a session.\<close>

record kcp_session =
  ks_handle :: nat
  ks_StreamMode :: bool
  ks_WriteDelay :: bool
  ks_NoDelay :: "int \<times> int \<times> int \<times> int"
  ks_WindowSize :: "int \<times> int"
  ks_Mtu :: int
  ks_ACKNoDelay :: bool

definition tune_session :: "int \<Rightarrow> nat \<Rightarrow> kcp_session" where
  "tune_session wnd h =
     \<lparr>ks_handle = h, ks_StreamMode = True, ks_WriteDelay = False, ks_NoDelay = (1, 10, 2, 1),
      ks_WindowSize = (wnd, wnd), ks_Mtu = 1400, ks_ACKNoDelay = True\<rparr>"

record KCPTransport =
  kt_DialTimeout :: nat
  kt_Block :: "nat option"
  kt_DataShard :: int
  kt_ParityShard :: int

definition NewKCPTransport :: KCPTransport where
  "NewKCPTransport = \<lparr>kt_DialTimeout = 30, kt_Block = None, kt_DataShard = 10, kt_ParityShard = 3\<rparr>"

text \<open>\<open>outcome\<close> is the result of \<^verbatim>\<open>DialWithOptions\<close>/\<^verbatim>\<open>ListenWithOptions\<close> for address, cipher and shards.\<close>

definition KCP_Dial ::
  "(gostring \<Rightarrow> nat option \<Rightarrow> int \<Rightarrow> int \<Rightarrow> go_err option) \<Rightarrow> KCPTransport \<Rightarrow> gostring \<Rightarrow> net \<Rightarrow> kcp_session res \<times> net" where
  "KCP_Dial outcome k addr n =
     (case open_handle (case kt_Block k of
                          Some b \<Rightarrow> outcome addr (Some b) (kt_DataShard k) (kt_ParityShard k)
                        | None \<Rightarrow> outcome addr None (kt_DataShard k) (kt_ParityShard k)) n of
        (Inl e, n) \<Rightarrow> (Inl e, n)
      | (Inr h, n) \<Rightarrow> (Inr (tune_session 1024 h), n))"

definition KCP_Listen ::
  "(gostring \<Rightarrow> nat option \<Rightarrow> int \<Rightarrow> int \<Rightarrow> go_err option) \<Rightarrow> KCPTransport \<Rightarrow> gostring \<Rightarrow> net \<Rightarrow> nat res \<times> net" where
  "KCP_Listen outcome k addr n =
     open_handle (case kt_Block k of
                    Some b \<Rightarrow> outcome addr (Some b) (kt_DataShard k) (kt_ParityShard k)
                  | None \<Rightarrow> outcome addr None (kt_DataShard k) (kt_ParityShard k)) n"

definition kcpListener_Accept :: "go_err option \<Rightarrow> net \<Rightarrow> kcp_session res \<times> net" where
  "kcpListener_Accept fails n =
     (case open_handle fails n of (Inl e, n) \<Rightarrow> (Inl e, n) | (Inr h, n) \<Rightarrow> (Inr (tune_session 1024 h), n))"

definition KCPDialSession ::
  "(gostring \<Rightarrow> nat option \<Rightarrow> int \<Rightarrow> int \<Rightarrow> go_err option) \<Rightarrow> gostring \<Rightarrow> nat option \<Rightarrow> net \<Rightarrow> kcp_session res \<times> net" where
  "KCPDialSession outcome addr blk n =
     (case open_handle (outcome addr blk 10 3) n of
        (Inl e, n) \<Rightarrow> (Inl e, n)
      | (Inr h, n) \<Rightarrow> (Inr (tune_session 512 h), n))"

subsection \<open>QUIC\<close>

text \<open>A connection: its stream and the two addresses it reports.\<close>

record QUICConn =
  qc_stream :: nat
  qc_laddr :: gostring
  qc_raddr :: gostring

text \<open>
  A TLS configuration as far as it matters: whether peers' certificates go unchecked, and the application
  protocols. \<open>None\<close> is \<^verbatim>\<open>nil\<close>.
\<close>

record tls_config =
  tc_InsecureSkipVerify :: bool
  tc_NextProtos :: "string list"

text \<open>
  The outcomes of the library calls of \<^verbatim>\<open>Dial\<close>, \<^verbatim>\<open>Listen\<close> and \<^verbatim>\<open>Accept\<close>: the resolved address, the errors,
  the local address of the socket and the remote address of an accepted connection.
\<close>

record quic_outcomes =
  qo_resolve :: "gostring res"
  qo_listen :: "go_err option"
  qo_dial :: "tls_config \<Rightarrow> go_err option"
  qo_accept :: "go_err option"
  qo_stream :: "go_err option"
  qo_laddr :: gostring
  qo_raddr :: gostring

record QUICTransport =
  qt_TLSConfig :: "tls_config option"
  qt_DialTimeout :: nat

definition NewQUICTransport :: "tls_config option \<Rightarrow> QUICTransport" where
  "NewQUICTransport tlsConfig = \<lparr>qt_TLSConfig = tlsConfig, qt_DialTimeout = 30\<rparr>"

definition quic_tls :: "tls_config option \<Rightarrow> tls_config" where
  "quic_tls TLSConfig =
     (case TLSConfig of
        Some c \<Rightarrow> c
      | None \<Rightarrow> \<lparr>tc_InsecureSkipVerify = True, tc_NextProtos = [''minegate'']\<rparr>)"

definition QUIC_Dial :: "QUICTransport \<Rightarrow> quic_outcomes \<Rightarrow> net \<Rightarrow> QUICConn res \<times> net" where
  "QUIC_Dial tr q n =
     (case qo_resolve q of
        Inl e \<Rightarrow> (Inl e, n)
      | Inr udpAddr \<Rightarrow>
          case open_handle (qo_listen q) n of
            (Inl e, n) \<Rightarrow> (Inl e, n)
          | (Inr udpConn, n) \<Rightarrow>
              case open_handle (qo_dial q (quic_tls (qt_TLSConfig tr))) n of
                (Inl e, n) \<Rightarrow> (Inl e, close_handle udpConn n)
              | (Inr conn, n) \<Rightarrow>
                  case open_handle (qo_stream q) n of
                    (Inl e, n) \<Rightarrow> (Inl e, close_handle udpConn (close_handle conn n))
                  | (Inr stream, n) \<Rightarrow> (Inr \<lparr>qc_stream = stream, qc_laddr = qo_laddr q, qc_raddr = udpAddr\<rparr>, n))"

text \<open>A listener: the handle of the library's listener and the address it was asked for.\<close>

record quicListener =
  ql_listener :: nat
  ql_laddr :: gostring

definition QUIC_Listen :: "QUICTransport \<Rightarrow> quic_outcomes \<Rightarrow> net \<Rightarrow> quicListener res \<times> net" where
  "QUIC_Listen tr q n =
     (case qo_resolve q of
        Inl e \<Rightarrow> (Inl e, n)
      | Inr udpAddr \<Rightarrow>
          case open_handle (qo_listen q) n of
            (Inl e, n) \<Rightarrow> (Inl e, n)
          | (Inr udpConn, n) \<Rightarrow>
              case open_handle (qo_dial q (quic_tls (qt_TLSConfig tr))) n of
                (Inl e, n) \<Rightarrow> (Inl e, close_handle udpConn n)
              | (Inr ln, n) \<Rightarrow> (Inr \<lparr>ql_listener = ln, ql_laddr = udpAddr\<rparr>, n))"

definition quicListener_Accept :: "quicListener \<Rightarrow> quic_outcomes \<Rightarrow> net \<Rightarrow> QUICConn res \<times> net" where
  "quicListener_Accept ql q n =
     (case open_handle (qo_accept q) n of
        (Inl e, n) \<Rightarrow> (Inl e, n)
      | (Inr conn, n) \<Rightarrow>
          case open_handle (qo_stream q) n of
            (Inl e, n) \<Rightarrow> (Inl e, close_handle conn n)
          | (Inr stream, n) \<Rightarrow> (Inr \<lparr>qc_stream = stream, qc_laddr = ql_laddr ql, qc_raddr = qo_raddr q\<rparr>, n))"

text \<open>
  Reading, writing and the deadlines go to the stream, whose methods are those of the library: functions of
  the stream's handle, the argument and the state of the library.
\<close>

definition QUICConn_Read :: "(nat \<Rightarrow> nat \<Rightarrow> 's \<Rightarrow> 'x \<times> 's) \<Rightarrow> nat \<Rightarrow> QUICConn \<Rightarrow> 's \<Rightarrow> 'x \<times> 's" where
  "QUICConn_Read stream_Read n qc = stream_Read (qc_stream qc) n"

definition QUICConn_Write :: "(nat \<Rightarrow> byte list \<Rightarrow> 's \<Rightarrow> 'x \<times> 's) \<Rightarrow> byte list \<Rightarrow> QUICConn \<Rightarrow> 's \<Rightarrow> 'x \<times> 's" where
  "QUICConn_Write stream_Write b qc = stream_Write (qc_stream qc) b"

definition QUICConn_SetDeadline :: "(nat \<Rightarrow> 't \<Rightarrow> 's \<Rightarrow> 'x \<times> 's) \<Rightarrow> 't \<Rightarrow> QUICConn \<Rightarrow> 's \<Rightarrow> 'x \<times> 's" where
  "QUICConn_SetDeadline stream_SetDeadline t qc = stream_SetDeadline (qc_stream qc) t"

definition QUICConn_SetReadDeadline :: "(nat \<Rightarrow> 't \<Rightarrow> 's \<Rightarrow> 'x \<times> 's) \<Rightarrow> 't \<Rightarrow> QUICConn \<Rightarrow> 's \<Rightarrow> 'x \<times> 's" where
  "QUICConn_SetReadDeadline stream_SetReadDeadline t qc = stream_SetReadDeadline (qc_stream qc) t"

definition QUICConn_SetWriteDeadline :: "(nat \<Rightarrow> 't \<Rightarrow> 's \<Rightarrow> 'x \<times> 's) \<Rightarrow> 't \<Rightarrow> QUICConn \<Rightarrow> 's \<Rightarrow> 'x \<times> 's" where
  "QUICConn_SetWriteDeadline stream_SetWriteDeadline t qc = stream_SetWriteDeadline (qc_stream qc) t"

definition QUICConn_LocalAddr :: "QUICConn \<Rightarrow> gostring" where
  "QUICConn_LocalAddr qc = qc_laddr qc"

definition QUICConn_RemoteAddr :: "QUICConn \<Rightarrow> gostring" where
  "QUICConn_RemoteAddr qc = qc_raddr qc"

definition QUICConn_Close :: "QUICConn \<Rightarrow> net \<Rightarrow> net" where
  "QUICConn_Close qc n = close_handle (qc_stream qc) n"

definition quicListener_Close :: "quicListener \<Rightarrow> net \<Rightarrow> net" where
  "quicListener_Close ql n = close_handle (ql_listener ql) n"

definition quicListener_Addr :: "(nat \<Rightarrow> 'addr) \<Rightarrow> quicListener \<Rightarrow> 'addr" where
  "quicListener_Addr ln_Addr ql = ln_Addr (ql_listener ql)"

section \<open>Dialling without leaks\<close>

text \<open>The contract of \<^verbatim>\<open>Dial\<close>: a failed call leaves nothing open, a successful one exactly its connection.\<close>

locale clean_dial =
  fixes dial :: "gostring \<Rightarrow> net \<Rightarrow> nat res \<times> net"
  assumes dial_fails: "net_ok n \<Longrightarrow> dial addr n = (Inl e, n') \<Longrightarrow> n_open n' = n_open n \<and> net_ok n'"
    and dial_opens: "net_ok n \<Longrightarrow> dial addr n = (Inr h, n') \<Longrightarrow>
      n_open n' = h # n_open n \<and> h \<notin> set (n_open n) \<and> net_ok n'"
begin

lemma close_undoes:
  assumes "net_ok n" and "dial addr n = (Inr h, n')"
  shows "n_open (close_handle h n') = n_open n"
proof -
  have "n_open n' = h # n_open n" "h \<notin> set (n_open n)" using dial_opens [OF assms] by auto
  moreover from this(2) have "filter (\<lambda>x. x \<noteq> h) (n_open n) = n_open n" by (intro filter_True) auto
  ultimately show ?thesis by (simp add: close_handle_def)
qed

lemma TLS_clean: "clean_dial (TLS_Dial dial hs)"
proof
  fix n addr e n'
  assume ok: "net_ok n" and d: "TLS_Dial dial hs addr n = (Inl e, n')"
  obtain r n1 where r: "dial addr n = (r, n1)" by (metis prod.exhaust)
  show "n_open n' = n_open n \<and> net_ok n'"
  proof (cases r)
    case (Inl e')
    with r d dial_fails [OF ok] show ?thesis by (simp add: TLS_Dial_def)
  next
    case (Inr h)
    with r have "dial addr n = (Inr h, n1)" by simp
    moreover from Inr r d have "n' = close_handle h n1" by (auto simp: TLS_Dial_def split: option.splits)
    ultimately show ?thesis
      using close_undoes [OF ok] dial_opens [OF ok] ok by (auto simp: net_ok_def close_handle_def)
  qed
next
  fix n addr h n'
  assume ok: "net_ok n" and d: "TLS_Dial dial hs addr n = (Inr h, n')"
  then have "dial addr n = (Inr h, n')"
    by (auto simp: TLS_Dial_def split: prod.splits sum.splits option.splits)
  then show "n_open n' = h # n_open n \<and> h \<notin> set (n_open n) \<and> net_ok n'" by (rule dial_opens [OF ok])
qed

end

lemma open_handle_cases:
  assumes "net_ok n" and "open_handle fails n = (r, n')"
  shows "case r of Inl e \<Rightarrow> n' = n | Inr h \<Rightarrow> n_open n' = h # n_open n \<and> h \<notin> set (n_open n) \<and> net_ok n'"
  using assms by (auto simp: open_handle_def net_ok_def less_Suc_eq split: option.splits)

interpretation tcp_dial: clean_dial "TCP_Dial outcome t" for outcome t
  by unfold_locales
    (auto simp: TCP_Dial_def open_handle_def net_ok_def less_Suc_eq split: option.splits)

interpretation kcp_dial: clean_dial "\<lambda>addr n. map_prod (map_sum id ks_handle) id (KCP_Dial outcome k addr n)" for outcome k
proof
  fix n addr e n'
  assume "net_ok n" and "map_prod (map_sum id ks_handle) id (KCP_Dial outcome k addr n) = (Inl e, n')"
  then show "n_open n' = n_open n \<and> net_ok n'"
    by (auto simp: KCP_Dial_def open_handle_def split: option.splits)
next
  fix n addr h n'
  assume "net_ok n" and "map_prod (map_sum id ks_handle) id (KCP_Dial outcome k addr n) = (Inr h, n')"
  then show "n_open n' = h # n_open n \<and> h \<notin> set (n_open n) \<and> net_ok n'"
    by (auto simp: KCP_Dial_def open_handle_def tune_session_def net_ok_def less_Suc_eq split: option.splits)
qed

interpretation tls_dial: clean_dial "TLS_Dial (TCP_Dial outcome t) hs" for outcome t hs
  by (rule tcp_dial.TLS_clean)

section \<open>Properties\<close>


text \<open>Outcomes for examples: everything works but opening the stream.\<close>

definition demo_outcomes :: quic_outcomes where
  "demo_outcomes = \<lparr>qo_resolve = Inr [1], qo_listen = None, qo_dial = (\<lambda>_. None), qo_accept = None,
     qo_stream = Some ErrTimeout, qo_laddr = [], qo_raddr = []\<rparr>"


text \<open>Closing a QUIC connection closes its stream only: the UDP socket and the QUIC connection that \<^verbatim>\<open>Dial\<close>
  opened stay open, and nothing refers to them any more. Closing a QUIC listener leaves its UDP socket open.\<close>

theorem QUIC_Close_leaks:
  assumes "net_ok n" and "QUIC_Dial tr q n = (Inr qc, n')" and "QUIC_Listen tr q n = (Inr ln, n'')"
  shows "\<exists>udp conn. udp \<noteq> conn \<and> udp \<notin> set (n_open n) \<and> conn \<notin> set (n_open n) \<and>
      n_open (QUICConn_Close qc n') = conn # udp # n_open n \<and>
      n_open (quicListener_Close ln n'') = udp # n_open n"
proof -
  have "filter (\<lambda>x. x \<noteq> n_next n + 2) (n_open n) = n_open n" "filter (\<lambda>x. x \<noteq> Suc (n_next n)) (n_open n) = n_open n"
    using assms(1) by (auto simp: net_ok_def intro!: filter_True)
  with assms show ?thesis
    by (intro exI [of _ "n_next n"] exI [of _ "Suc (n_next n)"])
      (auto simp: QUIC_Dial_def QUIC_Listen_def QUICConn_Close_def quicListener_Close_def open_handle_def
        close_handle_def net_ok_def split: option.splits sum.splits)
qed

theorem QUIC_Close_leaks_witness:
  "\<exists>udp conn. n_open (QUICConn_Close \<lparr>qc_stream = 2, qc_laddr = [], qc_raddr = [1]\<rparr> \<lparr>n_open = [2, 1, 0], n_next = 3\<rparr>) = [conn, udp]"
proof -
  let ?q = "demo_outcomes\<lparr>qo_stream := None\<rparr>"
  have 1: "QUIC_Dial (NewQUICTransport None) ?q \<lparr>n_open = [], n_next = 0\<rparr> =
      (Inr \<lparr>qc_stream = 2, qc_laddr = [], qc_raddr = [1]\<rparr>, \<lparr>n_open = [2, 1, 0], n_next = 3\<rparr>)"
    by (simp add: QUIC_Dial_def open_handle_def demo_outcomes_def)
  have 2: "QUIC_Listen (NewQUICTransport None) ?q \<lparr>n_open = [], n_next = 0\<rparr> =
      (Inr \<lparr>ql_listener = 1, ql_laddr = [1]\<rparr>, \<lparr>n_open = [1, 0], n_next = 2\<rparr>)"
    by (simp add: QUIC_Listen_def open_handle_def demo_outcomes_def)
  show ?thesis using QUIC_Close_leaks [OF _ 1 2] by (auto simp: net_ok_def)
qed

text \<open>The factory returns what was registered last under a type; the default factory knows TCP only.\<close>

theorem Factory_lookup:
  "Factory_Get (Register t tr tf) t' = (if t' = t then Some tr else Factory_Get tf t') \<and>
   (MustGet (DefaultFactory tcp) t' = (if t' = TCP then Inr tcp
      else Inl (''transport: '' @ Type_String t' @ '' not registered'')))"
  by (simp add: Factory_Get_def Register_def MustGet_def DefaultFactory_def NewTransportFactory_def)

end
