(* ===== verification/Websocket.thy ===== *)
theory Websocket
  imports Transport
begin

text \<open>
  \<^verbatim>\<open>transport/ws.go\<close>: connections over WebSocket messages, dialling, and the listener with the HTTP server it
  starts in the background. The WebSocket library is a parameter; of \<^verbatim>\<open>net/http\<close> the model has what the code
  uses: the registration of the handler, \<^verbatim>\<open>Serve\<close>, \<^verbatim>\<open>ServeTLS\<close> and \<^verbatim>\<open>Close\<close>, as far as they open, serve
  and close listeners. The theorems: the order in which the listener hands out connections, its life cycle
  without and with TLS, and the loss of data in \<^verbatim>\<open>wsConn.Read\<close>.
\<close>

section \<open>Connections\<close>

text \<open>
  The addresses of the library, with their network and text, and those of \<^verbatim>\<open>ws.go\<close>.
\<close>

datatype net_addr = LibAddr gostring gostring | addrWrapper gostring

fun addr_Network :: "net_addr \<Rightarrow> gostring" where
  "addr_Network (LibAddr network s) = network"
| "addr_Network (addrWrapper a) = bytes_of ''ws''"

fun addr_String :: "net_addr \<Rightarrow> gostring" where
  "addr_String (LibAddr network s) = s"
| "addr_String (addrWrapper a) = a"

text \<open>
  A connection of the library carries messages: those still to arrive, the error after them, those sent,
  and the error with which sending fails, if it does.
\<close>

record websocket_Conn =
  ws_in :: "byte list list"
  ws_fin :: go_err
  ws_out :: "byte list list"
  ws_fail :: "go_err option"

record wsConn = websocket_Conn +
  ws_raddr :: net_addr
  ws_laddr :: net_addr

definition wrap_ws :: "websocket_Conn \<Rightarrow> net_addr \<Rightarrow> net_addr \<Rightarrow> wsConn" where
  "wrap_ws c l r =
     \<lparr>ws_in = ws_in c, ws_fin = ws_fin c, ws_out = ws_out c, ws_fail = ws_fail c, ws_raddr = r, ws_laddr = l\<rparr>"

definition wsConn_Read :: "nat \<Rightarrow> wsConn \<Rightarrow> (byte list \<times> go_err option) \<times> wsConn" where
  "wsConn_Read n wc =
     (case ws_in wc of
        [] \<Rightarrow> (([], Some (ws_fin wc)), wc)
      | m # ms \<Rightarrow> ((take n m, None), wc\<lparr>ws_in := ms\<rparr>))"

definition wsConn_Write :: "wsConn writer" where
  "wsConn_Write b wc =
     (case ws_fail wc of
        Some e \<Rightarrow> ((0, Some e), wc)
      | None \<Rightarrow> ((length b, None), wc\<lparr>ws_out := ws_out wc @ [b]\<rparr>))"

definition wsConn_LocalAddr :: "wsConn \<Rightarrow> net_addr" where
  "wsConn_LocalAddr wc = ws_laddr wc"

definition wsConn_RemoteAddr :: "wsConn \<Rightarrow> net_addr" where
  "wsConn_RemoteAddr wc = ws_raddr wc"

text \<open>\<^verbatim>\<open>SetDeadline\<close> over the two setters of the library's connection.\<close>

definition wsConn_SetDeadline ::
  "('t \<Rightarrow> 'c \<Rightarrow> go_err option \<times> 'c) \<Rightarrow> ('t \<Rightarrow> 'c \<Rightarrow> go_err option \<times> 'c) \<Rightarrow> 't \<Rightarrow> 'c \<Rightarrow> go_err option \<times> 'c" where
  "wsConn_SetDeadline SetReadDeadline SetWriteDeadline t wc =
     (case SetReadDeadline t wc of
        (Some e, wc) \<Rightarrow> (Some e, wc)
      | (None, wc) \<Rightarrow> SetWriteDeadline t wc)"

section \<open>Dialling\<close>

record WSTransport =
  wt_DialTimeout :: nat
  wt_TLSConfig :: "tls_config option"
  wt_Path :: gostring

definition NewWSTransport :: WSTransport where
  "NewWSTransport = \<lparr>wt_DialTimeout = 30, wt_TLSConfig = None, wt_Path = bytes_of ''/''\<rparr>"

text \<open>The URL that \<^verbatim>\<open>Dial\<close> asks for.\<close>

definition ws_url :: "WSTransport \<Rightarrow> gostring \<Rightarrow> gostring" where
  "ws_url w addr =
     (let scheme = (if wt_TLSConfig w \<noteq> None then ''wss'' else ''ws'')
      in bytes_of scheme @ bytes_of ''://'' @ addr @ wt_Path w)"

text \<open>
  The library dials with a timeout, a TLS configuration and a URL, and returns a connection and the two
  addresses it has, if any; a missing one is replaced by an \<^verbatim>\<open>addrWrapper\<close>.
\<close>

definition WS_Dial ::
  "(nat \<Rightarrow> tls_config option \<Rightarrow> gostring \<Rightarrow> (websocket_Conn \<times> net_addr option \<times> net_addr option) res)
     \<Rightarrow> WSTransport \<Rightarrow> gostring \<Rightarrow> wsConn res" where
  "WS_Dial dialer w addr =
     (case dialer (wt_DialTimeout w) (wt_TLSConfig w) (ws_url w addr) of
        Inl e \<Rightarrow> Inl e
      | Inr (c, lc, rc) \<Rightarrow>
          let lc = (case lc of None \<Rightarrow> addrWrapper (bytes_of ''ws-local'') | Some a \<Rightarrow> a);
              rc = (case rc of None \<Rightarrow> addrWrapper addr | Some a \<Rightarrow> a)
          in Inr (wrap_ws c lc rc))"

section \<open>The HTTP server\<close>

text \<open>
  A \<^verbatim>\<open>http.Server\<close>: its TLS configuration (whether it has a certificate), the pattern of its only handler, the
  listeners it serves and whether it has been closed. \<^verbatim>\<open>Serve\<close> closes the listener at once when the server
  has been closed before; the error is \<^verbatim>\<open>http.ErrServerClosed\<close>. \<^verbatim>\<open>ServeTLS\<close> needs a certificate, from the
  configuration or from the two files (\<open>load\<close>); without one it returns before it touches the listener.
  \<^verbatim>\<open>Close\<close> closes the listeners that are served.
\<close>

record http_server =
  srv_TLSConfig :: "bool option"
  srv_pattern :: gostring
  srv_listeners :: "nat list"
  srv_closed :: bool

definition ErrServerClosed :: go_err where
  "ErrServerClosed = NetErr 1"

definition http_Serve :: "nat \<Rightarrow> http_server \<Rightarrow> net \<Rightarrow> go_err option \<times> http_server \<times> net" where
  "http_Serve ln srv n =
     (if srv_closed srv then (Some ErrServerClosed, srv, close_handle ln n)
      else (None, srv\<lparr>srv_listeners := ln # srv_listeners srv\<rparr>, n))"

definition http_ServeTLS ::
  "(gostring \<Rightarrow> gostring \<Rightarrow> go_err option) \<Rightarrow> nat \<Rightarrow> gostring \<Rightarrow> gostring \<Rightarrow> http_server \<Rightarrow> net
     \<Rightarrow> go_err option \<times> http_server \<times> net" where
  "http_ServeTLS load ln certFile keyFile srv n =
     (if srv_TLSConfig srv \<noteq> Some True \<or> certFile \<noteq> [] \<or> keyFile \<noteq> [] then
        case load certFile keyFile of
          Some e \<Rightarrow> (Some e, srv, n)
        | None \<Rightarrow> http_Serve ln srv n
      else http_Serve ln srv n)"

definition http_Close :: "http_server \<Rightarrow> net \<Rightarrow> http_server \<times> net" where
  "http_Close srv n =
     (srv\<lparr>srv_listeners := [], srv_closed := True\<rparr>,
      n\<lparr>n_open := filter (\<lambda>h. h \<notin> set (srv_listeners srv)) (n_open n)\<rparr>)"

section \<open>The listener\<close>

record wsListener =
  wl_tcpLn :: nat
  wl_server :: http_server
  wl_path :: gostring
  wl_connCh :: "wsConn list"
  wl_closed :: bool
  wl_dropped :: "wsConn list"

text \<open>
  \<^verbatim>\<open>HandleFunc\<close> panics when the path is not a valid pattern (\<open>valid\<close>), with the TCP listener already open.
  The goroutine that serves is a step of its own (\<open>ws_serve\<close>); the server gets no TLS configuration.
\<close>

definition WS_Listen ::
  "(gostring \<Rightarrow> bool) \<Rightarrow> (gostring \<Rightarrow> go_err option) \<Rightarrow> WSTransport \<Rightarrow> gostring \<Rightarrow> net \<Rightarrow> wsListener res \<times> net" where
  "WS_Listen valid outcome w addr n =
     (case open_handle (outcome addr) n of
        (Inl e, n) \<Rightarrow> (Inl e, n)
      | (Inr ln, n) \<Rightarrow>
          if \<not> valid (wt_Path w) then (Inl Panic, n)
          else (Inr \<lparr>wl_tcpLn = ln,
              wl_server = \<lparr>srv_TLSConfig = None, srv_pattern = wt_Path w, srv_listeners = [], srv_closed = False\<rparr>,
              wl_path = wt_Path w, wl_connCh = [], wl_closed = False, wl_dropped = []\<rparr>, n))"

text \<open>The goroutine: the error with which it ends at once is ignored.\<close>

definition ws_serve ::
  "(gostring \<Rightarrow> gostring \<Rightarrow> go_err option) \<Rightarrow> WSTransport \<Rightarrow> wsListener \<Rightarrow> net \<Rightarrow> go_err option \<times> wsListener \<times> net" where
  "ws_serve load w wl n =
     (case (if wt_TLSConfig w \<noteq> None then http_ServeTLS load (wl_tcpLn wl) [] [] (wl_server wl) n
            else http_Serve (wl_tcpLn wl) (wl_server wl) n) of
        (e, srv, n) \<Rightarrow> (e, wl\<lparr>wl_server := srv\<rparr>, n))"

text \<open>
  \<^verbatim>\<open>serveWS\<close> and \<^verbatim>\<open>Accept\<close> end in a \<^verbatim>\<open>select\<close>: a random case among those that are ready, here the send or
  the receive if \<open>pick\<close>, and blocking (\<open>None\<close>) if none is. A connection that \<^verbatim>\<open>serveWS\<close> closes is dropped.
\<close>

definition serveWS :: "bool \<Rightarrow> (websocket_Conn \<times> net_addr \<times> net_addr) res \<Rightarrow> wsListener \<Rightarrow> wsListener option" where
  "serveWS pick upgrade wl =
     (case upgrade of
        Inl e \<Rightarrow> Some wl
      | Inr (c, l, r) \<Rightarrow>
          let send = length (wl_connCh wl) < 64 in
          if send \<and> (pick \<or> \<not> wl_closed wl) then Some (wl\<lparr>wl_connCh := wl_connCh wl @ [wrap_ws c l r]\<rparr>)
          else if wl_closed wl then Some (wl\<lparr>wl_dropped := wl_dropped wl @ [wrap_ws c l r]\<rparr>)
          else None)"

text \<open>
  The server hands a request on a listener it serves to the handler if the pattern matches its path
  (\<open>matches\<close>); the request is in flight until the handler returns.
\<close>

definition http_dispatch :: "(gostring \<Rightarrow> gostring \<Rightarrow> bool) \<Rightarrow> gostring \<Rightarrow> wsListener \<Rightarrow> bool" where
  "http_dispatch matches path wl \<longleftrightarrow>
     wl_tcpLn wl \<in> set (srv_listeners (wl_server wl)) \<and> matches (srv_pattern (wl_server wl)) path"

definition wsListener_Accept :: "bool \<Rightarrow> wsListener \<Rightarrow> (wsConn res \<times> wsListener) option" where
  "wsListener_Accept pick wl =
     (case wl_connCh wl of
        c # cs \<Rightarrow> if pick \<or> \<not> wl_closed wl then Some (Inr c, wl\<lparr>wl_connCh := cs\<rparr>) else Some (Inl ErrClosed, wl)
      | [] \<Rightarrow> if wl_closed wl then Some (Inl ErrClosed, wl) else None)"

definition wsListener_Close :: "wsListener \<Rightarrow> net \<Rightarrow> unit res \<times> wsListener \<times> net" where
  "wsListener_Close wl n =
     (if wl_closed wl then (Inl Panic, wl, n)
      else case http_Close (wl_server wl) n of
        (srv, n) \<Rightarrow> (Inr (), wl\<lparr>wl_closed := True, wl_server := srv\<rparr>, n))"

definition wsListener_Addr :: "(nat \<Rightarrow> net_addr) \<Rightarrow> wsListener \<Rightarrow> net_addr" where
  "wsListener_Addr ln_Addr wl = ln_Addr (wl_tcpLn wl)"

section \<open>Runs\<close>

text \<open>
  The listener in use, in any order of events: the goroutine starts to serve, requests arrive and their
  handlers finish, \<^verbatim>\<open>Accept\<close> and \<^verbatim>\<open>Close\<close> are called. \<open>sys_ins\<close> and \<open>sys_outs\<close> are the connections taken in
  and handed out so far.
\<close>

record ws_sys =
  sys_wl :: wsListener
  sys_net :: net
  sys_started :: bool
  sys_inflight :: nat
  sys_ins :: "wsConn list"
  sys_outs :: "wsConn list"

definition ws_start :: "wsListener \<Rightarrow> net \<Rightarrow> ws_sys" where
  "ws_start wl n =
     \<lparr>sys_wl = wl, sys_net = n, sys_started = False, sys_inflight = 0, sys_ins = [], sys_outs = []\<rparr>"

text \<open>The connections that went from one state of the listener to the next.\<close>

definition taken_in :: "wsListener \<Rightarrow> wsListener \<Rightarrow> wsConn list" where
  "taken_in wl wl' = drop (length (wl_connCh wl)) (wl_connCh wl')"

inductive ws_step ::
  "(gostring \<Rightarrow> gostring \<Rightarrow> go_err option) \<Rightarrow> (gostring \<Rightarrow> gostring \<Rightarrow> bool) \<Rightarrow> WSTransport \<Rightarrow> ws_sys \<Rightarrow> ws_sys \<Rightarrow> bool"
  for load matches w where
  serve: "\<not> sys_started S \<Longrightarrow> ws_serve load w (sys_wl S) (sys_net S) = (e, wl', n') \<Longrightarrow>
    ws_step load matches w S (S\<lparr>sys_wl := wl', sys_net := n', sys_started := True\<rparr>)"
| request: "http_dispatch matches path (sys_wl S) \<Longrightarrow>
    ws_step load matches w S (S\<lparr>sys_inflight := sys_inflight S + 1\<rparr>)"
| handler: "0 < sys_inflight S \<Longrightarrow> serveWS pick upgrade (sys_wl S) = Some wl' \<Longrightarrow>
    ws_step load matches w S (S\<lparr>sys_wl := wl', sys_inflight := sys_inflight S - 1,
      sys_ins := sys_ins S @ taken_in (sys_wl S) wl'\<rparr>)"
| accept: "wsListener_Accept pick (sys_wl S) = Some (r, wl') \<Longrightarrow>
    ws_step load matches w S (S\<lparr>sys_wl := wl', sys_outs := sys_outs S @ (case r of Inl e \<Rightarrow> [] | Inr c \<Rightarrow> [c])\<rparr>)"
| shut: "wsListener_Close (sys_wl S) (sys_net S) = (r, wl', n') \<Longrightarrow>
    ws_step load matches w S (S\<lparr>sys_wl := wl', sys_net := n'\<rparr>)"

text \<open>What each operation does to the queue, and to the server and the network.\<close>

definition ws_queue_ok :: "ws_sys \<Rightarrow> bool" where
  "ws_queue_ok S \<longleftrightarrow>
     sys_ins S = sys_outs S @ wl_connCh (sys_wl S) \<and> length (wl_connCh (sys_wl S)) \<le> 64"

lemma ws_serve_queue: "ws_serve load w wl n = (e, wl', n') \<Longrightarrow> wl_connCh wl' = wl_connCh wl"
  by (auto simp: ws_serve_def split: prod.splits)

lemma serveWS_effect:
  "serveWS pick upgrade wl = Some wl' \<Longrightarrow>
     wl_connCh wl' = wl_connCh wl @ taken_in wl wl' \<and> (length (wl_connCh wl) \<le> 64 \<longrightarrow> length (wl_connCh wl @ taken_in wl wl') \<le> 64) \<and>
     wl_server wl' = wl_server wl \<and> wl_tcpLn wl' = wl_tcpLn wl \<and> wl_closed wl' = wl_closed wl"
  by (auto simp: serveWS_def taken_in_def Let_def split: sum.splits prod.splits if_splits)

lemma wsListener_Accept_effect:
  "wsListener_Accept pick wl = Some (r, wl') \<Longrightarrow>
     wl_connCh wl = (case r of Inl e \<Rightarrow> [] | Inr c \<Rightarrow> [c]) @ wl_connCh wl' \<and>
     wl_server wl' = wl_server wl \<and> wl_tcpLn wl' = wl_tcpLn wl \<and> wl_closed wl' = wl_closed wl"
  by (auto simp: wsListener_Accept_def split: list.splits if_splits)

lemma wsListener_Close_queue: "wsListener_Close wl n = (r, wl', n') \<Longrightarrow> wl_connCh wl' = wl_connCh wl"
  by (auto simp: wsListener_Close_def split: if_splits prod.splits)

lemma ws_queue_step: "ws_step load matches w S S' \<Longrightarrow> ws_queue_ok S \<Longrightarrow> ws_queue_ok S'"
proof (induction rule: ws_step.induct)
  case (handler S pick upgrade wl')
  with serveWS_effect [OF handler(2)] show ?case by (simp add: ws_queue_ok_def)
next
  case (accept pick S r wl')
  from wsListener_Accept_effect [OF accept(1)] accept(2) show ?case by (simp add: ws_queue_ok_def)
qed (simp_all add: ws_queue_ok_def ws_serve_queue wsListener_Close_queue)

text \<open>
  Without TLS, \<open>base\<close> being what was open before \<^verbatim>\<open>Listen\<close>: the TCP listener is open until the server has been
  both started and closed.
\<close>

definition ws_plain_ok :: "nat \<Rightarrow> nat list \<Rightarrow> ws_sys \<Rightarrow> bool" where
  "ws_plain_ok ln base S \<longleftrightarrow>
     wl_tcpLn (sys_wl S) = ln \<and> srv_closed (wl_server (sys_wl S)) = wl_closed (sys_wl S) \<and>
     srv_listeners (wl_server (sys_wl S)) = (if sys_started S \<and> \<not> wl_closed (sys_wl S) then [ln] else []) \<and>
     n_open (sys_net S) = (if sys_started S \<and> wl_closed (sys_wl S) then base else ln # base)"

lemma ws_plain_step:
  assumes "ws_step load matches w S S'" and "wt_TLSConfig w = None" and "ln \<notin> set base" and "ws_plain_ok ln base S"
  shows "ws_plain_ok ln base S'"
  using assms
proof (induction rule: ws_step.induct)
  case (serve S e wl' n')
  have "filter (\<lambda>x. x \<noteq> ln) base = base" using serve(4) by (intro filter_True) auto
  with serve show ?case
    by (auto simp: ws_plain_ok_def ws_serve_def http_Serve_def close_handle_def split: if_splits)
next
  case (request path S)
  then show ?case by (simp add: ws_plain_ok_def)
next
  case (handler S pick upgrade wl')
  with serveWS_effect [OF handler(2)] show ?case by (simp add: ws_plain_ok_def)
next
  case (accept pick S r wl')
  with wsListener_Accept_effect [OF accept(1)] show ?case by (simp add: ws_plain_ok_def)
next
  case (shut S r wl' n')
  have "filter (\<lambda>x. x \<noteq> ln) base = base" using shut(3) by (intro filter_True) auto
  with shut show ?case
    by (auto simp: ws_plain_ok_def wsListener_Close_def http_Close_def split: if_splits)
qed

text \<open>With TLS and no certificate files: the server serves nothing, and nothing closes the TCP listener.\<close>

definition ws_dead :: "nat \<Rightarrow> ws_sys \<Rightarrow> bool" where
  "ws_dead ln S \<longleftrightarrow>
     srv_TLSConfig (wl_server (sys_wl S)) = None \<and> srv_listeners (wl_server (sys_wl S)) = [] \<and>
     sys_inflight S = 0 \<and> wl_connCh (sys_wl S) = [] \<and> sys_outs S = [] \<and> ln \<in> set (n_open (sys_net S))"

lemma ws_dead_step:
  assumes "ws_step load matches w S S'" and "wt_TLSConfig w \<noteq> None" and "load [] [] = Some e" and "ws_dead ln S"
  shows "ws_dead ln S'"
  using assms
proof (induction rule: ws_step.induct)
  case (serve S e' wl' n')
  then show ?case by (auto simp: ws_dead_def ws_serve_def http_ServeTLS_def)
next
  case (request path S)
  then show ?case by (simp add: ws_dead_def http_dispatch_def)
next
  case (accept pick S r wl')
  with wsListener_Accept_effect [OF accept(1)] show ?case by (auto simp: ws_dead_def split: sum.splits)
next
  case (shut S r wl' n')
  then show ?case by (auto simp: ws_dead_def wsListener_Close_def http_Close_def split: if_splits)
qed (simp add: ws_dead_def)

interpretation ws_queue: step_invariant "ws_step load matches w" ws_queue_ok ws_queue_ok for load matches w
  by unfold_locales (auto intro: ws_queue_step)

interpretation ws_plain: step_invariant "ws_step load matches w" "ws_plain_ok ln base"
    "\<lambda>S. wt_TLSConfig w = None \<longrightarrow> ln \<notin> set base \<longrightarrow> ws_plain_ok ln base S" for load matches w ln base
  by unfold_locales (auto intro: ws_plain_step)

interpretation ws_tls: step_invariant "ws_step load matches w" "ws_dead ln"
    "\<lambda>S. wt_TLSConfig w \<noteq> None \<longrightarrow> load [] [] \<noteq> None \<longrightarrow> ws_dead ln S" for load matches w ln
  by unfold_locales (auto intro: ws_dead_step)

lemma WS_Listen_started:
  assumes "WS_Listen valid outcome w addr n = (Inr wl, n')"
  shows "ws_queue_ok (ws_start wl n')" and "ws_plain_ok (n_next n) (n_open n) (ws_start wl n')"
    and "ws_dead (n_next n) (ws_start wl n')"
  using assms
  by (auto simp: WS_Listen_def open_handle_def ws_start_def ws_queue_ok_def ws_plain_ok_def ws_dead_def
      split: option.splits if_splits)

section \<open>Properties\<close>


definition demo_ws :: websocket_Conn where
  "demo_ws = \<lparr>ws_in = [], ws_fin = EOF, ws_out = [], ws_fail = None\<rparr>"

definition demo_conn :: wsConn where
  "demo_conn = wrap_ws demo_ws (addrWrapper []) (addrWrapper [1])"

text \<open>A listener without TLS: it serves, takes a request in, hands the connection out and is closed.\<close>

lemma ws_demo_run:
  obtains wl n' S where "WS_Listen (\<lambda>_. True) (\<lambda>_. None) NewWSTransport [] \<lparr>n_open = [], n_next = 0\<rparr> = (Inr wl, n')"
    "reaches (ws_step (\<lambda>_ _. None) (\<lambda>_ _. True) NewWSTransport) (ws_start wl n') S"
    "sys_ins S = [demo_conn]" "sys_outs S = [demo_conn]" "sys_started S" "wl_closed (sys_wl S)"
proof -
  let ?srv = "\<lambda>ls c. \<lparr>srv_TLSConfig = None, srv_pattern = bytes_of ''/'', srv_listeners = ls, srv_closed = c\<rparr>"
  let ?wl = "\<lambda>ls c q. \<lparr>wl_tcpLn = 0, wl_server = ?srv ls c, wl_path = bytes_of ''/'', wl_connCh = q, wl_closed = c, wl_dropped = []\<rparr>"
  let ?n = "\<lparr>n_open = [0], n_next = 1\<rparr>" and ?step = "ws_step (\<lambda>_ _. None) (\<lambda>_ _. True) NewWSTransport"
  let ?S = "\<lambda>ls c q n b k i out. \<lparr>sys_wl = ?wl ls c q, sys_net = n, sys_started = b, sys_inflight = k, sys_ins = i, sys_outs = out\<rparr>"
  have 0: "WS_Listen (\<lambda>_. True) (\<lambda>_. None) NewWSTransport [] \<lparr>n_open = [], n_next = 0\<rparr> = (Inr (?wl [] False []), ?n)"
    by (simp add: WS_Listen_def open_handle_def NewWSTransport_def)
  have 1: "?step (ws_start (?wl [] False []) ?n) (?S [0] False [] ?n True 0 [] [])"
    using ws_step.serve [where load = "\<lambda>_ _. None" and matches = "\<lambda>_ _. True" and w = NewWSTransport and S = "ws_start (?wl [] False []) ?n"]
    by (simp add: ws_start_def ws_serve_def http_Serve_def NewWSTransport_def)
  have 2: "?step (?S [0] False [] ?n True 0 [] []) (?S [0] False [] ?n True 1 [] [])"
    using ws_step.request [where load = "\<lambda>_ _. None" and matches = "\<lambda>_ _. True" and w = NewWSTransport and S = "?S [0] False [] ?n True 0 [] []"] by (simp add: http_dispatch_def)
  have 3: "?step (?S [0] False [] ?n True 1 [] []) (?S [0] False [demo_conn] ?n True 0 [demo_conn] [])"
    using ws_step.handler [where load = "\<lambda>_ _. None" and matches = "\<lambda>_ _. True" and w = NewWSTransport and S = "?S [0] False [] ?n True 1 [] []"
        and pick = True and upgrade = "Inr (demo_ws, addrWrapper [], addrWrapper [1])" and wl' = "?wl [0] False [demo_conn]"]
    by (simp add: serveWS_def taken_in_def demo_conn_def)
  have 4: "?step (?S [0] False [demo_conn] ?n True 0 [demo_conn] []) (?S [0] False [] ?n True 0 [demo_conn] [demo_conn])"
    using ws_step.accept [where load = "\<lambda>_ _. None" and matches = "\<lambda>_ _. True" and w = NewWSTransport and S = "?S [0] False [demo_conn] ?n True 0 [demo_conn] []"
        and pick = True and r = "Inr demo_conn" and wl' = "?wl [0] False []"] by (simp add: wsListener_Accept_def)
  have 5: "?step (?S [0] False [] ?n True 0 [demo_conn] [demo_conn])
      (?S [] True [] (?n\<lparr>n_open := []\<rparr>) True 0 [demo_conn] [demo_conn])"
    using ws_step.shut [where load = "\<lambda>_ _. None" and matches = "\<lambda>_ _. True" and w = NewWSTransport and S = "?S [0] False [] ?n True 0 [demo_conn] [demo_conn]"]
    by (simp add: wsListener_Close_def http_Close_def)
  note go = reaches_step [where step = ?step]
  from 0 go [OF go [OF go [OF go [OF go [OF reaches_refl 1] 2] 3] 4] 5] show thesis by (rule that) simp_all
qed




text \<open>A WebSocket listener with a TLS configuration never hands out a connection, and the port it listens on is
  not released by \<^verbatim>\<open>Close\<close>: the HTTP server has no certificate, and no file has the empty name.\<close>

theorem WS_tls_never_serves:
  assumes "WS_Listen valid outcome w addr n = (Inr wl, n')" and "wt_TLSConfig w \<noteq> None" and "load [] [] \<noteq> None"
    and "reaches (ws_step load matches w) (ws_start wl n') S"
  shows "sys_outs S = [] \<and> \<not> http_dispatch matches path (sys_wl S) \<and>
    (\<forall>c wl'. wsListener_Accept pick (sys_wl S) \<noteq> Some (Inr c, wl')) \<and> wl_tcpLn wl \<in> set (n_open (sys_net S))"
proof -
  have "wl_tcpLn wl = n_next n"
    using assms(1) by (auto simp: WS_Listen_def open_handle_def split: option.splits if_splits)
  moreover have "ws_dead (n_next n) S"
    using ws_tls.inv_reaches [OF assms(4) WS_Listen_started(3) [OF assms(1)]] assms(2,3) by simp
  ultimately show ?thesis by (auto simp: ws_dead_def http_dispatch_def wsListener_Accept_def)
qed

theorem WS_tls_never_serves_witness:
  "\<exists>wl (n' :: net). \<not> http_dispatch (\<lambda>_ _. True) (bytes_of ''/'') wl \<and> wl_tcpLn wl \<in> set (n_open n')"
proof -
  let ?w = "NewWSTransport\<lparr>wt_TLSConfig := Some \<lparr>tc_InsecureSkipVerify = False, tc_NextProtos = []\<rparr>\<rparr>"
  let ?n = "\<lparr>n_open = [], n_next = 0\<rparr>"
  obtain wl n' where 1: "WS_Listen (\<lambda>_. True) (\<lambda>_. None) ?w [] ?n = (Inr wl, n')"
    by (simp add: WS_Listen_def open_handle_def NewWSTransport_def)
  from WS_tls_never_serves [OF 1 _ _ reaches_refl, of "\<lambda>_ _. Some EOF" "\<lambda>_ _. True" "bytes_of ''/''" True]
  have "\<not> http_dispatch (\<lambda>_ _. True) (bytes_of ''/'') wl \<and> wl_tcpLn wl \<in> set (n_open n')"
    by (simp add: ws_start_def)
  then show ?thesis by blast
qed

text \<open>A path that is no valid pattern makes \<^verbatim>\<open>Listen\<close> panic with the TCP listener open: nothing refers to it any
  more.\<close>

theorem WS_Listen_panic_leaks:
  assumes "\<not> valid (wt_Path w)" and "outcome addr = None"
  shows "WS_Listen valid outcome w addr n =
    (Inl Panic, n\<lparr>n_open := n_next n # n_open n, n_next := n_next n + 1\<rparr>)"
  using assms by (simp add: WS_Listen_def open_handle_def)

text \<open>A connection that \<^verbatim>\<open>Dial\<close> returns has addresses: those of the library, or the placeholder and the address
  that was dialled, on the network \<^verbatim>\<open>ws\<close>.\<close>

theorem WS_Dial_addrs:
  assumes "dialer (wt_DialTimeout w) (wt_TLSConfig w) (ws_url w addr) = Inr (c, lc, rc)"
  shows "\<exists>wc. WS_Dial dialer w addr = Inr wc \<and>
    (lc = None \<longrightarrow> addr_Network (wsConn_LocalAddr wc) = bytes_of ''ws'' \<and> addr_String (wsConn_LocalAddr wc) = bytes_of ''ws-local'') \<and>
    (rc = None \<longrightarrow> addr_Network (wsConn_RemoteAddr wc) = bytes_of ''ws'' \<and> addr_String (wsConn_RemoteAddr wc) = addr) \<and>
    (\<forall>a. lc = Some a \<longrightarrow> wsConn_LocalAddr wc = a) \<and> (\<forall>a. rc = Some a \<longrightarrow> wsConn_RemoteAddr wc = a)"
  using assms
  by (auto simp: WS_Dial_def wrap_ws_def wsConn_LocalAddr_def wsConn_RemoteAddr_def split: option.splits)

text \<open>A packet cannot be read from a WebSocket connection: the frame arrives as one message, the packet
  reader asks for its first byte alone, and \<^verbatim>\<open>Read\<close> drops the rest of the message with it; the next read
  begins with the next message.\<close>

theorem wsConn_loses_frame:
  assumes "wsConn_Write (b # bs) w = ((n, None), w')" and "ws_in r = drop (length (ws_out w)) (ws_out w') @ ms"
  shows "io_ReadFull wsConn_Read 1 r = Some (Inr [b], r\<lparr>ws_in := ms\<rparr>)"
proof -
  have "ws_in r = (b # bs) # ms" using assms by (auto simp: wsConn_Write_def split: option.splits)
  then show ?thesis
    unfolding io_ReadFull_def by (subst ReadAtLeast_loop.simps) (simp add: wsConn_Read_def ReadAtLeast_loop.simps)
qed

theorem wsConn_loses_frame_witness:
  "io_ReadFull wsConn_Read 1 \<lparr>ws_in = [[3, 7, 10, 5]], ws_fin = EOF, ws_out = [], ws_fail = None, ws_raddr = addrWrapper [], ws_laddr = addrWrapper []\<rparr> =
     Some (Inr [3], \<lparr>ws_in = [], ws_fin = EOF, ws_out = [], ws_fail = None, ws_raddr = addrWrapper [], ws_laddr = addrWrapper []\<rparr>)"
  using wsConn_loses_frame [of 3 "[7, 10, 5]" "\<lparr>ws_in = [], ws_fin = EOF, ws_out = [], ws_fail = None, ws_raddr = addrWrapper [], ws_laddr = addrWrapper []\<rparr>" 4
      "\<lparr>ws_in = [], ws_fin = EOF, ws_out = [[3, 7, 10, 5]], ws_fail = None, ws_raddr = addrWrapper [], ws_laddr = addrWrapper []\<rparr>"
      "\<lparr>ws_in = [[3, 7, 10, 5]], ws_fin = EOF, ws_out = [], ws_fail = None, ws_raddr = addrWrapper [], ws_laddr = addrWrapper []\<rparr>" "[]"]
  by (simp add: wsConn_Write_def)

end
