(* ===== verification/Protocol.thy ===== *)
theory Protocol
  imports Handshake
begin

text \<open>
  \<^verbatim>\<open>protocol/state.go\<close> and \<^verbatim>\<open>protocol/direction.go\<close>: the protocol states and the packet directions with their
  names. Both are \<^verbatim>\<open>int\<close>s in the source, so any value may occur.
\<close>

section \<open>Model\<close>

definition protocol_StateHandshake :: int where "protocol_StateHandshake = -1"
definition protocol_StateStatus :: int where "protocol_StateStatus = 1"
definition protocol_StateLogin :: int where "protocol_StateLogin = 2"
definition protocol_StatePlay :: int where "protocol_StatePlay = 3"
definition protocol_StateConfiguration :: int where "protocol_StateConfiguration = 4"

lemmas state_consts = protocol_StateHandshake_def protocol_StateStatus_def protocol_StateLogin_def
  protocol_StatePlay_def protocol_StateConfiguration_def

definition State_String :: "int \<Rightarrow> string" where
  "State_String s =
     (if s = protocol_StateHandshake then ''handshake'' else if s = protocol_StateStatus then ''status''
      else if s = protocol_StateLogin then ''login'' else if s = protocol_StatePlay then ''play''
      else if s = protocol_StateConfiguration then ''configuration'' else ''unknown'')"

definition Serverbound :: int where "Serverbound = 0"
definition Clientbound :: int where "Clientbound = 1"

definition Direction_String :: "int \<Rightarrow> string" where
  "Direction_String d =
     (if d = Serverbound then ''serverbound'' else if d = Clientbound then ''clientbound'' else ''unknown'')"

section \<open>Properties\<close>

text \<open>The names tell the states and the directions apart; every other number is unknown.\<close>

lemma State_String_inj:
  "State_String s = State_String t \<longleftrightarrow> s = t \<or> s \<notin> {-1, 1, 2, 3, 4} \<and> t \<notin> {-1, 1, 2, 3, 4}"
  by (auto simp: State_String_def state_consts)

lemma Direction_String_inj:
  "Direction_String d = Direction_String e \<longleftrightarrow> d = e \<or> d \<notin> {0, 1} \<and> e \<notin> {0, 1}"
  by (auto simp: Direction_String_def Serverbound_def Clientbound_def)

text \<open>
  The numbers of the handshake's next state are those of the protocol states for status and login; the
  third one, a transfer, has the number of the play state.
\<close>

lemma next_state_numbers:
  "sint StateStatus = protocol_StateStatus \<and> sint StateLogin = protocol_StateLogin \<and>
   State_String (sint StateTransfer) = ''play''"
  by (simp add: StateStatus_def StateLogin_def StateTransfer_def state_consts State_String_def)

end
