(* ===== verification/Classfile.thy ===== *)
theory Classfile
  imports Go_IO
begin

text \<open>
  \<^verbatim>\<open>tools/mcproto/classfile.go\<close>: the parser for Java class files. Reads outside the data panic, except that
  a slice of it may reach into its spare capacity; both are modelled. \<open>class_bytes\<close> lays a class file out as
  the JVM specification does; the main theorem is that the parser returns its contents.
\<close>

unbundle bit_operations_syntax

section \<open>Model\<close>

definition constantUtf8 :: byte where "constantUtf8 = 1"
definition constantInteger :: byte where "constantInteger = 3"
definition constantFloat :: byte where "constantFloat = 4"
definition constantLong :: byte where "constantLong = 5"
definition constantDouble :: byte where "constantDouble = 6"
definition constantClass :: byte where "constantClass = 7"
definition constantString :: byte where "constantString = 8"
definition constantFieldref :: byte where "constantFieldref = 9"
definition constantMethodref :: byte where "constantMethodref = 10"
definition constantIMethodref :: byte where "constantIMethodref = 11"
definition constantNameAndType :: byte where "constantNameAndType = 12"
definition constantMethodHandle :: byte where "constantMethodHandle = 15"
definition constantMethodType :: byte where "constantMethodType = 16"
definition constantInvokeDynamic :: byte where "constantInvokeDynamic = 18"

lemmas cp_consts = constantUtf8_def constantInteger_def constantFloat_def constantLong_def constantDouble_def
  constantClass_def constantString_def constantFieldref_def constantMethodref_def constantIMethodref_def
  constantNameAndType_def constantMethodHandle_def constantMethodType_def constantInvokeDynamic_def

text \<open>The field \<^verbatim>\<open>parsed\<close> is an interface: nothing, a string or an \<^verbatim>\<open>int32\<close>.\<close>

datatype parsed = PNil | PString gostring | PInt i32

record cpEntry =
  ce_tag :: byte
  ce_info :: "byte list"
  ce_parsed :: parsed

definition zero_entry :: cpEntry where
  "zero_entry = \<lparr>ce_tag = 0, ce_info = [], ce_parsed = PNil\<rparr>"

text \<open>\<^verbatim>\<open>fieldInfo\<close> and \<^verbatim>\<open>methodInfo\<close> have the same fields.\<close>

record memberInfo =
  mi_accessFlags :: u16
  mi_nameIdx :: u16
  mi_descIdx :: u16

record javaClass =
  jc_minorVersion :: u16
  jc_majorVersion :: u16
  jc_constantPool :: "cpEntry list"
  jc_thisClass :: u16
  jc_superClass :: u16
  jc_interfaces :: "u16 list"
  jc_fields :: "memberInfo list"
  jc_methods :: "memberInfo list"

text \<open>The errors of \<^verbatim>\<open>parseClass\<close>, and the panic of a read outside the data.\<close>

datatype class_err = BadMagic "32 word" | UnknownTag byte nat | ClassPanic

type_synonym 'a cres = "class_err + 'a"

subsection \<open>The reader\<close>

text \<open>
  The data is a slice: indexing and \<^verbatim>\<open>r.data[r.off:]\<close> stop at its length, but \<^verbatim>\<open>r.data[r.off:r.off+n]\<close> may
  reach up to its capacity. \<open>cr_spare\<close> are the bytes between the two.
\<close>

record classReader =
  cr_data :: "byte list"
  cr_spare :: "byte list"
  cr_off :: nat

definition cr_u1 :: "classReader \<Rightarrow> (byte \<times> classReader) cres" where
  "cr_u1 r =
     (if cr_off r < length (cr_data r) then Inr (cr_data r ! cr_off r, r\<lparr>cr_off := cr_off r + 1\<rparr>)
      else Inl ClassPanic)"

definition cr_u2 :: "classReader \<Rightarrow> (u16 \<times> classReader) cres" where
  "cr_u2 r =
     (if cr_off r + 2 \<le> length (cr_data r)
      then Inr (be_get (take 2 (drop (cr_off r) (cr_data r))), r\<lparr>cr_off := cr_off r + 2\<rparr>)
      else Inl ClassPanic)"

definition cr_u4 :: "classReader \<Rightarrow> (32 word \<times> classReader) cres" where
  "cr_u4 r =
     (if cr_off r + 4 \<le> length (cr_data r)
      then Inr (be_get (take 4 (drop (cr_off r) (cr_data r))), r\<lparr>cr_off := cr_off r + 4\<rparr>)
      else Inl ClassPanic)"

definition cr_bytes :: "nat \<Rightarrow> classReader \<Rightarrow> (byte list \<times> classReader) cres" where
  "cr_bytes n r =
     (if cr_off r + n \<le> length (cr_data r) + length (cr_spare r)
      then Inr (take n (drop (cr_off r) (cr_data r @ cr_spare r)), r\<lparr>cr_off := cr_off r + n\<rparr>)
      else Inl ClassPanic)"

text \<open>Sequencing of reads: the first failure ends the whole.\<close>

definition cbind :: "('a \<times> classReader) cres \<Rightarrow> ('a \<Rightarrow> classReader \<Rightarrow> 'b cres) \<Rightarrow> 'b cres" where
  "cbind x f = (case x of Inl e \<Rightarrow> Inl e | Inr (a, r) \<Rightarrow> f a r)"

lemma cbind_cong [fundef_cong]:
  "x = y \<Longrightarrow> (\<And>a r. y = Inr (a, r) \<Longrightarrow> f a r = g a r) \<Longrightarrow> cbind x f = cbind y g"
  by (auto simp: cbind_def split: sum.splits)

subsection \<open>The parser\<close>

text \<open>The \<^verbatim>\<open>switch\<close> of the constant-pool loop: the entry, and by how much the index moves on inside it.\<close>

definition parse_entry :: "byte \<Rightarrow> classReader \<Rightarrow> ((cpEntry \<times> nat) \<times> classReader) cres" where
  "parse_entry tag r =
     (if tag = constantUtf8 then
        cbind (cr_u2 r) (\<lambda>len r. cbind (cr_bytes (unat len) r) (\<lambda>info r.
          Inr ((\<lparr>ce_tag = tag, ce_info = info, ce_parsed = PString info\<rparr>, 0), r)))
      else if tag \<in> {constantInteger, constantFloat} then
        cbind (cr_bytes 4 r) (\<lambda>info r.
          Inr ((\<lparr>ce_tag = tag, ce_info = info,
                 ce_parsed = (if tag = constantInteger then PInt (be_get info) else PNil)\<rparr>, 0), r))
      else if tag \<in> {constantLong, constantDouble} then
        cbind (cr_bytes 8 r) (\<lambda>info r. Inr ((\<lparr>ce_tag = tag, ce_info = info, ce_parsed = PNil\<rparr>, 1), r))
      else if tag \<in> {constantClass, constantString, constantMethodType} then
        cbind (cr_bytes 2 r) (\<lambda>info r. Inr ((\<lparr>ce_tag = tag, ce_info = info, ce_parsed = PNil\<rparr>, 0), r))
      else if tag \<in> {constantFieldref, constantMethodref, constantIMethodref, constantNameAndType,
                     constantMethodHandle, constantInvokeDynamic} then
        cbind (cr_bytes (if tag = constantMethodHandle then 3 else 4) r) (\<lambda>info r.
          Inr ((\<lparr>ce_tag = tag, ce_info = info, ce_parsed = PNil\<rparr>, 0), r))
      else Inl (UnknownTag tag (cr_off r - 1)))"

text \<open>The loop from index \<open>i\<close>; storing outside the pool panics.\<close>

function parse_pool :: "nat \<Rightarrow> cpEntry list \<Rightarrow> classReader \<Rightarrow> (cpEntry list \<times> classReader) cres" where
  "parse_pool i pool r =
     (if i < length pool then
        cbind (cr_u1 r) (\<lambda>tag r. cbind (parse_entry tag r) (\<lambda>(entry, skip) r.
          let i = i + skip in
          if i < length pool then parse_pool (i + 1) (pool[i := entry]) r else Inl ClassPanic))
      else Inr (pool, r))"
  by pat_completeness auto
termination
  by (relation "measure (\<lambda>(i, pool, r). length pool - i)") auto

declare parse_pool.simps [simp del]

fun parse_u2s :: "nat \<Rightarrow> classReader \<Rightarrow> (u16 list \<times> classReader) cres" where
  "parse_u2s 0 r = Inr ([], r)"
| "parse_u2s (Suc n) r = cbind (cr_u2 r) (\<lambda>x r. cbind (parse_u2s n r) (\<lambda>xs r. Inr (x # xs, r)))"

text \<open>Skipping the attributes of a field or a method.\<close>

fun skip_attrs :: "nat \<Rightarrow> classReader \<Rightarrow> (unit \<times> classReader) cres" where
  "skip_attrs 0 r = Inr ((), r)"
| "skip_attrs (Suc n) r =
     cbind (cr_u2 r) (\<lambda>_ r. cbind (cr_u4 r) (\<lambda>len r. cbind (cr_bytes (unat len) r) (\<lambda>_ r. skip_attrs n r)))"

fun parse_members :: "nat \<Rightarrow> classReader \<Rightarrow> (memberInfo list \<times> classReader) cres" where
  "parse_members 0 r = Inr ([], r)"
| "parse_members (Suc n) r =
     cbind (cr_u2 r) (\<lambda>fl r. cbind (cr_u2 r) (\<lambda>nm r. cbind (cr_u2 r) (\<lambda>ds r.
       cbind (cr_u2 r) (\<lambda>attrCount r. cbind (skip_attrs (unat attrCount) r) (\<lambda>_ r.
         cbind (parse_members n r) (\<lambda>ms r.
           Inr (\<lparr>mi_accessFlags = fl, mi_nameIdx = nm, mi_descIdx = ds\<rparr> # ms, r)))))))"

definition parse_rest :: "u16 \<Rightarrow> u16 \<Rightarrow> cpEntry list \<Rightarrow> classReader \<Rightarrow> javaClass cres" where
  "parse_rest mnr mjr pool r =
     cbind (cr_u2 r) (\<lambda>this r. cbind (cr_u2 r) (\<lambda>super r.
       cbind (cr_u2 r) (\<lambda>intCount r. cbind (parse_u2s (unat intCount) r) (\<lambda>ints r.
         cbind (cr_u2 r) (\<lambda>fieldCount r. cbind (parse_members (unat fieldCount) r) (\<lambda>fields r.
           cbind (cr_u2 r) (\<lambda>methodCount r. cbind (parse_members (unat methodCount) r) (\<lambda>methods r.
             Inr \<lparr>jc_minorVersion = mnr, jc_majorVersion = mjr, jc_constantPool = pool,
                  jc_thisClass = this, jc_superClass = super, jc_interfaces = ints,
                  jc_fields = fields, jc_methods = methods\<rparr>))))))))"

definition parseClass :: "byte list \<Rightarrow> byte list \<Rightarrow> javaClass cres" where
  "parseClass data spare =
     cbind (cr_u4 \<lparr>cr_data = data, cr_spare = spare, cr_off = 0\<rparr>) (\<lambda>magic r.
       if magic \<noteq> 0xCAFEBABE then Inl (BadMagic magic)
       else cbind (cr_u2 r) (\<lambda>mnr r. cbind (cr_u2 r) (\<lambda>mjr r. cbind (cr_u2 r) (\<lambda>cpCount r.
         cbind (parse_pool 1 (replicate (unat cpCount) zero_entry) r) (\<lambda>pool r. parse_rest mnr mjr pool r)))))"

subsection \<open>Lookups\<close>

definition jc_utf8 :: "javaClass \<Rightarrow> u16 \<Rightarrow> gostring cres" where
  "jc_utf8 jc idx =
     (if length (jc_constantPool jc) \<le> unat idx then Inr (bytes_of ''?'')
      else
        let entry = jc_constantPool jc ! unat idx in
        if ce_tag entry \<noteq> constantUtf8 then Inr (bytes_of ''?'')
        else case ce_parsed entry of PString s \<Rightarrow> Inr s | _ \<Rightarrow> Inl ClassPanic)"

definition className :: "javaClass \<Rightarrow> u16 \<Rightarrow> gostring cres" where
  "className jc cpIdx =
     (if length (jc_constantPool jc) \<le> unat cpIdx then Inr (bytes_of ''?'')
      else
        let entry = jc_constantPool jc ! unat cpIdx in
        if ce_tag entry \<noteq> constantClass then Inr (bytes_of ''?'')
        else if length (ce_info entry) < 2 then Inl ClassPanic
        else jc_utf8 jc (be_get (take 2 (ce_info entry))))"

fun integers_of :: "cpEntry list \<Rightarrow> i32 list" where
  "integers_of [] = []"
| "integers_of (e # es) =
     (if ce_tag e = constantInteger then
        (case ce_parsed e of PInt v \<Rightarrow> v # integers_of es | _ \<Rightarrow> integers_of es)
      else integers_of es)"

definition integerConstants :: "javaClass \<Rightarrow> i32 list" where
  "integerConstants jc = integers_of (jc_constantPool jc)"

section \<open>Class files as the JVM specification lays them out\<close>

text \<open>A constant is a tag and its bytes (for a string without the length in front).\<close>

type_synonym cp_item = "byte \<times> byte list"

definition info_len :: "byte \<Rightarrow> nat option" where
  "info_len t =
     (if t \<in> {3, 4} then Some 4 else if t \<in> {5, 6} then Some 8 else if t \<in> {7, 8, 16} then Some 2
      else if t = 15 then Some 3 else if t \<in> {9, 10, 11, 12, 18} then Some 4 else None)"

fun item_ok :: "cp_item \<Rightarrow> bool" where
  "item_ok (t, p) = (if t = 1 then length p < 2 ^ 16 else info_len t = Some (length p))"

fun item_bytes :: "cp_item \<Rightarrow> byte list" where
  "item_bytes (t, p) = t # (if t = 1 then be_put 2 (word_of_nat (length p) :: u16) else []) @ p"

fun item_entry :: "cp_item \<Rightarrow> cpEntry" where
  "item_entry (t, p) =
     \<lparr>ce_tag = t, ce_info = p,
      ce_parsed = (if t = 1 then PString p else if t = 3 then PInt (be_get p) else PNil)\<rparr>"

text \<open>Where the code puts an entry: a long or a double goes into the second of its two slots.\<close>

fun item_slots :: "cp_item \<Rightarrow> cpEntry list" where
  "item_slots (t, p) = (if t \<in> {5, 6} then [zero_entry, item_entry (t, p)] else [item_entry (t, p)])"

definition pool_slots :: "cp_item list \<Rightarrow> cpEntry list" where
  "pool_slots items = concat (map item_slots items)"

type_synonym attr = "u16 \<times> byte list"

definition attr_bytes :: "attr \<Rightarrow> byte list" where
  "attr_bytes a = be_put 2 (fst a) @ be_put 4 (word_of_nat (length (snd a)) :: 32 word) @ snd a"

definition member_bytes :: "memberInfo \<times> attr list \<Rightarrow> byte list" where
  "member_bytes m =
     be_put 2 (mi_accessFlags (fst m)) @ be_put 2 (mi_nameIdx (fst m)) @ be_put 2 (mi_descIdx (fst m)) @
     be_put 2 (word_of_nat (length (snd m)) :: u16) @ concat (map attr_bytes (snd m))"

definition member_ok :: "memberInfo \<times> attr list \<Rightarrow> bool" where
  "member_ok m \<longleftrightarrow> length (snd m) < 2 ^ 16 \<and> list_all (\<lambda>a. length (snd a) < 2 ^ 32) (snd m)"

record class_file =
  cf_minor :: u16
  cf_major :: u16
  cf_items :: "cp_item list"
  cf_this :: u16
  cf_super :: u16
  cf_interfaces :: "u16 list"
  cf_fields :: "(memberInfo \<times> attr list) list"
  cf_methods :: "(memberInfo \<times> attr list) list"

definition class_ok :: "class_file \<Rightarrow> bool" where
  "class_ok c \<longleftrightarrow>
     list_all item_ok (cf_items c) \<and> length (pool_slots (cf_items c)) + 1 < 2 ^ 16 \<and>
     length (cf_interfaces c) < 2 ^ 16 \<and> length (cf_fields c) < 2 ^ 16 \<and> length (cf_methods c) < 2 ^ 16 \<and>
     list_all member_ok (cf_fields c) \<and> list_all member_ok (cf_methods c)"

definition count2 :: "'a list \<Rightarrow> byte list" where
  "count2 xs = be_put 2 (word_of_nat (length xs) :: u16)"

definition class_tail :: "class_file \<Rightarrow> byte list" where
  "class_tail c =
     be_put 2 (cf_this c) @ be_put 2 (cf_super c) @
     count2 (cf_interfaces c) @ concat (map (be_put 2) (cf_interfaces c)) @
     count2 (cf_fields c) @ concat (map member_bytes (cf_fields c)) @
     count2 (cf_methods c) @ concat (map member_bytes (cf_methods c))"

text \<open>The attributes of the class itself (\<open>attrs\<close>) follow; the parser does not read them.\<close>

definition class_bytes :: "class_file \<Rightarrow> byte list" where
  "class_bytes c =
     be_put 4 (0xCAFEBABE :: 32 word) @ be_put 2 (cf_minor c) @ be_put 2 (cf_major c) @
     be_put 2 (word_of_nat (length (pool_slots (cf_items c)) + 1) :: u16) @
     concat (map item_bytes (cf_items c)) @ class_tail c"

section \<open>Reading what was laid out\<close>

text \<open>The reader stands in front of the bytes \<open>bs\<close>, which reach to the end of the data.\<close>

definition here :: "classReader \<Rightarrow> byte list \<Rightarrow> bool" where
  "here r bs \<longleftrightarrow> cr_off r \<le> length (cr_data r) \<and> drop (cr_off r) (cr_data r) = bs"

definition adv :: "nat \<Rightarrow> classReader \<Rightarrow> classReader" where
  "adv n r = r\<lparr>cr_off := cr_off r + n\<rparr>"

lemma adv_adv [simp]: "adv m (adv n r) = adv (n + m) r"
  by (simp add: adv_def add.assoc)

lemma here_append:
  assumes "here r (x @ bs)"
  shows "here (adv (length x) r) bs \<and> cr_off r + length x \<le> length (cr_data r) \<and>
    take (length x) (drop (cr_off r) (cr_data r)) = x"
proof -
  have d: "drop (cr_off r) (cr_data r) = x @ bs" and o: "cr_off r \<le> length (cr_data r)"
    using assms by (auto simp: here_def)
  have "length (cr_data r) - cr_off r = length x + length bs" using d by (metis length_append length_drop)
  with o have l: "cr_off r + length x \<le> length (cr_data r)" by linarith
  have "drop (length x) (drop (cr_off r) (cr_data r)) = bs" unfolding d by simp
  then have "here (adv (length x) r) bs" using l by (simp add: here_def adv_def add.commute)
  then show ?thesis using l d by simp
qed

lemma cr_u1_here: "here r (b # bs) \<Longrightarrow> cr_u1 r = Inr (b, adv 1 r) \<and> here (adv 1 r) bs"
  using here_append [of r "[b]" bs] by (auto simp: cr_u1_def adv_def here_def dest: nth_via_drop)

lemma cr_u2_here: "here r (be_put 2 (w :: u16) @ bs) \<Longrightarrow> cr_u2 r = Inr (w, adv 2 r) \<and> here (adv 2 r) bs"
  using here_append [of r "be_put 2 w" bs] by (simp add: cr_u2_def adv_def be_get_be_put del: be_put.simps)

lemma cr_u4_here: "here r (be_put 4 (w :: 32 word) @ bs) \<Longrightarrow> cr_u4 r = Inr (w, adv 4 r) \<and> here (adv 4 r) bs"
  using here_append [of r "be_put 4 w" bs] by (simp add: cr_u4_def adv_def be_get_be_put del: be_put.simps)

lemma cr_bytes_here:
  "here r (x @ bs) \<Longrightarrow> length x = n \<Longrightarrow> cr_bytes n r = Inr (x, adv n r) \<and> here (adv n r) bs"
  using here_append [of r x bs] by (auto simp: cr_bytes_def adv_def)

lemma cbind_Inr [simp]: "cbind (Inr (a, r)) f = f a r"
  by (simp add: cbind_def)

lemma unat_u16: "n < 2 ^ 16 \<Longrightarrow> unat (word_of_nat n :: u16) = n"
  by (simp add: unat_of_nat take_bit_nat_eq_self)

lemma parse_entry_here:
  assumes "here r (List.tl (item_bytes (t, p)) @ bs)" and "item_ok (t, p)"
  shows "parse_entry t r =
    Inr ((item_entry (t, p), if t \<in> {5, 6} then 1 else 0), adv (length (item_bytes (t, p)) - 1) r) \<and>
    here (adv (length (item_bytes (t, p)) - 1) r) bs"
proof (cases "t = 1")
  case True
  let ?w = "word_of_nat (length p) :: u16"
  have h: "here r (be_put 2 ?w @ p @ bs)" using assms(1) True by (simp del: be_put.simps)
  note a = cr_u2_here [OF h]
  have "unat ?w = length p" using assms(2) True by (simp add: unat_u16)
  with a cr_bytes_here [of "adv 2 r" p bs "length p"] True show ?thesis
    by (simp add: parse_entry_def cp_consts)
next
  case False
  with assms have h: "here r (p @ bs)" and l: "info_len t = Some (length p)" by auto
  note b = cr_bytes_here [OF h refl]
  from l consider "t \<in> {3, 4}" "length p = 4" | "t \<in> {5, 6}" "length p = 8" | "t \<in> {7, 8, 16}" "length p = 2"
    | "t = 15" "length p = 3" | "t \<in> {9, 10, 11, 12, 18}" "length p = 4"
    by (auto simp: info_len_def split: if_splits)
  then show ?thesis by cases (use b False in \<open>auto simp: parse_entry_def cp_consts\<close>)
qed

lemma parse_pool_here:
  assumes "here r (concat (map item_bytes items) @ bs)" and "list_all item_ok items"
  shows "\<exists>r'. parse_pool (length pre) (pre @ replicate (length (pool_slots items)) zero_entry) r =
    Inr (pre @ pool_slots items, r') \<and> here r' bs"
  using assms
proof (induction items arbitrary: pre r)
  case Nil
  then show ?case by (simp add: pool_slots_def parse_pool.simps)
next
  case (Cons it items)
  obtain t p where it: "it = (t, p)" by (cases it)
  let ?n = "length (pool_slots items)" and ?e = "item_entry (t, p)"
  let ?pool = "pre @ replicate (length (pool_slots (it # items))) zero_entry"
  let ?r1 = "adv 1 r" and ?r2 = "adv (length (item_bytes it)) r"
  have ib: "item_bytes it = t # List.tl (item_bytes it)" "length (item_bytes it) = Suc (length (item_bytes it) - 1)"
    by (simp_all add: it)
  have h: "here r (t # List.tl (item_bytes it) @ concat (map item_bytes items) @ bs)"
    using Cons.prems(1) by (simp add: it)
  have u1: "cr_u1 r = Inr (t, ?r1)" "here ?r1 (List.tl (item_bytes it) @ concat (map item_bytes items) @ bs)"
    using cr_u1_here [OF h] by auto
  have ok: "item_ok (t, p)" using Cons.prems(2) by (simp add: it del: item_ok.simps)
  have adv: "adv (length (item_bytes (t, p)) - 1) ?r1 = adv (length (item_bytes (t, p))) r" by simp
  have pe: "parse_entry t ?r1 = Inr ((?e, if t \<in> {5, 6} then 1 else 0), ?r2)"
    "here ?r2 (concat (map item_bytes items) @ bs)"
    using parse_entry_here [OF u1(2) [unfolded it]] ok adv unfolding it by simp_all
  have lt: "length pre < length ?pool" by (simp add: pool_slots_def it)
  show ?case
  proof (cases "t \<in> {5, 6}")
    case True
    have sl: "pool_slots (it # items) = [zero_entry, ?e] @ pool_slots items" using True by (simp add: pool_slots_def it)
    have upd: "?pool[length pre + 1 := ?e] = (pre @ [zero_entry, ?e]) @ replicate ?n zero_entry"
      by (simp add: sl list_update_append)
    have "parse_pool (length pre) ?pool r = parse_pool (length (pre @ [zero_entry, ?e])) ((pre @ [zero_entry, ?e]) @ replicate ?n zero_entry) ?r2"
      using lt u1(1) pe(1) True upd by (subst parse_pool.simps) (simp add: sl)
    with Cons.IH [OF pe(2), of "pre @ [zero_entry, ?e]"] Cons.prems(2) show ?thesis by (simp add: sl)
  next
    case False
    have sl: "pool_slots (it # items) = [?e] @ pool_slots items" using False by (auto simp: pool_slots_def it)
    have upd: "?pool[length pre := ?e] = (pre @ [?e]) @ replicate ?n zero_entry"
      by (simp add: sl list_update_append)
    have "parse_pool (length pre) ?pool r = parse_pool (length (pre @ [?e])) ((pre @ [?e]) @ replicate ?n zero_entry) ?r2"
      using lt u1(1) pe(1) False upd by (subst parse_pool.simps) (simp add: sl)
    with Cons.IH [OF pe(2), of "pre @ [?e]"] Cons.prems(2) show ?thesis by (simp add: sl)
  qed
qed

lemma parse_u2s_here:
  "here r (concat (map (be_put 2) ws) @ bs) \<Longrightarrow> \<exists>r'. parse_u2s (length ws) r = Inr (ws, r') \<and> here r' bs"
proof (induction ws arbitrary: r)
  case Nil
  then show ?case by simp
next
  case (Cons w ws)
  then have "here r (be_put 2 w @ concat (map (be_put 2) ws) @ bs)" by (simp del: be_put.simps)
  from cr_u2_here [OF this] Cons.IH [of "adv 2 r"] show ?case by auto
qed

lemma skip_attrs_here:
  "here r (concat (map attr_bytes as) @ bs) \<Longrightarrow> list_all (\<lambda>a. length (snd a) < 2 ^ 32) as \<Longrightarrow>
   \<exists>r'. skip_attrs (length as) r = Inr ((), r') \<and> here r' bs"
proof (induction as arbitrary: r)
  case Nil
  then show ?case by simp
next
  case (Cons a as)
  let ?l = "word_of_nat (length (snd a)) :: 32 word"
  from Cons.prems have h: "here r (be_put 2 (fst a) @ be_put 4 ?l @ snd a @ concat (map attr_bytes as) @ bs)"
    and l: "unat ?l = length (snd a)"
    by (simp_all add: attr_bytes_def [of a] unat_of_nat take_bit_nat_eq_self del: be_put.simps)
  have 1: "cr_u2 r = Inr (fst a, adv 2 r)" "here (adv 2 r) (be_put 4 ?l @ snd a @ concat (map attr_bytes as) @ bs)"
    using cr_u2_here [OF h] by auto
  have 2: "cr_u4 (adv 2 r) = Inr (?l, adv 6 r)" "here (adv 6 r) (snd a @ concat (map attr_bytes as) @ bs)"
    using cr_u4_here [OF 1(2)] by auto
  have 3: "cr_bytes (length (snd a)) (adv 6 r) = Inr (snd a, adv (6 + length (snd a)) r)"
    "here (adv (6 + length (snd a)) r) (concat (map attr_bytes as) @ bs)"
    using cr_bytes_here [OF 2(2) refl] by auto
  from 1(1) 2(1) 3 l Cons.IH [OF 3(2)] Cons.prems(2) show ?case by simp
qed

lemma parse_members_here:
  "here r (concat (map member_bytes ms) @ bs) \<Longrightarrow> list_all member_ok ms \<Longrightarrow>
   \<exists>r'. parse_members (length ms) r = Inr (map fst ms, r') \<and> here r' bs"
proof (induction ms arbitrary: r)
  case Nil
  then show ?case by simp
next
  case (Cons m ms)
  let ?a = "snd m" and ?f = "mi_accessFlags (fst m)" and ?n = "mi_nameIdx (fst m)" and ?d = "mi_descIdx (fst m)"
  let ?l = "word_of_nat (length ?a) :: u16" and ?rest = "concat (map member_bytes ms) @ bs"
  have h: "here r (be_put 2 ?f @ be_put 2 ?n @ be_put 2 ?d @ be_put 2 ?l @ concat (map attr_bytes ?a) @ ?rest)"
    using Cons.prems(1) by (simp add: member_bytes_def [of m] del: be_put.simps)
  have m: "unat ?l = length ?a" "list_all (\<lambda>a. length (snd a) < 2 ^ 32) ?a"
    using Cons.prems(2) by (simp_all add: member_ok_def unat_u16)
  have 1: "cr_u2 r = Inr (?f, adv 2 r)" "here (adv 2 r) (be_put 2 ?n @ be_put 2 ?d @ be_put 2 ?l @ concat (map attr_bytes ?a) @ ?rest)"
    using cr_u2_here [OF h] by auto
  have 2: "cr_u2 (adv 2 r) = Inr (?n, adv 4 r)" "here (adv 4 r) (be_put 2 ?d @ be_put 2 ?l @ concat (map attr_bytes ?a) @ ?rest)"
    using cr_u2_here [OF 1(2)] by auto
  have 3: "cr_u2 (adv 4 r) = Inr (?d, adv 6 r)" "here (adv 6 r) (be_put 2 ?l @ concat (map attr_bytes ?a) @ ?rest)"
    using cr_u2_here [OF 2(2)] by auto
  have 4: "cr_u2 (adv 6 r) = Inr (?l, adv 8 r)" "here (adv 8 r) (concat (map attr_bytes ?a) @ ?rest)"
    using cr_u2_here [OF 3(2)] by auto
  obtain r5 where 5: "skip_attrs (length ?a) (adv 8 r) = Inr ((), r5)" "here r5 ?rest"
    using skip_attrs_here [OF 4(2) m(2)] by auto
  obtain r6 where 6: "parse_members (length ms) r5 = Inr (map fst ms, r6)" "here r6 bs"
    using Cons.IH [OF 5(2)] Cons.prems(2) by auto
  from 1(1) 2(1) 3(1) 4(1) 5(1) 6 m(1) show ?case by simp
qed

lemma count2_here:
  "here r (count2 xs @ bs) \<Longrightarrow> length xs < 2 ^ 16 \<Longrightarrow>
   \<exists>w. cr_u2 r = Inr (w, adv 2 r) \<and> unat w = length xs \<and> here (adv 2 r) bs"
  using cr_u2_here [of r "word_of_nat (length xs)" bs] unat_u16 [of "length xs"] unfolding count2_def by blast

lemma parse_rest_here:
  assumes "here r (class_tail c @ bs)" and "class_ok c"
  shows "parse_rest mnr mjr pool r =
    Inr \<lparr>jc_minorVersion = mnr, jc_majorVersion = mjr, jc_constantPool = pool, jc_thisClass = cf_this c,
         jc_superClass = cf_super c, jc_interfaces = cf_interfaces c, jc_fields = map fst (cf_fields c),
         jc_methods = map fst (cf_methods c)\<rparr>"
proof -
  from assms(2) have l: "length (cf_interfaces c) < 2 ^ 16" "length (cf_fields c) < 2 ^ 16" "length (cf_methods c) < 2 ^ 16"
    and ok: "list_all member_ok (cf_fields c)" "list_all member_ok (cf_methods c)" by (simp_all add: class_ok_def)
  let ?ms = "count2 (cf_methods c) @ concat (map member_bytes (cf_methods c)) @ bs"
  let ?fs = "count2 (cf_fields c) @ concat (map member_bytes (cf_fields c)) @ ?ms"
  let ?is = "count2 (cf_interfaces c) @ concat (map (be_put 2) (cf_interfaces c)) @ ?fs"
  have h: "here r (be_put 2 (cf_this c) @ be_put 2 (cf_super c) @ ?is)"
    using assms(1) by (simp add: class_tail_def del: be_put.simps)
  have 1: "cr_u2 r = Inr (cf_this c, adv 2 r)" "here (adv 2 r) (be_put 2 (cf_super c) @ ?is)"
    using cr_u2_here [OF h] by auto
  have 2: "cr_u2 (adv 2 r) = Inr (cf_super c, adv 4 r)" "here (adv 4 r) ?is"
    using cr_u2_here [OF 1(2)] by auto
  obtain w3 r3 where 3: "cr_u2 (adv 4 r) = Inr (w3, r3)" "unat w3 = length (cf_interfaces c)"
    "here r3 (concat (map (be_put 2) (cf_interfaces c)) @ ?fs)" using count2_here [OF 2(2) l(1)] by auto
  obtain r4 where 4: "parse_u2s (length (cf_interfaces c)) r3 = Inr (cf_interfaces c, r4)" "here r4 ?fs"
    using parse_u2s_here [OF 3(3)] by auto
  obtain w5 r5 where 5: "cr_u2 r4 = Inr (w5, r5)" "unat w5 = length (cf_fields c)"
    "here r5 (concat (map member_bytes (cf_fields c)) @ ?ms)" using count2_here [OF 4(2) l(2)] by auto
  obtain r6 where 6: "parse_members (length (cf_fields c)) r5 = Inr (map fst (cf_fields c), r6)" "here r6 ?ms"
    using parse_members_here [OF 5(3) ok(1)] by auto
  obtain w7 r7 where 7: "cr_u2 r6 = Inr (w7, r7)" "unat w7 = length (cf_methods c)"
    "here r7 (concat (map member_bytes (cf_methods c)) @ bs)" using count2_here [OF 6(2) l(3)] by auto
  obtain r8 where 8: "parse_members (length (cf_methods c)) r7 = Inr (map fst (cf_methods c), r8)"
    using parse_members_here [OF 7(3) ok(2)] by auto
  show ?thesis
    unfolding parse_rest_def 1(1) 2(1) 3(1) cbind_Inr 3(2) 4(1) 5(1) 5(2) 6(1) 7(1) 7(2) 8 by simp
qed

definition class_model :: "class_file \<Rightarrow> javaClass" where
  "class_model c =
     \<lparr>jc_minorVersion = cf_minor c, jc_majorVersion = cf_major c, jc_constantPool = zero_entry # pool_slots (cf_items c),
      jc_thisClass = cf_this c, jc_superClass = cf_super c, jc_interfaces = cf_interfaces c,
      jc_fields = map fst (cf_fields c), jc_methods = map fst (cf_methods c)\<rparr>"

lemma parseClass_bytes:
  assumes "class_ok c"
  shows "parseClass (class_bytes c @ attrs) spare = Inr (class_model c)"
proof -
  let ?k = "length (pool_slots (cf_items c)) + 1"
  let ?w = "word_of_nat ?k :: u16"
  let ?items = "concat (map item_bytes (cf_items c))"
  let ?r = "\<lparr>cr_data = class_bytes c @ attrs, cr_spare = spare, cr_off = 0\<rparr>"
  have h: "here ?r (be_put 4 (0xCAFEBABE :: 32 word) @ be_put 2 (cf_minor c) @ be_put 2 (cf_major c) @ be_put 2 ?w @ ?items @ class_tail c @ attrs)"
    by (simp add: here_def class_bytes_def del: be_put.simps of_nat_add)
  have k: "unat ?w = ?k" using assms by (intro unat_u16) (simp add: class_ok_def)
  have ok: "list_all item_ok (cf_items c)" using assms by (simp add: class_ok_def)
  have 1: "cr_u4 ?r = Inr (0xCAFEBABE, adv 4 ?r)" "here (adv 4 ?r) (be_put 2 (cf_minor c) @ be_put 2 (cf_major c) @ be_put 2 ?w @ ?items @ class_tail c @ attrs)"
    using cr_u4_here [OF h] by auto
  have 2: "cr_u2 (adv 4 ?r) = Inr (cf_minor c, adv 6 ?r)" "here (adv 6 ?r) (be_put 2 (cf_major c) @ be_put 2 ?w @ ?items @ class_tail c @ attrs)"
    using cr_u2_here [OF 1(2)] by auto
  have 3: "cr_u2 (adv 6 ?r) = Inr (cf_major c, adv 8 ?r)" "here (adv 8 ?r) (be_put 2 ?w @ ?items @ class_tail c @ attrs)"
    using cr_u2_here [OF 2(2)] by auto
  have 4: "cr_u2 (adv 8 ?r) = Inr (?w, adv 10 ?r)" "here (adv 10 ?r) (?items @ class_tail c @ attrs)"
    using cr_u2_here [OF 3(2)] by auto
  have rep: "replicate ?k zero_entry = [zero_entry] @ replicate (length (pool_slots (cf_items c))) zero_entry" by simp
  obtain r5 where 5: "parse_pool 1 (replicate ?k zero_entry) (adv 10 ?r) = Inr (zero_entry # pool_slots (cf_items c), r5)"
    "here r5 (class_tail c @ attrs)"
    using parse_pool_here [OF 4(2) ok, of "[zero_entry]"] unfolding rep by auto
  show ?thesis
    unfolding parseClass_def 1(1) cbind_Inr 2(1) 3(1) 4(1) k 5(1) parse_rest_here [OF 5(2) assms] class_model_def by simp
qed

section \<open>Lookups in a pool\<close>

text \<open>What every pool that \<^verbatim>\<open>parseClass\<close> returns satisfies.\<close>

definition entry_ok :: "cpEntry \<Rightarrow> bool" where
  "entry_ok e \<longleftrightarrow>
     (ce_tag e = constantUtf8 \<longrightarrow> (\<exists>s. ce_parsed e = PString s)) \<and>
     (ce_tag e = constantClass \<longrightarrow> length (ce_info e) = 2) \<and>
     (ce_tag e = constantInteger \<longrightarrow> (\<exists>v. ce_parsed e = PInt v))"

lemma cr_bytes_length: "cr_bytes n r = Inr (bs, r') \<Longrightarrow> length bs = n"
  by (auto simp: cr_bytes_def split: if_splits)

lemma cbind_InrD: "cbind x f = Inr y \<Longrightarrow> \<exists>a r. x = Inr (a, r) \<and> f a r = Inr y"
  by (auto simp: cbind_def split: sum.splits)

lemma parse_entry_ok: "parse_entry t r = Inr ((e, k), r') \<Longrightarrow> entry_ok e"
  by (auto simp: parse_entry_def entry_ok_def cp_consts split: if_splits dest!: cbind_InrD cr_bytes_length)

lemma parse_pool_ok:
  "parse_pool i pool r = Inr (pool', r') \<Longrightarrow> list_all entry_ok pool \<Longrightarrow> list_all entry_ok pool'"
proof (induction i pool r arbitrary: pool' r' rule: parse_pool.induct)
  case (1 i pool r)
  show ?case
  proof (cases "i < length pool")
    case False
    with 1(2,3) show ?thesis by (simp add: parse_pool.simps)
  next
    case True
    have eq: "cbind (cr_u1 r) (\<lambda>tag r. cbind (parse_entry tag r) (\<lambda>(entry, skip) r.
        let i = i + skip in
        if i < length pool then parse_pool (i + 1) (pool[i := entry]) r else Inl ClassPanic)) = Inr (pool', r')"
      using 1(2) True parse_pool.simps [of i pool r] by simp
    obtain tag r1 e k r2 where u: "cr_u1 r = Inr (tag, r1)" "parse_entry tag r1 = Inr ((e, k), r2)"
      and p: "i + k < length pool" "parse_pool (i + k + 1) (pool[i + k := e]) r2 = Inr (pool', r')"
      using cbind_InrD [OF eq] by (force simp: Let_def split: if_splits dest!: cbind_InrD)
    have "list_all entry_ok (pool[i + k := e])"
      using 1(3) parse_entry_ok [OF u(2)] by (auto simp: list_all_iff dest!: set_update_subset_insert [THEN subsetD])
    with 1(1) [OF True u(1) u(2) refl refl p(1)] p(2) show ?thesis by simp
  qed
qed

lemma parseClass_pool_ok:
  assumes "parseClass data spare = Inr jc"
  shows "list_all entry_ok (jc_constantPool jc)"
proof -
  have z: "list_all entry_ok (replicate k zero_entry)" for k
    by (simp add: list_all_iff entry_ok_def zero_entry_def cp_consts)
  from assms show ?thesis
    unfolding parseClass_def
    by (auto simp: parse_rest_def split: if_splits dest!: cbind_InrD parse_pool_ok [OF _ z])
qed

lemma integers_of_append [simp]: "integers_of (a @ b) = integers_of a @ integers_of b"
  by (induction a) (auto split: parsed.splits)

lemma integers_of_slots:
  "integers_of (pool_slots items) = map (\<lambda>(t, p). be_get p) (filter (\<lambda>(t, p). t = 3) items)"
proof (induction items)
  case Nil
  then show ?case by (simp add: pool_slots_def)
next
  case (Cons it items)
  then show ?case
    by (cases it) (auto simp: pool_slots_def zero_entry_def cp_consts)
qed

section \<open>Properties\<close>

text \<open>C17: a well-formed class file is parsed to its contents: versions, the constant pool with every constant at
  its index (the two slots of a long or a double being the exception, see below), this and super class,
  interfaces, fields and methods, the attributes being skipped; and \<^verbatim>\<open>integerConstants\<close> returns the
  integer constants in the order of the file. What lies behind the data in memory does not matter.\<close>

theorem parseClass_roundtrip:
  assumes "class_ok c"
  shows "\<exists>jc. parseClass (class_bytes c @ attrs) spare = Inr jc \<and>
    jc_minorVersion jc = cf_minor c \<and> jc_majorVersion jc = cf_major c \<and>
    jc_constantPool jc = zero_entry # concat (map item_slots (cf_items c)) \<and>
    jc_thisClass jc = cf_this c \<and> jc_superClass jc = cf_super c \<and> jc_interfaces jc = cf_interfaces c \<and>
    jc_fields jc = map fst (cf_fields c) \<and> jc_methods jc = map fst (cf_methods c) \<and>
    integerConstants jc = map (\<lambda>(t, p). be_get p) (filter (\<lambda>(t, p). t = constantInteger) (cf_items c))"
proof -
  have "integerConstants (class_model c) = map (\<lambda>(t, p). be_get p) (filter (\<lambda>(t, p). t = constantInteger) (cf_items c))"
    by (simp add: integerConstants_def class_model_def integers_of_slots constantInteger_def zero_entry_def)
  with parseClass_bytes [OF assms, of attrs spare] show ?thesis
    by (simp add: class_model_def pool_slots_def)
qed

definition demo_class :: class_file where
  "demo_class = \<lparr>cf_minor = 0, cf_major = 65, cf_items = [(3, [0, 0, 0, 0x26]), (5, [1, 2, 3, 4, 5, 6, 7, 8]), (1, [97, 98]), (7, [0, 4])],
     cf_this = 5, cf_super = 0, cf_interfaces = [5],
     cf_fields = [(\<lparr>mi_accessFlags = 1, mi_nameIdx = 4, mi_descIdx = 4\<rparr>, [(4, [9, 9])])], cf_methods = []\<rparr>"

lemma demo_class_ok: "class_ok demo_class"
  by (simp add: class_ok_def demo_class_def info_len_def member_ok_def pool_slots_def)

theorem parseClass_roundtrip_witness:
  "\<exists>jc. parseClass (class_bytes demo_class @ [0, 0]) [] = Inr jc \<and> integerConstants jc = [0x26] \<and> jc_interfaces jc = [5]"
  using parseClass_roundtrip [OF demo_class_ok, of "[0, 0]" "[]"]
  by (auto simp: demo_class_def cp_consts be_get_def)

text \<open>C37: on the pool of a class that was parsed, from any bytes whatever, \<^verbatim>\<open>className\<close> and \<^verbatim>\<open>utf8\<close> return a
  string for every index: neither the type assertion nor the read of the name's index can panic.\<close>

theorem class_lookups_total:
  assumes "parseClass data spare = Inr jc"
  shows "(\<exists>s. className jc i = Inr s) \<and> (\<exists>s. jc_utf8 jc i = Inr s)"
proof -
  have ok: "entry_ok (jc_constantPool jc ! k)" if "k < length (jc_constantPool jc)" for k
    using parseClass_pool_ok [OF assms] that by (simp add: list_all_length)
  have u: "\<exists>s. jc_utf8 jc j = Inr s" for j
    using ok [of "unat j"] by (auto simp: jc_utf8_def entry_ok_def Let_def not_le)
  have "\<exists>s. className jc i = Inr s"
    using ok [of "unat i"] u by (auto simp: className_def entry_ok_def Let_def not_le)
  with u show ?thesis by blast
qed

theorem class_lookups_total_witness:
  "\<exists>jc s. parseClass (class_bytes demo_class) [] = Inr jc \<and> className jc 5 = Inr s"
proof -
  have p: "parseClass (class_bytes demo_class) [] = Inr (class_model demo_class)"
    using parseClass_bytes [OF demo_class_ok, of "[]" "[]"] by simp
  with class_lookups_total [OF p, of 5] show ?thesis by blast
qed

text \<open>A long or a double is stored in the second of the two slots it occupies; the first one, which is the
  index the rest of the class file uses, stays empty.\<close>

theorem parseClass_long_misplaced:
  assumes "class_ok c" and "cf_items c = pre @ (5, p) # post"
  shows "\<exists>jc. parseClass (class_bytes c) [] = Inr jc \<and>
    jc_constantPool jc ! (1 + length (pool_slots pre)) = zero_entry \<and>
    jc_constantPool jc ! (2 + length (pool_slots pre)) = \<lparr>ce_tag = constantLong, ce_info = p, ce_parsed = PNil\<rparr>"
  using parseClass_bytes [OF assms(1), of "[]" "[]"] assms(2)
  by (simp add: class_model_def pool_slots_def nth_append constantLong_def)

theorem parseClass_long_misplaced_witness:
  "\<exists>jc. parseClass (class_bytes demo_class) [] = Inr jc \<and> jc_constantPool jc ! 2 = zero_entry"
proof -
  have i: "cf_items demo_class = [(3, [0, 0, 0, 0x26])] @ (5, [1, 2, 3, 4, 5, 6, 7, 8]) # [(1, [97, 98]), (7, [0, 4])]"
    by (simp add: demo_class_def)
  have l: "length (pool_slots [(3, [0, 0, 0, 0x26])]) = 1" by (simp add: pool_slots_def)
  show ?thesis using parseClass_long_misplaced [OF demo_class_ok i] unfolding l one_add_one by blast
qed

text \<open>Data that ends early is not an error but a panic, which the callers do not recover.\<close>

theorem parseClass_short_panics:
  assumes "length data < 4"
  shows "parseClass data spare = Inl ClassPanic"
  using assms by (simp add: parseClass_def cr_u4_def cbind_def)

theorem parseClass_short_panics_witness: "parseClass [0xCA, 0xFE] [0xBA, 0xBE] = Inl ClassPanic"
  by (rule parseClass_short_panics) simp

end
