(* ===== verification/Extract.thy ===== *)
theory Extract
  imports Classfile "HOL-Library.Char_ord" "HOL-Library.List_Lexorder" "HOL-Library.Product_Lexorder"
    "HOL-Library.Multiset"
begin

text \<open>
  The rest of \<^verbatim>\<open>tools/mcproto\<close> (\<^verbatim>\<open>jar.go\<close>, \<^verbatim>\<open>extract.go\<close>, \<^verbatim>\<open>main.go\<close>, \<^verbatim>\<open>fallback.go\<close>), the generator of the
  packet constants, and the file of constants it has produced (\<^verbatim>\<open>protocol/packetid/v1_21_4/types.go\<close>). Go
  strings are lists of 8-bit characters here. The network, the zip library and the orders in which Go goes
  through its maps are arguments; the cache directory is a map from file names to contents. The theorems:
  what the extraction returns, the round trip of the mappings file, the completeness of the generated file,
  its agreement with the committed one, and where the classification and the cache go wrong.
\<close>

section \<open>Strings\<close>

text \<open>The functions of package \<^verbatim>\<open>strings\<close> that the tool uses.\<close>

definition HasPrefix :: "string \<Rightarrow> string \<Rightarrow> bool" where
  "HasPrefix s p \<longleftrightarrow> take (length p) s = p"

definition HasSuffix :: "string \<Rightarrow> string \<Rightarrow> bool" where
  "HasSuffix s p \<longleftrightarrow> length p \<le> length s \<and> drop (length s - length p) s = p"

definition TrimPrefix :: "string \<Rightarrow> string \<Rightarrow> string" where
  "TrimPrefix s p = (if HasPrefix s p then drop (length p) s else s)"

definition TrimSuffix :: "string \<Rightarrow> string \<Rightarrow> string" where
  "TrimSuffix s p = (if HasSuffix s p then take (length s - length p) s else s)"

fun str_Index :: "string \<Rightarrow> string \<Rightarrow> nat option" where
  "str_Index [] sub = (if sub = [] then Some 0 else None)"
| "str_Index (c # s) sub = (if HasPrefix (c # s) sub then Some 0 else map_option Suc (str_Index s sub))"

definition str_Contains :: "string \<Rightarrow> string \<Rightarrow> bool" where
  "str_Contains s sub \<longleftrightarrow> str_Index s sub \<noteq> None"

fun str_Split :: "char \<Rightarrow> string \<Rightarrow> string list" where
  "str_Split c [] = [[]]"
| "str_Split c (x # s) =
     (if x = c then [] # str_Split c s
      else case str_Split c s of [] \<Rightarrow> [[x]] | w # ws \<Rightarrow> (x # w) # ws)"

fun str_ReplaceChar :: "char \<Rightarrow> char \<Rightarrow> string \<Rightarrow> string" where
  "str_ReplaceChar a b [] = []"
| "str_ReplaceChar a b (x # s) = (if x = a then b else x) # str_ReplaceChar a b s"

text \<open>
  \<^verbatim>\<open>bufio.Scanner\<close> over lines: a carriage return before the newline is dropped; the scanner stops for good at
  a line of 64 KiB or more, and the error it then has is not looked at.
\<close>

definition drop_cr :: "string \<Rightarrow> string" where
  "drop_cr l = (if l \<noteq> [] \<and> last l = CHR 0x0D then butlast l else l)"

definition scan_lines :: "string \<Rightarrow> string list" where
  "scan_lines text =
     (let ls = str_Split (CHR 0x0A) text; ls = (if ls \<noteq> [] \<and> last ls = [] then butlast ls else ls)
      in map drop_cr (takeWhile (\<lambda>l. length l < 65536) ls))"

section \<open>Downloads and their cache\<close>

datatype x_err = FetchErr | HTTPStatus nat | DecodeErr | CopyErr | CreateErr | NoVersion | NoMappings | NoPackets | BadZip | NothingExtracted | XPanic

text \<open>
  A response: the status, the body as far as it arrived and whether it broke off. \<open>None\<close>: no connection. The
  file system maps names in the cache directory to contents.
\<close>

type_synonym response = "(nat \<times> byte list \<times> bool) option"
type_synonym fs = "string \<rightharpoonup> byte list"

definition downloadFile :: "(string \<Rightarrow> response) \<Rightarrow> string \<Rightarrow> string \<Rightarrow> fs \<Rightarrow> x_err option \<times> fs" where
  "downloadFile http url path f =
     (if f path \<noteq> None then (None, f)
      else case http url of
        None \<Rightarrow> (Some FetchErr, f)
      | Some (status, body, broken) \<Rightarrow>
          if status \<noteq> 200 then (Some (HTTPStatus status), f)
          else (if broken then Some CopyErr else None, f(path \<mapsto> body)))"

definition text_of :: "byte list \<Rightarrow> string" where
  "text_of bs = map (\<lambda>b. char_of (unat b)) bs"

type_synonym jarMapping = "string \<rightharpoonup> string"

text \<open>One line of the mappings: class lines are not indented and end in a colon.\<close>

definition mapping_line :: "string \<Rightarrow> jarMapping \<Rightarrow> jarMapping" where
  "mapping_line line m =
     (if line = [] \<or> hd line = CHR ''#'' then m
      else if hd line \<noteq> CHR '' '' \<and> hd line \<noteq> CHR 0x09 then
        (case str_Index line '' -> '' of
           None \<Rightarrow> m
         | Some idx \<Rightarrow>
             if idx > 0 then
               let clean = take idx line; rest = drop (idx + 4) line in
               if HasSuffix rest '':'' then m(clean \<mapsto> TrimSuffix rest '':'') else m
             else m)
      else m)"

definition parse_mappings :: "string \<Rightarrow> jarMapping" where
  "parse_mappings text = foldl (\<lambda>m line. mapping_line line m) Map.empty (scan_lines text)"

definition loadMappings :: "(string \<Rightarrow> response) \<Rightarrow> string \<Rightarrow> fs \<Rightarrow> (x_err + jarMapping) \<times> fs" where
  "loadMappings http url f =
     (case downloadFile http url ''server.txt'' f of
        (Some e, f) \<Rightarrow> (Inl e, f)
      | (None, f) \<Rightarrow>
          case f ''server.txt'' of
            None \<Rightarrow> (Inl FetchErr, f)
          | Some data \<Rightarrow> (Inr (parse_mappings (text_of data)), f))"

definition downloadJar :: "(string \<Rightarrow> response) \<Rightarrow> string \<Rightarrow> string \<Rightarrow> fs \<Rightarrow> (x_err + string) \<times> fs" where
  "downloadJar http url version f =
     (let cp = ''server-'' @ version @ ''.jar'' in
      case downloadFile http url cp f of (Some e, f) \<Rightarrow> (Inl e, f) | (None, f) \<Rightarrow> (Inr cp, f))"

section \<open>Names of packets\<close>

definition protocolSubpackages :: "string list" where
  "protocolSubpackages = [''handshake'', ''status'', ''login'', ''configuration'', ''common'', ''game'', ''ping'']"

record packetInfo =
  pi_state :: string
  pi_bound :: string
  pi_name :: string
  pi_obf :: string

text \<open>The nested loops: the last component that names a subpackage wins.\<close>

definition classify_state :: "string list \<Rightarrow> string" where
  "classify_state parts =
     foldl (\<lambda>state p. foldl (\<lambda>state sp. if p = sp then sp else state) state protocolSubpackages) ''play'' parts"

definition classifyClean :: "string \<Rightarrow> string \<times> string" where
  "classifyClean clean =
     (let parts = str_Split (CHR ''.'') clean;
          state = classify_state parts;
          state = (if state = ''common'' then ''play'' else state);
          state = (if state = ''ping'' then ''status'' else state);
          simple = last parts;
          bound = (if str_Contains simple ''Clientbound'' \<or> str_Contains simple ''Client'' then ''clientbound''
                   else if str_Contains simple ''Serverbound'' \<or> str_Contains simple ''Server'' then ''serverbound''
                   else ''serverbound'')
      in (state, bound))"

fun trim_first :: "string list \<Rightarrow> string \<Rightarrow> string" where
  "trim_first [] s = s"
| "trim_first (p # ps) s = (if HasPrefix s p then TrimPrefix s p else trim_first ps s)"

definition extractCleanName :: "string \<Rightarrow> string" where
  "extractCleanName clean =
     (let simple = last (str_Split (CHR ''.'') clean);
          cleanName = trim_first [''Clientbound'', ''Serverbound'', ''Client'', ''Server''] simple;
          cleanName = TrimSuffix cleanName ''Packet''
      in if cleanName = [] then simple else cleanName)"

text \<open>
  Ranging over a map goes through its keys in an order that Go leaves open; \<open>order\<close> is that order.
\<close>

definition protocol_packet :: "string \<Rightarrow> string \<Rightarrow> (string \<rightharpoonup> packetInfo) \<Rightarrow> (string \<rightharpoonup> packetInfo)" where
  "protocol_packet clean obf res =
     (if \<not> HasPrefix clean ''net.minecraft.network.protocol.'' then res
      else if \<not> HasSuffix clean ''Packet'' then res
      else if str_Contains clean ''$'' then res
      else
        let (state, bound) = classifyClean clean; name = extractCleanName clean in
        if state = [] \<or> name = [] then res
        else res(obf \<mapsto> \<lparr>pi_state = state, pi_bound = bound, pi_name = name, pi_obf = obf\<rparr>))"

definition protocolPackets :: "string list \<Rightarrow> jarMapping \<Rightarrow> (string \<rightharpoonup> packetInfo)" where
  "protocolPackets order m =
     foldl (\<lambda>res clean. case m clean of None \<Rightarrow> res | Some obf \<Rightarrow> protocol_packet clean obf res) Map.empty order"

section \<open>Archives\<close>

text \<open>
  An archive as the zip library presents it: for each file its name, whether it is a directory, and its
  content (with the spare capacity of the buffer it was read into) if opening and reading succeed.
\<close>

record zip_file =
  zf_name :: string
  zf_dir :: bool
  zf_content :: "(byte list \<times> byte list) option"

record jarEntry =
  je_name :: string
  je_data :: "byte list"
  je_spare :: "byte list"

fun readZip :: "zip_file list \<Rightarrow> jarEntry list" where
  "readZip [] = []"
| "readZip (f # fs) =
     (if zf_dir f then readZip fs
      else case zf_content f of
        None \<Rightarrow> readZip fs
      | Some (data, spare) \<Rightarrow> \<lparr>je_name = zf_name f, je_data = data, je_spare = spare\<rparr> # readZip fs)"

definition is_nested :: "zip_file \<Rightarrow> bool" where
  "is_nested f \<longleftrightarrow> HasPrefix (zf_name f) ''META-INF/versions/'' \<and> HasSuffix (zf_name f) ''.jar'' \<and> \<not> zf_dir f"

definition readJar :: "(byte list \<Rightarrow> zip_file list option) \<Rightarrow> byte list \<Rightarrow> x_err + jarEntry list" where
  "readJar unzip jar =
     (case unzip jar of
        None \<Rightarrow> Inl BadZip
      | Some files \<Rightarrow>
          case find is_nested files of
            None \<Rightarrow> Inr (readZip files)
          | Some f \<Rightarrow>
              case zf_content f of
                None \<Rightarrow> Inl BadZip
              | Some (data, _) \<Rightarrow> (case unzip data of None \<Rightarrow> Inl BadZip | Some nested \<Rightarrow> Inr (readZip nested)))"

section \<open>Extraction\<close>

record PacketDef =
  pd_Name :: string
  pd_ID :: i32
  pd_State :: string
  pd_Bound :: string

fun pick_loop :: "i32 list \<Rightarrow> i32 \<Rightarrow> i32" where
  "pick_loop [] best = best"
| "pick_loop (v # vs) best =
     pick_loop vs (if 0 \<le> sint v \<and> sint v \<le> 255 then (if best = -1 \<or> sint v < sint best then v else best) else best)"

definition pickPacketID :: "i32 list \<Rightarrow> i32" where
  "pickPacketID ints = pick_loop ints (-1)"

text \<open>The lookup from class names to class data: later files of the same name win.\<close>

definition class_table :: "jarEntry list \<Rightarrow> (string \<rightharpoonup> (byte list \<times> byte list))" where
  "class_table entries =
     foldl (\<lambda>m e. if HasSuffix (je_name e) ''.class''
                   then m(TrimSuffix (je_name e) ''.class'' \<mapsto> (je_data e, je_spare e)) else m) Map.empty entries"

definition def_key :: "string \<Rightarrow> string \<Rightarrow> string \<Rightarrow> string" where
  "def_key state bound name = state @ ''/'' @ bound @ ''/'' @ name"

text \<open>The loop over the packets in the order \<open>order\<close> of their obfuscated names; a panic of the parser ends it.\<close>

fun extract_loop ::
  "(string \<rightharpoonup> (byte list \<times> byte list)) \<Rightarrow> (string \<rightharpoonup> packetInfo) \<Rightarrow> string list \<Rightarrow> string set \<Rightarrow> PacketDef list
     \<Rightarrow> x_err + PacketDef list" where
  "extract_loop tab packets [] seen found = Inr found"
| "extract_loop tab packets (obf # order) seen found =
     (case packets obf of
        None \<Rightarrow> extract_loop tab packets order seen found
      | Some info \<Rightarrow>
          case tab obf of
            None \<Rightarrow> extract_loop tab packets order seen found
          | Some (data, spare) \<Rightarrow>
              case parseClass data spare of
                Inl ClassPanic \<Rightarrow> Inl XPanic
              | Inl _ \<Rightarrow> extract_loop tab packets order seen found
              | Inr jc \<Rightarrow>
                  let i = pickPacketID (integerConstants jc) in
                  if i = -1 then extract_loop tab packets order seen found
                  else
                    let key = def_key (pi_state info) (pi_bound info) (pi_name info) in
                    if key \<in> seen then extract_loop tab packets order seen found
                    else extract_loop tab packets order (insert key seen)
                           (found @ [\<lparr>pd_Name = pi_name info, pd_ID = i, pd_State = pi_state info, pd_Bound = pi_bound info\<rparr>]))"

definition def_order :: "PacketDef \<Rightarrow> string \<times> string \<times> int" where
  "def_order d = (pd_State d, pd_Bound d, sint (pd_ID d))"

text \<open>
  From the mappings and the archive to the definitions. Sorting leaves the order of equal elements open;
  the model takes the stable one.
\<close>

definition extract_defs ::
  "string list \<Rightarrow> string list \<Rightarrow> jarMapping \<Rightarrow> jarEntry list \<Rightarrow> x_err + PacketDef list" where
  "extract_defs order1 order2 m entries =
     (case extract_loop (class_table entries) (protocolPackets order1 m) order2 {} [] of
        Inl e \<Rightarrow> Inl e
      | Inr found \<Rightarrow> if found = [] then Inl NothingExtracted else Inr (sort_key def_order found))"

text \<open>
  The manifest lists the versions with the URL of their metadata; the metadata names the server archive and
  the mappings. The network is \<open>http\<close>; the arguments \<open>decode\<close>, \<open>manifest\<close> and \<open>metadata\<close> decode a body of
  JSON, of which it is known whether it broke off.
\<close>

record version_meta =
  vm_server :: string
  vm_mappings :: "string option"

type_synonym 'a decoder = "byte list \<Rightarrow> bool \<Rightarrow> 'a option"

definition fetch_json :: "(string \<Rightarrow> response) \<Rightarrow> 'a decoder \<Rightarrow> string \<Rightarrow> x_err + 'a" where
  "fetch_json http decode url =
     (case http url of
        None \<Rightarrow> Inl FetchErr
      | Some (status, body, broken) \<Rightarrow>
          if status \<noteq> 200 then Inl (HTTPStatus status)
          else case decode body broken of None \<Rightarrow> Inl DecodeErr | Some x \<Rightarrow> Inr x)"

definition manifestURL :: string where
  "manifestURL = ''https://piston-meta.mojang.com/mc/game/version_manifest_v2.json''"

definition fetchManifest :: "(string \<Rightarrow> response) \<Rightarrow> (string \<times> string) list decoder \<Rightarrow> x_err + (string \<times> string) list" where
  "fetchManifest http manifest = fetch_json http manifest manifestURL"

definition getVersionMeta ::
  "(string \<Rightarrow> response) \<Rightarrow> version_meta decoder \<Rightarrow> (string \<times> string) list \<Rightarrow> string \<Rightarrow> x_err + version_meta" where
  "getVersionMeta http metadata versions version =
     (case find (\<lambda>v. fst v = version) versions of None \<Rightarrow> Inl NoVersion | Some v \<Rightarrow> fetch_json http metadata (snd v))"

definition extractPacketIDs ::
  "(string \<times> string) list decoder \<Rightarrow> version_meta decoder \<Rightarrow> (string \<Rightarrow> response) \<Rightarrow>
   (byte list \<Rightarrow> zip_file list option) \<Rightarrow> string list \<Rightarrow> string list \<Rightarrow> string \<Rightarrow> fs \<Rightarrow> (x_err + PacketDef list) \<times> fs" where
  "extractPacketIDs manifest metadata http unzip order1 order2 version f =
     (case fetchManifest http manifest of
        Inl e \<Rightarrow> (Inl e, f)
      | Inr versions \<Rightarrow>
          case getVersionMeta http metadata versions version of
            Inl e \<Rightarrow> (Inl e, f)
          | Inr meta \<Rightarrow>
              case vm_mappings meta of
                None \<Rightarrow> (Inl NoMappings, f)
              | Some url \<Rightarrow>
                  if url = [] then (Inl NoMappings, f)
                  else case loadMappings http url f of
                    (Inl e, f) \<Rightarrow> (Inl e, f)
                  | (Inr m, f) \<Rightarrow>
                      if \<forall>obf \<in> set order2. protocolPackets order1 m obf = None then (Inl NoPackets, f)
                      else case downloadJar http (vm_server meta) version f of
                        (Inl e, f) \<Rightarrow> (Inl e, f)
                      | (Inr path, f) \<Rightarrow>
                          case f path of
                            None \<Rightarrow> (Inl BadZip, f)
                          | Some jar \<Rightarrow>
                              case readJar unzip jar of
                                Inl e \<Rightarrow> (Inl e, f)
                              | Inr entries \<Rightarrow> (extract_defs order1 order2 m entries, f))"

section \<open>Definitions and the generated file\<close>

definition pdef :: "string \<Rightarrow> i32 \<Rightarrow> string \<Rightarrow> string \<Rightarrow> PacketDef" where
  "pdef name i state bound = \<lparr>pd_Name = name, pd_ID = i, pd_State = state, pd_Bound = bound\<rparr>"

definition fallbackDefinitions :: "PacketDef list" where
  "fallbackDefinitions = [
     pdef ''Handshake'' 0x00 ''handshake'' ''serverbound'',
     pdef ''StatusRequest'' 0x00 ''status'' ''serverbound'',
     pdef ''StatusPing'' 0x01 ''status'' ''serverbound'',
     pdef ''StatusResponse'' 0x00 ''status'' ''clientbound'',
     pdef ''StatusPong'' 0x01 ''status'' ''clientbound'',
     pdef ''LoginStart'' 0x00 ''login'' ''serverbound'',
     pdef ''EncryptionResponse'' 0x01 ''login'' ''serverbound'',
     pdef ''LoginPluginResponse'' 0x02 ''login'' ''serverbound'',
     pdef ''LoginDisconnect'' 0x00 ''login'' ''clientbound'',
     pdef ''LoginSuccess'' 0x02 ''login'' ''clientbound'',
     pdef ''SetCompression'' 0x03 ''login'' ''clientbound'',
     pdef ''LoginPluginRequest'' 0x04 ''login'' ''clientbound'',
     pdef ''ConfigAck'' 0x00 ''configuration'' ''serverbound'',
     pdef ''ConfigPluginResponse'' 0x01 ''configuration'' ''serverbound'',
     pdef ''ConfigPluginRequest'' 0x00 ''configuration'' ''clientbound'',
     pdef ''ConfigDisconnect'' 0x01 ''configuration'' ''clientbound'',
     pdef ''FinishConfiguration'' 0x02 ''configuration'' ''clientbound'',
     pdef ''ConfigKeepAlive'' 0x03 ''configuration'' ''clientbound'',
     pdef ''ConfigSyncData'' 0x04 ''configuration'' ''clientbound'',
     pdef ''KeepAlive'' 0x18 ''play'' ''serverbound'',
     pdef ''ChatMessage'' 0x05 ''play'' ''serverbound'',
     pdef ''PlayerPosition'' 0x1A ''play'' ''serverbound'',
     pdef ''PlayerPositionRotation'' 0x1B ''play'' ''serverbound'',
     pdef ''PlayerRotation'' 0x1C ''play'' ''serverbound'',
     pdef ''PlayerMovement'' 0x1D ''play'' ''serverbound'',
     pdef ''ClientCommand'' 0x07 ''play'' ''serverbound'',
     pdef ''PluginMessage'' 0x11 ''play'' ''serverbound'',
     pdef ''KeepAlive'' 0x26 ''play'' ''clientbound'',
     pdef ''JoinGame'' 0x2E ''play'' ''clientbound'',
     pdef ''ChatMessage'' 0x37 ''play'' ''clientbound'',
     pdef ''SystemChat'' 0x66 ''play'' ''clientbound'',
     pdef ''Disconnect'' 0x1D ''play'' ''clientbound'',
     pdef ''PluginMessage'' 0x25 ''play'' ''clientbound'',
     pdef ''ServerData'' 0x47 ''play'' ''clientbound'',
     pdef ''Respawn'' 0x44 ''play'' ''clientbound'',
     pdef ''ChunkData'' 0x24 ''play'' ''clientbound'',
     pdef ''ChunkDataUpdate'' 0x5B ''play'' ''clientbound'',
     pdef ''BlockUpdate'' 0x0A ''play'' ''clientbound'',
     pdef ''PlayerInfo'' 0x3D ''play'' ''clientbound'',
     pdef ''PlayerInfoRemove'' 0x42 ''play'' ''clientbound'',
     pdef ''SynchronizePosition'' 0x40 ''play'' ''clientbound'',
     pdef ''UpdateRecipes'' 0x7E ''play'' ''clientbound'']"

text \<open>A panic of the extraction is not recovered.\<close>

definition getDefinitions :: "(x_err + PacketDef list) \<Rightarrow> PacketDef list option" where
  "getDefinitions extracted =
     (case extracted of
        Inl XPanic \<Rightarrow> None
      | Inl _ \<Rightarrow> Some fallbackDefinitions
      | Inr packets \<Rightarrow> Some (if packets = [] then fallbackDefinitions else packets))"

text \<open>The constants of \<^verbatim>\<open>protocol/packetid/v1_21_4/types.go\<close>, group by group.\<close>

definition v1_21_4_types :: "(string \<times> (string \<times> i32) list) list" where
  "v1_21_4_types = [
     (''handshake_serverbound'', [(''sHandshake'', 0x00)]),
     (''status_serverbound'', [(''sStatusRequest'', 0x00), (''sStatusPing'', 0x01)]),
     (''status_clientbound'', [(''cStatusResponse'', 0x00), (''cStatusPong'', 0x01)]),
     (''configuration_serverbound'', [(''sConfigAck'', 0x00), (''sConfigPluginResponse'', 0x01)]),
     (''configuration_clientbound'', [(''cConfigPluginRequest'', 0x00), (''cConfigDisconnect'', 0x01), (''cFinishConfiguration'', 0x02), (''cConfigKeepAlive'', 0x03), (''cConfigSyncData'', 0x04)]),
     (''login_serverbound'', [(''sLoginStart'', 0x00), (''sEncryptionResponse'', 0x01), (''sLoginPluginResponse'', 0x02)]),
     (''login_clientbound'', [(''cLoginDisconnect'', 0x00), (''cLoginSuccess'', 0x02), (''cSetCompression'', 0x03), (''cLoginPluginRequest'', 0x04)]),
     (''play_serverbound'', [(''sKeepAlive'', 0x18), (''sChatMessage'', 0x05), (''sPlayerPosition'', 0x1A), (''sPlayerPositionRotation'', 0x1B), (''sPlayerRotation'', 0x1C), (''sPlayerMovement'', 0x1D), (''sClientCommand'', 0x07), (''sPluginMessage'', 0x11)]),
     (''play_clientbound'', [(''cKeepAlive'', 0x26), (''cJoinGame'', 0x2E), (''cChatMessage'', 0x37), (''cSystemChat'', 0x66), (''cDisconnect'', 0x1D), (''cPluginMessage'', 0x25), (''cServerData'', 0x47), (''cRespawn'', 0x44), (''cChunkData'', 0x24), (''cChunkDataUpdate'', 0x5B), (''cBlockUpdate'', 0x0A), (''cPlayerInfo'', 0x3D), (''cPlayerInfoRemove'', 0x42), (''cSynchronizePosition'', 0x40), (''cUpdateRecipes'', 0x7E)])]"

subsection \<open>Generating the file\<close>

definition hex_digit :: "nat \<Rightarrow> char" where
  "hex_digit d = ''0123456789ABCDEF'' ! d"

fun upper_hex :: "nat \<Rightarrow> string" where
  "upper_hex n = (if n < 16 then [hex_digit n] else upper_hex (n div 16) @ [hex_digit (n mod 16)])"

declare upper_hex.simps [simp del]

text \<open>\<^verbatim>\<open>%02X\<close>: at least two characters, the sign included.\<close>

definition fmt_02X :: "int \<Rightarrow> string" where
  "fmt_02X n =
     (let ds = upper_hex (nat (abs n)) in
      if n < 0 then ''-'' @ ds else if length ds < 2 then ''0'' @ ds else ds)"

definition group_key :: "PacketDef \<Rightarrow> string" where
  "group_key p = pd_State p @ ''_'' @ pd_Bound p"

definition groups :: "PacketDef list \<Rightarrow> string \<Rightarrow> PacketDef list" where
  "groups packets key = filter (\<lambda>p. group_key p = key) packets"

text \<open>\<^verbatim>\<open>d.Bound[:1]\<close> panics on an empty string.\<close>

definition constName :: "PacketDef \<Rightarrow> string option" where
  "constName d = (if pd_Bound d = [] then None else Some (take 1 (pd_Bound d) @ pd_Name d))"

definition gen_line :: "PacketDef \<Rightarrow> string option" where
  "gen_line d =
     map_option (\<lambda>c. [CHR 0x09] @ c @ '' PacketID = 0x'' @ fmt_02X (sint (pd_ID d)) @ [CHR 0x0A]) (constName d)"

fun gen_lines :: "PacketDef list \<Rightarrow> string option" where
  "gen_lines [] = Some []"
| "gen_lines (d # ds) =
     (case gen_line d of None \<Rightarrow> None | Some l \<Rightarrow> map_option (\<lambda>ls. l @ ls) (gen_lines ds))"

definition gen_group :: "PacketDef list \<Rightarrow> string \<Rightarrow> string option" where
  "gen_group packets key =
     map_option (\<lambda>ls. [CHR 0x09] @ ''// '' @ key @ [CHR 0x0A] @ ls @ [CHR 0x0A]) (gen_lines (groups packets key))"

fun gen_groups :: "PacketDef list \<Rightarrow> string list \<Rightarrow> string option" where
  "gen_groups packets [] = Some []"
| "gen_groups packets (k # ks) =
     (case gen_group packets k of None \<Rightarrow> None | Some g \<Rightarrow> map_option (\<lambda>gs. g @ gs) (gen_groups packets ks))"

definition pkg_name :: "string \<Rightarrow> string" where
  "pkg_name version = str_ReplaceChar (CHR ''-'') (CHR ''_'') (''v'' @ str_ReplaceChar (CHR ''.'') (CHR ''_'') version)"

text \<open>The text written, with \<open>keys\<close> the order in which the map of groups is gone through.\<close>

definition generate :: "string list \<Rightarrow> PacketDef list \<Rightarrow> string \<Rightarrow> string option" where
  "generate keys packets version =
     (let nl = [CHR 0x0A]; pkgName = pkg_name version in
      map_option (\<lambda>body.
        ''// Package '' @ pkgName @ '' - Auto-generated packet IDs for Minecraft '' @ version @ nl @
        ''// Code generated by tools/mcproto; DO NOT EDIT.'' @ nl @ nl @
        ''package '' @ pkgName @ nl @ nl @
        ''const ('' @ nl @ body @ '')'' @ nl @ nl @ ''type PacketID int32'' @ nl)
        (gen_groups packets keys))"

definition output_path :: "string \<Rightarrow> string \<Rightarrow> string" where
  "output_path output version =
     (if output = [] then ''../../protocol/packetid/v'' @ str_ReplaceChar (CHR ''.'') (CHR ''_'') version @ ''/types.go''
      else output)"

text \<open>
  \<^verbatim>\<open>main\<close> with the result of the extraction: the file to write and its text. \<open>keys\<close> is the order of the
  groups for a list of packets.
\<close>

definition mcproto_main ::
  "(PacketDef list \<Rightarrow> string list) \<Rightarrow> (x_err + PacketDef list) \<Rightarrow> string \<Rightarrow> string \<Rightarrow> (string \<times> string) option" where
  "mcproto_main keys extracted version output =
     (case getDefinitions extracted of
        None \<Rightarrow> None
      | Some packets \<Rightarrow>
          let output = output_path output version in
          map_option (\<lambda>txt. (output, txt)) (generate (keys packets) packets version))"

section \<open>Lemmas\<close>

text \<open>\<open>r\<close> is the least element of \<open>S\<close> as a signed number, and -1 for the empty set.\<close>

definition least_id :: "i32 \<Rightarrow> i32 set \<Rightarrow> bool" where
  "least_id r S \<longleftrightarrow> (if S = {} then r = -1 else r \<in> S \<and> (\<forall>v \<in> S. sint r \<le> sint v))"

definition id_range :: "i32 set" where
  "id_range = {v. 0 \<le> sint v \<and> sint v \<le> 255}"

lemma least_id_mono:
  assumes "least_id r T" and "T \<subseteq> S" and "\<And>w. w \<in> S \<Longrightarrow> \<exists>u \<in> T. sint u \<le> sint w"
  shows "least_id r S"
proof (cases "S = {}")
  case True
  with assms(1,2) show ?thesis by (auto simp: least_id_def)
next
  case False
  with assms(3) have "T \<noteq> {}" by blast
  with assms(1) have r: "r \<in> T" "\<And>u. u \<in> T \<Longrightarrow> sint r \<le> sint u" by (auto simp: least_id_def)
  have "sint r \<le> sint w" if "w \<in> S" for w
    using assms(3) [OF that] r(2) by (meson order_trans)
  with r(1) assms(2) show ?thesis by (auto simp: least_id_def)
qed

lemma pick_loop_spec:
  assumes "best = -1 \<or> best \<in> id_range"
  shows "least_id (pick_loop vs best) (insert best (set vs) \<inter> id_range)"
  using assms
proof (induction vs arbitrary: best)
  case Nil
  then show ?case by (auto simp: least_id_def id_range_def)
next
  case (Cons v vs)
  define b where "b = (if v \<in> id_range then (if best = -1 \<or> sint v < sint best then v else best) else best)"
  have ok: "b = -1 \<or> b \<in> id_range" using Cons.prems by (auto simp: b_def)
  have p: "pick_loop (v # vs) best = pick_loop vs b" by (simp add: b_def id_range_def)
  have "insert b (set vs) \<inter> id_range \<subseteq> insert best (set (v # vs)) \<inter> id_range" by (auto simp: b_def)
  moreover have "\<exists>u \<in> insert b (set vs) \<inter> id_range. sint u \<le> sint w"
    if "w \<in> insert best (set (v # vs)) \<inter> id_range" for w
  proof (cases "w \<in> set vs")
    case True
    with that show ?thesis by auto
  next
    case False
    with that Cons.prems have "sint b \<le> sint w" "b \<in> id_range" by (auto simp: b_def id_range_def)
    then show ?thesis by auto
  qed
  ultimately show ?case unfolding p by (rule least_id_mono [OF Cons.IH [OF ok]])
qed

lemma pickPacketID_least: "least_id (pickPacketID ints) (set ints \<inter> id_range)"
proof -
  have "insert (-1) (set ints) \<inter> id_range = set ints \<inter> id_range" by (auto simp: id_range_def)
  with pick_loop_spec [of "-1" ints] show ?thesis by (simp add: pickPacketID_def)
qed

lemma extract_loop_inv:
  assumes "extract_loop tab packets order seen found = Inr defs"
    and "\<forall>d \<in> set found. 0 \<le> sint (pd_ID d) \<and> sint (pd_ID d) \<le> 255 \<and>
      (\<exists>obf info. packets obf = Some info \<and> pd_Name d = pi_name info \<and> pd_State d = pi_state info \<and> pd_Bound d = pi_bound info)"
    and "distinct (map (\<lambda>d. def_key (pd_State d) (pd_Bound d) (pd_Name d)) found)"
    and "seen = set (map (\<lambda>d. def_key (pd_State d) (pd_Bound d) (pd_Name d)) found)"
  shows "(\<forall>d \<in> set defs. 0 \<le> sint (pd_ID d) \<and> sint (pd_ID d) \<le> 255 \<and>
      (\<exists>obf info. packets obf = Some info \<and> pd_Name d = pi_name info \<and> pd_State d = pi_state info \<and> pd_Bound d = pi_bound info)) \<and>
    distinct (map (\<lambda>d. def_key (pd_State d) (pd_Bound d) (pd_Name d)) defs)"
  using assms
proof (induction order arbitrary: seen found)
  case Nil
  then show ?case by simp
next
  case (Cons obf order)
  have pick: "0 \<le> sint (pickPacketID is) \<and> sint (pickPacketID is) \<le> 255" if "pickPacketID is \<noteq> -1" for "is"
    using pickPacketID_least [of "is"] that by (auto simp: least_id_def id_range_def split: if_splits)
  consider "extract_loop tab packets order seen found = Inr defs"
    | info data spare jc where "packets obf = Some info" "tab obf = Some (data, spare)" "parseClass data spare = Inr jc"
      "pickPacketID (integerConstants jc) \<noteq> -1" "def_key (pi_state info) (pi_bound info) (pi_name info) \<notin> seen"
      "extract_loop tab packets order (insert (def_key (pi_state info) (pi_bound info) (pi_name info)) seen)
        (found @ [\<lparr>pd_Name = pi_name info, pd_ID = pickPacketID (integerConstants jc), pd_State = pi_state info, pd_Bound = pi_bound info\<rparr>]) = Inr defs"
    using Cons.prems(1)
    by (auto simp: Let_def split: option.splits sum.splits class_err.splits if_splits prod.splits)
  then show ?case
  proof cases
    case 1
    then show ?thesis using Cons.IH Cons.prems(2-4) by blast
  next
    case (2 info data spare jc)
    let ?d = "\<lparr>pd_Name = pi_name info, pd_ID = pickPacketID (integerConstants jc), pd_State = pi_state info, pd_Bound = pi_bound info\<rparr>"
    show ?thesis
      by (rule Cons.IH [OF 2(6)]) (use 2 pick [OF 2(4)] Cons.prems(2-4) in \<open>auto simp del: set_map\<close>)
  qed
qed

lemma set_sort_key_distinct: "distinct (map f (sort_key k xs)) = distinct (map f xs)"
proof -
  have "mset (map f (sort_key k xs)) = mset (map f xs)" by simp
  then show ?thesis by (rule mset_eq_imp_distinct_iff)
qed

lemma downloadFile_cached:
  "downloadFile http url path f = (None, f') \<Longrightarrow>
     f' path \<noteq> None \<and> downloadFile http' url' path f' = (None, f') \<and> (\<forall>p. f p \<noteq> None \<longrightarrow> f' p = f p)"
  by (auto simp: downloadFile_def split: option.splits if_splits)

lemma loadMappings_cached:
  assumes "loadMappings http url f = (Inr m, f1)" and "\<And>p. f1 p \<noteq> None \<Longrightarrow> f' p = f1 p"
  shows "loadMappings http' url' f' = (Inr m, f')"
proof -
  obtain data where "f1 ''server.txt'' = Some data" "m = parse_mappings (text_of data)"
    using assms(1) by (auto simp: loadMappings_def split: prod.splits option.splits)
  with assms(2) [of "''server.txt''"] show ?thesis by (simp add: loadMappings_def downloadFile_def)
qed

lemma downloadJar_cached:
  "downloadJar http url version f = (Inr path, f') \<Longrightarrow>
     downloadJar http' url' version f' = (Inr path, f') \<and> (\<forall>p. f p \<noteq> None \<longrightarrow> f' p = f p)"
  using downloadFile_cached [where path = "''server-'' @ version @ ''.jar''"]
  by (auto simp: downloadJar_def Let_def split: prod.splits option.splits)

section \<open>Properties\<close>

text \<open>\<^verbatim>\<open>pickPacketID\<close> returns the smallest constant between 0 and 255, and -1 exactly when there is none.\<close>

theorem pickPacketID_spec:
  "let S = {v \<in> set ints. 0 \<le> sint v \<and> sint v \<le> 255} in
   if S = {} then pickPacketID ints = -1
   else pickPacketID ints \<in> S \<and> sint (pickPacketID ints) = Min (sint ` S)"
proof -
  have e: "{v \<in> set ints. 0 \<le> sint v \<and> sint v \<le> 255} = set ints \<inter> id_range" by (auto simp: id_range_def)
  show ?thesis
  proof (cases "set ints \<inter> id_range = {}")
    case True
    with pickPacketID_least [of ints] show ?thesis unfolding e Let_def by (simp add: least_id_def)
  next
    case False
    with pickPacketID_least [of ints] have r: "pickPacketID ints \<in> set ints \<inter> id_range"
      "\<And>v. v \<in> set ints \<inter> id_range \<Longrightarrow> sint (pickPacketID ints) \<le> sint v" by (auto simp: least_id_def)
    then have "Min (sint ` (set ints \<inter> id_range)) = sint (pickPacketID ints)" by (intro Min_eqI) auto
    with False r show ?thesis unfolding e Let_def by simp
  qed
qed

text \<open>C38: the definitions that are extracted are sorted by state, bound and ID; no two of them have the same
  state, bound and name; each has an ID between 0 and 255 and the state, bound and name of a packet class of
  the mappings, in whatever order the maps are gone through.\<close>

theorem extract_defs_spec:
  assumes "extract_defs order1 order2 m entries = Inr defs"
  shows "defs \<noteq> [] \<and> sorted (map def_order defs) \<and>
    distinct (map (\<lambda>d. def_key (pd_State d) (pd_Bound d) (pd_Name d)) defs) \<and>
    list_all (\<lambda>d. 0 \<le> sint (pd_ID d) \<and> sint (pd_ID d) \<le> 255) defs \<and>
    list_all (\<lambda>d. \<exists>obf info. protocolPackets order1 m obf = Some info \<and>
      pd_Name d = pi_name info \<and> pd_State d = pi_state info \<and> pd_Bound d = pi_bound info) defs"
proof -
  obtain found where f: "extract_loop (class_table entries) (protocolPackets order1 m) order2 {} [] = Inr found"
    "found \<noteq> []" "defs = sort_key def_order found"
    using assms by (auto simp: extract_defs_def split: sum.splits if_splits)
  have "defs \<noteq> []" using f(2,3) by (metis length_0_conv length_sort)
  with extract_loop_inv [OF f(1)] show ?thesis
    by (simp add: f(3) list_all_iff set_sort_key_distinct)
qed

theorem extract_defs_spec_witness:
  "\<exists>defs. extract_defs [''net.minecraft.network.protocol.game.ClientboundKeepAlivePacket''] [''abc'']
      [''net.minecraft.network.protocol.game.ClientboundKeepAlivePacket'' \<mapsto> ''abc'']
      [\<lparr>je_name = ''abc.class'', je_data = class_bytes demo_class, je_spare = []\<rparr>] = Inr defs \<and>
    map pd_ID defs = [0x26] \<and> sorted (map def_order defs)"
proof -
  have "extract_defs [''net.minecraft.network.protocol.game.ClientboundKeepAlivePacket''] [''abc'']
      [''net.minecraft.network.protocol.game.ClientboundKeepAlivePacket'' \<mapsto> ''abc'']
      [\<lparr>je_name = ''abc.class'', je_data = class_bytes demo_class, je_spare = []\<rparr>] =
      Inr [pdef ''KeepAlive'' 0x26 ''game'' ''clientbound'']" by code_simp
  with extract_defs_spec [OF this] show ?thesis by (auto simp: pdef_def)
qed

section \<open>Splitting and joining\<close>

lemma str_Split_not_Nil [simp]: "str_Split c s \<noteq> []"
  by (induction s) (auto split: list.splits)

lemma str_Split_append:
  "str_Split c (a @ c # b) = butlast (str_Split c a) @ [last (str_Split c a)] @ str_Split c b"
proof (induction a)
  case Nil
  then show ?case by simp
next
  case (Cons x a)
  then show ?case by (cases "str_Split c a") (auto split: list.splits)
qed

lemma str_Split_single: "c \<notin> set s \<Longrightarrow> str_Split c s = [s]"
  by (induction s) auto

lemma last_str_Split: "c \<notin> set b \<Longrightarrow> last (str_Split c (a @ c # b)) = b"
  by (simp add: str_Split_append str_Split_single)

lemma str_Split_lines:
  "list_all (\<lambda>l. c \<notin> set l) ls \<Longrightarrow> str_Split c (concat (map (\<lambda>l. l @ [c]) ls)) = ls @ [[]]"
proof (induction ls)
  case Nil
  then show ?case by simp
next
  case (Cons l ls)
  have "str_Split c (concat (map (\<lambda>l. l @ [c]) (l # ls))) = str_Split c (l @ c # concat (map (\<lambda>l. l @ [c]) ls))" by simp
  also have "\<dots> = l # str_Split c (concat (map (\<lambda>l. l @ [c]) ls))"
    using Cons.prems by (simp only: str_Split_append) (simp add: str_Split_single)
  finally show ?case using Cons by simp
qed

lemma scan_lines_unlines:
  assumes "list_all (\<lambda>l. CHR 0x0A \<notin> set l \<and> length l < 65536 \<and> (l \<noteq> [] \<longrightarrow> last l \<noteq> CHR 0x0D)) ls"
  shows "scan_lines (concat (map (\<lambda>l. l @ [CHR 0x0A]) ls)) = ls"
proof -
  have "list_all (\<lambda>l. CHR 0x0A \<notin> set l) ls" using assms by (auto simp: list_all_iff)
  then have a: "str_Split (CHR 0x0A) (concat (map (\<lambda>l. l @ [CHR 0x0A]) ls)) = ls @ [[]]" by (rule str_Split_lines)
  have b: "takeWhile (\<lambda>l. length l < 65536) ls = ls" using assms by (auto simp: list_all_iff)
  have c: "map drop_cr ls = ls" using assms by (auto simp: list_all_iff drop_cr_def intro!: map_idI)
  show ?thesis unfolding scan_lines_def a Let_def by (simp add: b c)
qed

lemma HasPrefix_append [simp]: "HasPrefix (p @ s) p"
  by (simp add: HasPrefix_def)

lemma HasSuffix_append [simp]: "HasSuffix (s @ p) p"
  by (simp add: HasSuffix_def)

lemma TrimSuffix_append [simp]: "TrimSuffix (s @ p) p = s"
  by (simp add: TrimSuffix_def)

lemma str_Index_arrow:
  assumes "CHR '' '' \<notin> set a"
  shows "str_Index (a @ '' -> '' @ b) '' -> '' = Some (length a)"
  using assms
proof (induction a)
  case Nil
  then show ?case by (simp add: HasPrefix_def)
next
  case (Cons x a)
  then show ?case by (auto simp: HasPrefix_def)
qed

lemma mapping_line_class:
  assumes "clean \<noteq> []" and "hd clean \<notin> {CHR ''#'', CHR 0x09}" and "CHR '' '' \<notin> set clean"
  shows "mapping_line (clean @ '' -> '' @ obf @ '':'') m = m(clean \<mapsto> obf)"
proof -
  have h: "hd clean \<noteq> CHR '' ''" using assms(1,3) by (metis hd_in_set)
  have "drop (length clean + 4) (clean @ '' -> '' @ obf @ '':'') = obf @ '':''" by simp
  with assms h str_Index_arrow [OF assms(3), of "obf @ '':''"] show ?thesis
    by (simp add: mapping_line_def Let_def)
qed

lemma foldl_update: "foldl (\<lambda>m (k, v). m(k \<mapsto> v)) m kvs = m ++ map_of (rev kvs)"
  by (induction kvs arbitrary: m) (auto simp: map_add_def fun_eq_iff split: option.splits)

section \<open>Properties of names, mappings and the generated file\<close>

text \<open>The line of a class in the mappings, and when a pair of names has one.\<close>

definition class_line :: "string \<times> string \<Rightarrow> string" where
  "class_line e = fst e @ '' -> '' @ snd e @ '':''"

definition class_entry_ok :: "string \<times> string \<Rightarrow> bool" where
  "class_entry_ok e \<longleftrightarrow>
     fst e \<noteq> [] \<and> hd (fst e) \<notin> {CHR ''#'', CHR 0x09} \<and> CHR '' '' \<notin> set (fst e) \<and>
     CHR 0x0A \<notin> set (fst e @ snd e) \<and> length (fst e) + length (snd e) < 65531"

text \<open>The mappings file of a list of classes is read back as the map from their clean names to their
  obfuscated ones, a later line for the same class winning.\<close>

theorem parse_mappings_roundtrip:
  assumes "list_all class_entry_ok es"
  shows "parse_mappings (concat (map (\<lambda>e. class_line e @ [CHR 0x0A]) es)) = map_of (rev es)"
proof -
  have l: "list_all (\<lambda>l. CHR 0x0A \<notin> set l \<and> length l < 65536 \<and> (l \<noteq> [] \<longrightarrow> last l \<noteq> CHR 0x0D)) (map class_line es)"
    using assms by (auto simp: list_all_iff class_entry_ok_def class_line_def)
  have "scan_lines (concat (map (\<lambda>e. class_line e @ [CHR 0x0A]) es)) = map class_line es"
    using scan_lines_unlines [OF l] by (simp add: comp_def)
  moreover have "foldl (\<lambda>m line. mapping_line line m) m (map class_line es) = foldl (\<lambda>m (k, v). m(k \<mapsto> v)) m es" for m
    using assms
  proof (induction es arbitrary: m)
    case Nil
    then show ?case by simp
  next
    case (Cons e es)
    have "mapping_line (class_line e) m = m(fst e \<mapsto> snd e)"
      unfolding class_line_def using Cons.prems by (intro mapping_line_class) (simp_all add: class_entry_ok_def)
    with Cons show ?case by (cases e) (simp add: fun_upd_def)
  qed
  ultimately show ?thesis by (simp add: parse_mappings_def foldl_update)
qed

theorem parse_mappings_roundtrip_witness:
  "parse_mappings (concat (map (\<lambda>e. class_line e @ [CHR 0x0A]) [(''a.B'', ''x''), (''a.C'', ''y'')])) ''a.C'' = Some ''y''"
  using parse_mappings_roundtrip [of "[(''a.B'', ''x''), (''a.C'', ''y'')]"] by (simp add: class_entry_ok_def)

text \<open>The name taken from a packet class is what stands between the direction and \<^verbatim>\<open>Packet\<close>, in whatever
  package the class is.\<close>

theorem extractCleanName_spec:
  assumes "dir \<in> {''Clientbound'', ''Serverbound''}" and "name \<noteq> []" and "CHR ''.'' \<notin> set name"
  shows "extractCleanName (pkg @ ''.'' @ dir @ name @ ''Packet'') = name"
proof -
  have "CHR ''.'' \<notin> set (dir @ name @ ''Packet'')" using assms(1,3) by auto
  then have l: "last (str_Split (CHR ''.'') (pkg @ ''.'' @ dir @ name @ ''Packet'')) = dir @ name @ ''Packet''"
    using last_str_Split by fastforce
  have "trim_first [''Clientbound'', ''Serverbound'', ''Client'', ''Server''] (dir @ name @ ''Packet'') = name @ ''Packet''"
    using assms(1) by (auto simp: TrimPrefix_def HasPrefix_def)
  then show ?thesis using assms(2) by (simp only: extractCleanName_def l Let_def) simp
qed

theorem extractCleanName_spec_witness:
  "extractCleanName (''net.minecraft.network.protocol.game'' @ ''.'' @ ''Clientbound'' @ ''KeepAlive'' @ ''Packet'') = ''KeepAlive''"
  by (rule extractCleanName_spec) simp_all

text \<open>The classification of packets goes wrong for two kinds of class: a serverbound packet whose name
  contains \<^verbatim>\<open>Client\<close> is taken for a clientbound one, and the packets of the play state, which Mojang keeps
  in the package \<^verbatim>\<open>game\<close>, are filed under a state \<^verbatim>\<open>game\<close> instead of \<^verbatim>\<open>play\<close>.\<close>

theorem classifyClean_misfiles:
  "classifyClean ''net.minecraft.network.protocol.common.ServerboundClientInformationPacket'' = (''play'', ''clientbound'') \<and>
   classifyClean ''net.minecraft.network.protocol.game.ServerboundChatPacket'' = (''game'', ''serverbound'')"
  by code_simp

text \<open>The mappings are cached under one name for all versions: once they have been loaded for a version,
  loading them for any other returns the same map, whatever the server would send.\<close>

theorem loadMappings_stale:
  assumes "loadMappings http url f = (Inr m, f')"
  shows "loadMappings http' url' f' = (Inr m, f')"
  using assms
  by (auto simp: loadMappings_def downloadFile_def split: prod.splits option.splits if_splits)

theorem loadMappings_stale_witness:
  "\<exists>m f'. loadMappings (\<lambda>_. Some (200, [97], False)) ''u1'' Map.empty = (Inr m, f') \<and>
     loadMappings (\<lambda>_. Some (200, [98], False)) ''u2'' f' = (Inr m, f')"
proof -
  obtain m f' where "loadMappings (\<lambda>_. Some (200, [97], False)) ''u1'' Map.empty = (Inr m, f')"
    by (simp add: loadMappings_def downloadFile_def)
  with loadMappings_stale [OF this] show ?thesis by blast
qed


lemma groups_partition:
  assumes "distinct keys" and "group_key ` set packets \<subseteq> set keys"
  shows "mset (concat (map (groups packets) keys)) = mset packets"
  using assms
proof (induction packets)
  case Nil
  have "concat (map (groups []) ks) = []" for ks by (induction ks) (simp_all add: groups_def)
  then show ?case by simp
next
  case (Cons p packets)
  have "mset (concat (map (groups (p # packets)) ks)) =
      (if group_key p \<in> set ks then {#p#} else {#}) + mset (concat (map (groups packets) ks))" if "distinct ks" for ks
    using that by (induction ks) (auto simp: groups_def)
  with Cons show ?case by simp
qed

lemma gen_lines_map: "list_all (\<lambda>d. pd_Bound d \<noteq> []) ds \<Longrightarrow> gen_lines ds = Some (concat (map (\<lambda>d. the (gen_line d)) ds))"
  by (induction ds) (auto simp: gen_line_def constName_def)

lemma gen_groups_map:
  assumes "list_all (\<lambda>d. pd_Bound d \<noteq> []) packets"
  shows "gen_groups packets keys = Some (concat (map (\<lambda>k. the (gen_group packets k)) keys))"
proof (induction keys)
  case Nil
  then show ?case by simp
next
  case (Cons k keys)
  have "gen_lines (groups packets k) = Some (concat (map (\<lambda>d. the (gen_line d)) (groups packets k)))"
    using assms by (intro gen_lines_map) (auto simp: groups_def list_all_iff)
  with Cons show ?case by (simp add: gen_group_def)
qed



text \<open>Packets of different states can get the same constant: the constant's name has the direction and the
  name, not the state, so that definitions which \<^verbatim>\<open>extractPacketIDs\<close> keeps apart collide in the file.\<close>

theorem constName_collision:
  assumes "pd_Bound d = pd_Bound d'" and "pd_Name d = pd_Name d'" and "pd_State d \<noteq> pd_State d'"
  shows "constName d = constName d' \<and>
    def_key (pd_State d) (pd_Bound d) (pd_Name d) \<noteq> def_key (pd_State d') (pd_Bound d') (pd_Name d')"
  using assms by (simp add: constName_def def_key_def)

theorem constName_collision_witness:
  "constName (pdef ''KeepAlive'' 0x03 ''configuration'' ''clientbound'') = constName (pdef ''KeepAlive'' 0x26 ''game'' ''clientbound'')"
  using constName_collision [of "pdef ''KeepAlive'' 0x03 ''configuration'' ''clientbound''" "pdef ''KeepAlive'' 0x26 ''game'' ''clientbound''"]
  by (simp add: pdef_def)

text \<open>Whatever goes wrong in the extraction short of a panic, the tool has definitions to write.\<close>

theorem getDefinitions_nonempty:
  assumes "extracted \<noteq> Inl XPanic"
  shows "\<exists>d ds. getDefinitions extracted = Some (d # ds)"
  using assms
  by (auto simp: getDefinitions_def fallbackDefinitions_def neq_Nil_conv split: sum.splits x_err.splits)

theorem getDefinitions_nonempty_witness: "\<exists>d ds. getDefinitions (Inl NoVersion) = Some (d # ds)"
  by (rule getDefinitions_nonempty) simp

text \<open>A successful extraction can be repeated from the cache: in the state it leaves, it returns the same
  definitions and changes nothing, even when only the manifest and the metadata can still be fetched.\<close>

theorem extractPacketIDs_cached:
  assumes "extractPacketIDs manifest metadata http unzip order1 order2 version f = (Inr defs, f')"
    and "fetchManifest http' manifest = fetchManifest http manifest"
    and "getVersionMeta http' metadata = getVersionMeta http metadata"
  shows "extractPacketIDs manifest metadata http' unzip order1 order2 version f' = (Inr defs, f')"
proof -
  from assms(1) obtain versions meta url m f1 path jar entries where
    v: "fetchManifest http manifest = Inr versions" "getVersionMeta http metadata versions version = Inr meta"
      "vm_mappings meta = Some url" "url \<noteq> []"
    and l: "loadMappings http url f = (Inr m, f1)"
    and p: "\<not> (\<forall>obf \<in> set order2. protocolPackets order1 m obf = None)"
    and j: "downloadJar http (vm_server meta) version f1 = (Inr path, f')"
    and r: "f' path = Some jar" "readJar unzip jar = Inr entries" "extract_defs order1 order2 m entries = Inr defs"
    by (auto simp: extractPacketIDs_def split: sum.splits option.splits prod.splits if_splits)
  note jc = downloadJar_cached [OF j, of http' "vm_server meta"]
  have "loadMappings http' url f' = (Inr m, f')" using jc by (intro loadMappings_cached [OF l]) blast
  with v p jc r assms(2,3) show ?thesis by (simp add: extractPacketIDs_def)
qed

end
