(* ===== verification/Tunnel.thy ===== *)
theory Tunnel
  imports Relay Handshake
begin

text \<open>
  \<^verbatim>\<open>tunnel/dialer.go\<close> and \<^verbatim>\<open>tunnel/listener.go\<close>: opening and accepting connections through a transport, and
  the wrapper that puts the packet reader and writer on them. The transport is an interface, a record of
  its methods here. The main theorem is the packet round trip between a dialled and an accepted connection.
\<close>

section \<open>Model\<close>

text \<open>
  A \<^verbatim>\<open>net.Conn\<close> and, when its dynamic type has one, its method \<^verbatim>\<open>Dial(addr string) (net.Conn, error)\<close>,
  which the proxy's default handler looks for.
\<close>

record wconn = rwc +
  wc_Dial :: "(gostring \<Rightarrow> rwc res) option"

text \<open>
  The interfaces \<^verbatim>\<open>transport.Transport\<close> and \<^verbatim>\<open>net.Listener\<close> over the state \<open>'n\<close> of the network. The first
  argument of the two transport methods is the deadline of the context, in seconds. A listener that has
  been opened is a value of \<open>'l\<close>.
\<close>

record ('n, 'l) transport =
  tr_Dial :: "nat option \<Rightarrow> gostring \<Rightarrow> 'n \<Rightarrow> wconn res \<times> 'n"
  tr_Listen :: "nat option \<Rightarrow> gostring \<Rightarrow> 'n \<Rightarrow> 'l res \<times> 'n"
  ln_Accept :: "'l \<Rightarrow> 'n \<Rightarrow> wconn res \<times> 'n"
  ln_Close :: "'l \<Rightarrow> 'n \<Rightarrow> go_err option \<times> 'n"

record MineConnWrapper =
  mw_Reader :: int
  mw_Writer :: int
  mw_Conn :: wconn

subsection \<open>Dialer\<close>

text \<open>A transport may be \<^verbatim>\<open>nil\<close> (\<open>None\<close>); calling one of its methods then panics.\<close>

definition transport_Dial :: "('n, 'l) transport option \<Rightarrow> nat option \<Rightarrow> gostring \<Rightarrow> 'n \<Rightarrow> wconn res \<times> 'n" where
  "transport_Dial tr ctx addr n = (case tr of None \<Rightarrow> (Inl Panic, n) | Some t \<Rightarrow> tr_Dial t ctx addr n)"

record ('n, 'l) Dialer =
  dl_transport :: "('n, 'l) transport option"
  dl_timeout :: nat

text \<open>\<open>tcp\<close> is \<^verbatim>\<open>TCPTransport\<close> with a dial timeout in seconds.\<close>

definition NewDialer :: "(nat \<Rightarrow> ('n, 'l) transport) \<Rightarrow> ('n, 'l) transport option \<Rightarrow> ('n, 'l) Dialer" where
  "NewDialer tcp tr =
     \<lparr>dl_transport = Some (case tr of None \<Rightarrow> tcp 30 | Some t \<Rightarrow> t), dl_timeout = 30\<rparr>"

definition Dialer_Dial :: "('n, 'l) Dialer \<Rightarrow> gostring \<Rightarrow> 'n \<Rightarrow> wconn res \<times> 'n" where
  "Dialer_Dial d addr = transport_Dial (dl_transport d) (Some (dl_timeout d)) addr"

definition Dialer_DialContext :: "('n, 'l) Dialer \<Rightarrow> nat option \<Rightarrow> gostring \<Rightarrow> 'n \<Rightarrow> wconn res \<times> 'n" where
  "Dialer_DialContext d ctx addr = transport_Dial (dl_transport d) ctx addr"

definition DialMinecraft :: "('n, 'l) Dialer \<Rightarrow> gostring \<Rightarrow> 'n \<Rightarrow> MineConnWrapper res \<times> 'n" where
  "DialMinecraft d addr n =
     (case Dialer_Dial d addr n of
        (Inl e, n) \<Rightarrow> (Inl e, n)
      | (Inr c, n) \<Rightarrow> (Inr \<lparr>mw_Reader = -1, mw_Writer = -1, mw_Conn = c\<rparr>, n))"

definition Dialer_SetTransport :: "('n, 'l) transport option \<Rightarrow> ('n, 'l) Dialer \<Rightarrow> ('n, 'l) Dialer" where
  "Dialer_SetTransport tr d = d\<lparr>dl_transport := tr\<rparr>"

definition Dialer_Transport :: "('n, 'l) Dialer \<Rightarrow> ('n, 'l) transport option" where
  "Dialer_Transport d = dl_transport d"

definition MineConnWrapper_ReadRawPacket :: "mem \<Rightarrow> MineConnWrapper \<Rightarrow> RawPacket res \<times> mem \<times> MineConnWrapper" where
  "MineConnWrapper_ReadRawPacket m w =
     (case ReadRawPacket conn_reader m (rwc_in (mw_Conn w)) of
        (r, m, ci) \<Rightarrow> (r, m, w\<lparr>mw_Conn := (mw_Conn w)\<lparr>rwc_in := ci\<rparr>\<rparr>))"

text \<open>\<^verbatim>\<open>Reader.ReadPacket\<close> and \<^verbatim>\<open>Writer.WritePacket\<close> of a wrapper.\<close>

definition wrapper_ReadPacket :: "zlib \<Rightarrow> mem \<Rightarrow> MineConnWrapper \<Rightarrow> Packet res \<times> mem \<times> MineConnWrapper" where
  "wrapper_ReadPacket z m w =
     (case ReadPacket z (mw_Reader w) conn_reader m (rwc_in (mw_Conn w)) of
        (r, m, ci) \<Rightarrow> (r, m, w\<lparr>mw_Conn := (mw_Conn w)\<lparr>rwc_in := ci\<rparr>\<rparr>))"

definition wrapper_WritePacket :: "zlib \<Rightarrow> Packet \<Rightarrow> mem \<Rightarrow> MineConnWrapper \<Rightarrow> go_err option \<times> mem \<times> MineConnWrapper" where
  "wrapper_WritePacket z p m w =
     (case WritePacket z (mw_Writer w) conn_Write p m (rwc_out (mw_Conn w)) of
        (e, m, co) \<Rightarrow> (e, m, w\<lparr>mw_Conn := (mw_Conn w)\<lparr>rwc_out := co\<rparr>\<rparr>))"

subsection \<open>Listener\<close>

text \<open>\<open>li_open\<close> is the field \<^verbatim>\<open>ln\<close>, with the transport that opened it.\<close>

record ('n, 'l) Listener =
  li_transport :: "('n, 'l) transport option"
  li_open :: "(('n, 'l) transport \<times> 'l) option"

definition NewListener :: "('n, 'l) transport option \<Rightarrow> ('n, 'l) Listener" where
  "NewListener tr = \<lparr>li_transport = tr, li_open = None\<rparr>"

definition Listener_Listen :: "gostring \<Rightarrow> ('n, 'l) Listener \<Rightarrow> 'n \<Rightarrow> go_err option \<times> ('n, 'l) Listener \<times> 'n" where
  "Listener_Listen addr l n =
     (case li_transport l of
        None \<Rightarrow> (Some Panic, l, n)
      | Some tr \<Rightarrow>
          case tr_Listen tr None addr n of
            (Inl e, n) \<Rightarrow> (Some e, l, n)
          | (Inr ln, n) \<Rightarrow> (None, l\<lparr>li_open := Some (tr, ln)\<rparr>, n))"

definition Listener_Accept :: "('n, 'l) Listener \<Rightarrow> 'n \<Rightarrow> MineConnWrapper res \<times> 'n" where
  "Listener_Accept l n =
     (case li_open l of
        None \<Rightarrow> (Inl ErrClosed, n)
      | Some (tr, ln) \<Rightarrow>
          case ln_Accept tr ln n of
            (Inl e, n) \<Rightarrow> (Inl e, n)
          | (Inr c, n) \<Rightarrow> (Inr \<lparr>mw_Reader = -1, mw_Writer = -1, mw_Conn = c\<rparr>, n))"

definition Listener_Close :: "('n, 'l) Listener \<Rightarrow> 'n \<Rightarrow> go_err option \<times> 'n" where
  "Listener_Close l n = (case li_open l of None \<Rightarrow> (None, n) | Some (tr, ln) \<Rightarrow> ln_Close tr ln n)"

text \<open>\<open>ln_Addr\<close> is the method of the listener that is open.\<close>

definition Listener_Addr :: "(('n, 'l) transport \<Rightarrow> 'l \<Rightarrow> 'addr) \<Rightarrow> ('n, 'l) Listener \<Rightarrow> 'addr option" where
  "Listener_Addr ln_Addr l = (case li_open l of None \<Rightarrow> None | Some (tr, ln) \<Rightarrow> Some (ln_Addr tr ln))"

definition Listener_SetTransport :: "('n, 'l) transport option \<Rightarrow> ('n, 'l) Listener \<Rightarrow> ('n, 'l) Listener" where
  "Listener_SetTransport tr l = l\<lparr>li_transport := tr\<rparr>"

section \<open>Properties\<close>

text \<open>A packet written by the side that dialled is read by the side that accepted, when the transport
  carries the bytes: both wrappers start without compression, whatever their transports are.\<close>

theorem Tunnel_roundtrip:
  assumes "DialMinecraft d addr n1 = (Inr a, n1')" and "Listener_Accept l n2 = (Inr b, n2')"
    and "wrapper_WritePacket z p m a = (None, m', a')" and "int (length (payload p)) \<le> MaxPacketSize"
    and "pending (rwc_in (mw_Conn b)) =
      drop (length (sent (rwc_out (mw_Conn a)))) (sent (rwc_out (mw_Conn a'))) @ rest"
  shows "\<exists>m2' b'. wrapper_ReadPacket z m2 b = (Inr p, m2', b') \<and> pending (rwc_in (mw_Conn b')) = rest"
proof -
  have t: "mw_Writer a = -1" "mw_Reader b = -1"
    using assms(1,2) by (auto simp: DialMinecraft_def Listener_Accept_def split: prod.splits sum.splits option.splits)
  obtain co where w: "WritePacket z (-1) conn_Write p m (rwc_out (mw_Conn a)) = (None, m', co)"
    and a': "rwc_out (mw_Conn a') = co"
    using assms(3) t by (auto simp: wrapper_WritePacket_def split: prod.splits)
  have "snd (fst (conn_Write (frame (payload p)) (rwc_out (mw_Conn a)))) = None"
      "co = snd (conn_Write (frame (payload p)) (rwc_out (mw_Conn a)))"
    using WritePacket_plain [of "-1" conn_Write p m "rwc_out (mw_Conn a)" z] w by (auto simp: sends_def)
  then have "sent co = sent (rwc_out (mw_Conn a)) @ frame (payload p)"
    using conn_snk.write_all [where w = "rwc_out (mw_Conn a)" and bs = "frame (payload p)"] by (metis prod.collapse)
  with assms(5) a' have "pending (rwc_in (mw_Conn b)) = frame (payload p) @ rest" by simp
  with next_body_frame [OF assms(4)]
  have nb: "next_body (pending (rwc_in (mw_Conn b))) (fin (rwc_in (mw_Conn b))) = Inr (payload p, rest)" by simp
  have "parse_body z (-1) (payload p) = Inr p" by (simp add: parse_body_def)
  with conn_src.ReadPacket_result [of z "-1" m2 "rwc_in (mw_Conn b)"] nb
    conn_src.ReadPacket_rest [OF nb, of z "-1" m2]
  show ?thesis using t
    by (cases "ReadPacket z (-1) conn_reader m2 (rwc_in (mw_Conn b))") (auto simp: wrapper_ReadPacket_def)
qed

text \<open>A loopback network for the witnesses: connections are handed out from a list.\<close>

definition list_transport :: "(wconn list, unit) transport" where
  "list_transport =
     \<lparr>tr_Dial = (\<lambda>_ _ n. case n of [] \<Rightarrow> (Inl ErrTimeout, n) | c # n \<Rightarrow> (Inr c, n)),
      tr_Listen = (\<lambda>_ _ n. (Inr (), n)),
      ln_Accept = (\<lambda>_ n. case n of [] \<Rightarrow> (Inl ErrClosed, n) | c # n \<Rightarrow> (Inr c, n)),
      ln_Close = (\<lambda>_ n. (None, []))\<rparr>"

definition plain_conn :: "byte list \<Rightarrow> wconn" where
  "plain_conn bs = \<lparr>rwc_in = \<lparr>pending = bs, fin = EOF\<rparr>, rwc_out = \<lparr>sent = [], room = None, ofail = EOF\<rparr>,
     rwc_closed = False, wc_Dial = None\<rparr>"

theorem Tunnel_roundtrip_witness:
  "\<exists>m2' b'. wrapper_ReadPacket stored_zlib empty_mem \<lparr>mw_Reader = -1, mw_Writer = -1, mw_Conn = plain_conn [3, 7, 10, 5, 9]\<rparr> =
     (Inr \<lparr>pkt_ID = 7, pkt_Data = [10, 5]\<rparr>, m2', b') \<and> pending (rwc_in (mw_Conn b')) = [9]"
proof -
  let ?d = "NewDialer (\<lambda>_. list_transport) None"
  let ?a = "\<lparr>mw_Reader = -1, mw_Writer = -1, mw_Conn = plain_conn []\<rparr>"
  let ?b = "\<lparr>mw_Reader = -1, mw_Writer = -1, mw_Conn = plain_conn [3, 7, 10, 5, 9]\<rparr>"
  let ?p = "\<lparr>pkt_ID = 7, pkt_Data = [10, 5]\<rparr> :: Packet"
  have 1: "DialMinecraft ?d [] [plain_conn []] = (Inr ?a, [])"
    by (simp add: DialMinecraft_def Dialer_Dial_def transport_Dial_def NewDialer_def list_transport_def)
  have 2: "Listener_Accept \<lparr>li_transport = Some list_transport, li_open = Some (list_transport, ())\<rparr>
      [plain_conn [3, 7, 10, 5, 9]] = (Inr ?b, [])"
    by (simp add: Listener_Accept_def list_transport_def)
  let ?x = "WritePacket stored_zlib (-1) conn_Write ?p empty_mem \<lparr>sent = [], room = None, ofail = EOF\<rparr>"
  have f: "frame (payload ?p) = [3, 7, 10, 5]" by (simp add: payload_def leb_i32 frame_single)
  obtain m' where "?x = (None, m', \<lparr>sent = [3, 7, 10, 5], room = None, ofail = EOF\<rparr>)"
    using WritePacket_plain [of "-1" conn_Write ?p empty_mem "\<lparr>sent = [], room = None, ofail = EOF\<rparr>" stored_zlib]
    by (cases ?x) (auto simp: sends_def f conn_Write_def)
  then obtain a' where 3: "wrapper_WritePacket stored_zlib ?p empty_mem ?a = (None, m', a')"
    "sent (rwc_out (mw_Conn a')) = [3, 7, 10, 5]"
    by (simp add: wrapper_WritePacket_def plain_conn_def)
  have "length (payload ?p) = 3" by (simp add: payload_def leb_i32)
  with Tunnel_roundtrip [OF 1 2 3(1), of "[9]" empty_mem] 3(2) show ?thesis
    by (simp add: plain_conn_def MaxPacketSize_def)
qed

text \<open>A \<^verbatim>\<open>nil\<close> transport: the dialer replaces it by TCP when it is created, not when it is changed; the
  listener never does, and its \<^verbatim>\<open>Listen\<close> panics.\<close>

theorem nil_transport:
  "Dialer_Dial (NewDialer tcp None) addr n = tr_Dial (tcp 30) (Some 30) addr n \<and>
   fst (Dialer_Dial (Dialer_SetTransport None d) addr n) = Inl Panic \<and>
   fst (Listener_Listen addr (NewListener None) n) = Some Panic"
  by (simp add: Dialer_Dial_def NewDialer_def Dialer_SetTransport_def Listener_Listen_def NewListener_def transport_Dial_def)

text \<open>\<^verbatim>\<open>Accept\<close> before a successful \<^verbatim>\<open>Listen\<close> reports the closed error, a failed \<^verbatim>\<open>Listen\<close> leaves an
  open listener in place, and changing the transport does not touch the listener that is open.\<close>

theorem Listener_lifecycle:
  "fst (Listener_Accept (NewListener tr) n) = Inl ErrClosed \<and> Listener_Addr ln_Addr (NewListener tr) = None \<and>
   (case Listener_Listen addr l n of
      (Some e, l', n') \<Rightarrow> l' = l
    | (None, l', n') \<Rightarrow> \<exists>t ln. li_transport l = Some t \<and> li_open l' = Some (t, ln) \<and> li_transport l' = li_transport l) \<and>
   Listener_Accept (Listener_SetTransport tr l) n = Listener_Accept l n \<and>
   Listener_Close (Listener_SetTransport tr l) n = Listener_Close l n"
  by (auto simp: NewListener_def Listener_Accept_def Listener_Addr_def Listener_Listen_def Listener_SetTransport_def Listener_Close_def
      split: prod.splits sum.splits option.splits)

end
