(* ===== verification/Proxy.thy ===== *)
theory Proxy
  imports Tunnel
begin

text \<open>
  \<^verbatim>\<open>proxy/proxy.go\<close>: accepting clients, reading their handshake and calling the handler, and the default
  handler. The theorems: what a client's first bytes lead to, on every input; that \<^verbatim>\<open>itoa\<close> prints decimal
  numbers; and that the default handler cannot work.
\<close>

section \<open>Model\<close>

record HandlerContext =
  hc_Client :: MineConnWrapper
  hc_Host :: gostring
  hc_Port :: u16
  hc_State :: i32

subsection \<open>Printing the port\<close>

text \<open>
  The loop of \<^verbatim>\<open>itoa\<close>: digits are stored from the end of the buffer; storing in front of it panics. Go's
  \<^verbatim>\<open>%\<close> and \<^verbatim>\<open>/\<close> agree with \<open>mod\<close> and \<open>div\<close> here because the loop runs for positive numbers only.
\<close>

function itoa_loop :: "int \<Rightarrow> nat \<Rightarrow> byte list \<Rightarrow> (nat \<times> byte list) res" where
  "itoa_loop n i buf =
     (if n > 0 then
        (if i = 0 \<or> length buf < i then Inl Panic
         else itoa_loop (n div 10) (i - 1) (buf[i - 1 := word_of_int (48 + n mod 10)]))
      else Inr (i, buf))"
  by pat_completeness auto
termination
  by (relation "measure (\<lambda>(n, i, buf). nat n)") auto

declare itoa_loop.simps [simp del]

definition itoa :: "int \<Rightarrow> gostring res" where
  "itoa n =
     (if n = 0 then Inr (bytes_of ''0'')
      else case itoa_loop n 20 (replicate 20 0) of
        Inl e \<Rightarrow> Inl e
      | Inr (i, buf) \<Rightarrow> Inr (drop i buf))"

subsection \<open>The handlers\<close>

text \<open>
  What the default handler ends in: a panic, a failed dial, or the relay between the client's connection
  and the server's. Logging is left out.
\<close>

datatype handler_end = HPanic | HDialError go_err | HRelay rwc

text \<open>
  The type assertion on the client's connection panics when it has no \<^verbatim>\<open>Dial\<close> method.
\<close>

definition defaultHandler :: "HandlerContext \<Rightarrow> handler_end" where
  "defaultHandler hc =
     (case itoa (uint (hc_Port hc)) of
        Inl e \<Rightarrow> HPanic
      | Inr portStr \<Rightarrow>
          let hedef = hc_Host hc @ bytes_of '':'' @ portStr in
          case wc_Dial (mw_Conn (hc_Client hc)) of
            None \<Rightarrow> HPanic
          | Some dial \<Rightarrow> (case dial hedef of Inl e \<Rightarrow> HDialError e | Inr server \<Rightarrow> HRelay server))"

subsection \<open>The proxy\<close>

text \<open>
  The proxy with its listener, a dialer it never uses, its handler and the number of clients being
  served (\<^verbatim>\<open>active\<close>).
\<close>

record ('n, 'l) Proxy =
  px_ln :: "('n, 'l) Listener"
  px_dialer :: "('n, 'l) Dialer"
  px_handler :: "HandlerContext \<Rightarrow> handler_end"
  px_active :: nat
  px_closed :: bool

definition NewProxy :: "('n, 'l) Listener \<Rightarrow> ('n, 'l) Dialer \<Rightarrow> ('n, 'l) Proxy" where
  "NewProxy ln dialer =
     \<lparr>px_ln = ln, px_dialer = dialer, px_handler = (\<lambda>ctx. defaultHandler ctx), px_active = 0, px_closed = False\<rparr>"

definition SetHandler :: "(HandlerContext \<Rightarrow> handler_end) \<Rightarrow> ('n, 'l) Proxy \<Rightarrow> ('n, 'l) Proxy" where
  "SetHandler h p = p\<lparr>px_handler := h\<rparr>"

text \<open>
  One round of the loop of \<^verbatim>\<open>Start\<close>: it returns (with an error or without), or it starts to serve a client.
\<close>

datatype start_round = Returns "go_err option" | Serves MineConnWrapper

definition Start_round :: "('n, 'l) Proxy \<Rightarrow> 'n \<Rightarrow> start_round \<times> ('n, 'l) Proxy \<times> 'n" where
  "Start_round p n =
     (if px_closed p then (Returns None, p, n)
      else case Listener_Accept (px_ln p) n of
        (Inl e, n) \<Rightarrow> (Returns (Some e), p, n)
      | (Inr client, n) \<Rightarrow> (Serves client, p\<lparr>px_active := px_active p + 1\<rparr>, n))"

text \<open>\<^verbatim>\<open>Stop\<close> up to \<^verbatim>\<open>active.Wait\<close>, which returns when no client is being served.\<close>

definition Stop :: "('n, 'l) Proxy \<Rightarrow> 'n \<Rightarrow> ('n, 'l) Proxy \<times> 'n" where
  "Stop p n = (let p = p\<lparr>px_closed := True\<rparr> in case Listener_Close (px_ln p) n of (_, n) \<Rightarrow> (p, n))"

definition Stop_returns :: "('n, 'l) Proxy \<Rightarrow> bool" where
  "Stop_returns p \<longleftrightarrow> px_active p = 0"

text \<open>
  \<^verbatim>\<open>handleClient\<close>: the call of the handler, if there was one, and what it ended in; the client's wrapper
  afterwards, closed by the deferred call. \<open>Done\<close> on \<^verbatim>\<open>active\<close> is deferred as well.
\<close>

definition close_wrapper :: "MineConnWrapper \<Rightarrow> MineConnWrapper" where
  "close_wrapper w = w\<lparr>mw_Conn := (mw_Conn w)\<lparr>rwc_closed := True\<rparr>\<rparr>"

definition handleClient ::
  "zlib \<Rightarrow> MineConnWrapper \<Rightarrow> mem \<Rightarrow> ('n, 'l) Proxy
     \<Rightarrow> (HandlerContext \<times> handler_end) option \<times> MineConnWrapper \<times> mem \<times> ('n, 'l) Proxy" where
  "handleClient z client m p =
     (let p' = p\<lparr>px_active := px_active p - 1\<rparr> in
      case wrapper_ReadPacket z m client of
        (Inl e, m, client) \<Rightarrow> (None, close_wrapper client, m, p')
      | (Inr pkt, m, client) \<Rightarrow>
          case ParseHandshake pkt of
            Inl e \<Rightarrow> (None, close_wrapper client, m, p')
          | Inr (host, port, state) \<Rightarrow>
              let hc = \<lparr>hc_Client = client, hc_Host = host, hc_Port = port, hc_State = state\<rparr> in
              (Some (hc, px_handler p hc), close_wrapper client, m, p'))"

section \<open>Decimal numbers\<close>

fun decimal :: "nat \<Rightarrow> byte list" where
  "decimal n = (if n < 10 then [word_of_nat (48 + n)] else decimal (n div 10) @ [word_of_nat (48 + n mod 10)])"

declare decimal.simps [simp del]

definition digits_value :: "byte list \<Rightarrow> nat" where
  "digits_value ds = foldl (\<lambda>v d. v * 10 + (unat d - 48)) 0 ds"

lemma unat_digit: "d < 10 \<Longrightarrow> unat (word_of_nat (48 + d) :: byte) = 48 + d"
  by (simp add: unat_of_nat take_bit_nat_eq_self del: of_nat_add)

lemma digits_value_decimal: "digits_value (decimal n) = n"
proof (induction n rule: decimal.induct)
  case (1 n)
  then show ?case
    by (subst decimal.simps) (simp add: digits_value_def unat_digit del: of_nat_add)
qed

lemma decimal_digits: "d \<in> set (decimal n) \<Longrightarrow> 48 \<le> unat d \<and> unat d \<le> 57"
proof (induction n rule: decimal.induct)
  case (1 n)
  then show ?case
    by (subst (asm) (2) decimal.simps) (auto simp: unat_digit simp del: of_nat_add split: if_splits)
qed

lemma length_decimal: "0 < k \<Longrightarrow> n < 10 ^ k \<Longrightarrow> length (decimal n) \<le> k"
proof (induction n arbitrary: k rule: decimal.induct)
  case (1 n)
  show ?case
  proof (cases "n < 10")
    case True
    with 1 show ?thesis by (subst decimal.simps) simp
  next
    case False
    with 1(2,3) obtain j where k: "k = Suc j" "0 < j" by (cases k; cases "k - 1") auto
    with 1(3) have "n div 10 < 10 ^ j" by (simp add: less_mult_imp_div_less mult.commute)
    from 1(1) [OF False k(2) this] k False show ?thesis by (subst decimal.simps) simp
  qed
qed

lemma decimal_hd: "decimal n \<noteq> [] \<and> (0 < n \<longrightarrow> hd (decimal n) \<noteq> 48)"
proof (induction n rule: decimal.induct)
  case (1 n)
  have "(word_of_nat (48 + n) :: byte) \<noteq> 48" if "0 < n" "n < 10"
  proof
    assume "(word_of_nat (48 + n) :: byte) = 48"
    then have "unat (word_of_nat (48 + n) :: byte) = 48" by (simp del: of_nat_add)
    with unat_digit [OF that(2)] that(1) show False by (simp del: of_nat_add)
  qed
  with 1 show ?case by (subst (1 2) decimal.simps) (auto simp: hd_append)
qed

text \<open>The loop stores the digits right-aligned in front of \<open>i\<close>.\<close>

lemma itoa_loop_decimal:
  assumes "0 < n" and "length (decimal n) \<le> i" and "i \<le> length buf"
  shows "itoa_loop (int n) i buf =
    Inr (i - length (decimal n), take (i - length (decimal n)) buf @ decimal n @ drop i buf)"
  using assms
proof (induction n arbitrary: i buf rule: decimal.induct)
  case (1 n)
  let ?d = "word_of_nat (48 + n mod 10) :: byte" and ?buf = "buf[i - 1 := word_of_nat (48 + n mod 10)]"
  have i: "0 < i" using 1(3) decimal_hd [of n] by (cases i) auto
  have "48 + int n mod 10 = int (48 + n mod 10)" by (simp add: zmod_int)
  then have d: "(word_of_int (48 + int n mod 10) :: byte) = ?d" by (simp only: of_int_of_nat_eq)
  have step: "itoa_loop (int n) i buf = itoa_loop (int (n div 10)) (i - 1) ?buf"
    using 1(2,4) i d by (subst itoa_loop.simps) (simp add: of_nat_div del: of_nat_add)
  have upd: "?buf = take (i - 1) buf @ ?d # drop i buf"
    using i 1(4) by (simp add: upd_conv_take_nth_drop)
  show ?case
  proof (cases "n < 10")
    case True
    then have "decimal n = [?d]" by (subst decimal.simps) simp
    with True step upd show ?thesis by (subst (asm) itoa_loop.simps) simp
  next
    case False
    then have dec: "decimal n = decimal (n div 10) @ [?d]" by (subst decimal.simps) simp
    have l: "length (decimal (n div 10)) \<le> i - 1" using 1(3) dec by simp
    have "itoa_loop (int (n div 10)) (i - 1) ?buf =
        Inr (i - 1 - length (decimal (n div 10)),
          take (i - 1 - length (decimal (n div 10))) ?buf @ decimal (n div 10) @ drop (i - 1) ?buf)"
      using 1(1) [OF False _ l, of ?buf] False 1(4) by simp
    moreover have "drop (i - 1) ?buf = ?d # drop i buf" "take (i - 1 - k) ?buf = take (i - 1 - k) buf" for k
      using i 1(4) unfolding upd by simp_all
    ultimately show ?thesis unfolding step dec by simp
  qed
qed

section \<open>Properties\<close>

text \<open>\<^verbatim>\<open>itoa\<close> prints every non-negative 64-bit number in decimal: digits only, no leading zero, the value
  of the digits is the number. (It prints nothing at all for a negative number.)\<close>

theorem itoa_spec:
  assumes "n < 2 ^ 63"
  shows "\<exists>s. itoa (int n) = Inr s \<and> digits_value s = n \<and> list_all (\<lambda>d. 48 \<le> unat d \<and> unat d \<le> 57) s \<and>
    (hd s = 48 \<longleftrightarrow> n = 0) \<and> s \<noteq> [] \<and> itoa (- 1 - int n) = Inr []"
proof -
  have neg: "itoa (- 1 - int n) = Inr []" by (simp add: itoa_def itoa_loop.simps)
  have "itoa (int n) = Inr (decimal n)"
  proof (cases "n = 0")
    case True
    have "decimal 0 = [48]" by (subst decimal.simps) simp
    with True show ?thesis by (simp add: itoa_def bytes_of_def)
  next
    case False
    have "n < 10 ^ 20" using assms by simp
    then have l: "length (decimal n) \<le> 20" by (intro length_decimal) simp_all
    show ?thesis using False itoa_loop_decimal [of n 20 "replicate 20 0"] l by (simp add: itoa_def)
  qed
  moreover have "hd (decimal n) = 48 \<longleftrightarrow> n = 0"
    using decimal_hd [of n] by (cases "n = 0") (simp_all add: decimal.simps [of 0])
  ultimately show ?thesis
    using neg digits_value_decimal [of n] decimal_digits [of _ n] decimal_hd [of n] by (auto simp: list_all_iff)
qed

theorem itoa_spec_witness:
  "\<exists>s. itoa 25565 = Inr s \<and> digits_value s = 25565 \<and> hd s \<noteq> 48"
  using itoa_spec [of 25565] by auto

text \<open>C19: a client is served as its handshake says: when the first frame it sends is a well-formed handshake,
  the handler is called with the host, the port and the next state of that handshake and with the rest of
  the stream unread; when it is not, the handler is not called. In every case the client's connection is
  closed and the number of active clients goes down.\<close>

theorem handleClient_spec:
  assumes "mw_Reader client = -1" and "0 < px_active p"
  shows "case handleClient z client m p of (call, client', m', p') \<Rightarrow>
    rwc_closed (mw_Conn client') \<and> px_active p' = px_active p - 1 \<and>
    (case next_body (pending (rwc_in (mw_Conn client))) (fin (rwc_in (mw_Conn client))) of
       Inl e \<Rightarrow> call = None
     | Inr (body, rest) \<Rightarrow>
         case parse_payload body of
           Inl e \<Rightarrow> call = None
         | Inr pkt \<Rightarrow>
             case ParseHandshake pkt of
               Inl e \<Rightarrow> call = None
             | Inr (host, port, state) \<Rightarrow>
                 \<exists>hc. call = Some (hc, px_handler p hc) \<and> hc_Host hc = host \<and> hc_Port hc = port \<and>
                   hc_State hc = state \<and> pending (rwc_in (mw_Conn (hc_Client hc))) = rest)"
proof -
  let ?c = "rwc_in (mw_Conn client)"
  obtain r m' ci where rp: "ReadPacket z (-1) conn_reader m ?c = (r, m', ci)" by (metis prod.exhaust)
  have res: "r = (case next_body (pending ?c) (fin ?c) of Inl e \<Rightarrow> Inl e | Inr (body, rest) \<Rightarrow> parse_payload body)"
    using conn_src.ReadPacket_result [of z "-1" m ?c] rp by (simp add: parse_body_def cong: sum.case_cong prod.case_cong)
  have rest: "pending ci = rest" if "next_body (pending ?c) (fin ?c) = Inr (body, rest)" for body rest
    using conn_src.ReadPacket_rest [OF that, of z "-1" m] rp by simp
  show ?thesis
    using assms rp res rest
    by (auto simp: handleClient_def wrapper_ReadPacket_def close_wrapper_def Let_def
        split: sum.splits prod.splits)
qed

theorem handleClient_spec_witness:
  "\<exists>hc e client' m' p'. handleClient stored_zlib
      \<lparr>mw_Reader = -1, mw_Writer = -1, mw_Conn = plain_conn [7, 0, 5, 1, 97, 1, 2, 1, 9]\<rparr> empty_mem
      (NewProxy (NewListener (Some list_transport)) (NewDialer (\<lambda>_. list_transport) None)\<lparr>px_active := 1\<rparr>) =
      (Some (hc, e), client', m', p') \<and> hc_Host hc = [97] \<and> hc_Port hc = 0x102 \<and> hc_State hc = 1"
proof -
  let ?w = "\<lparr>mw_Reader = -1, mw_Writer = -1, mw_Conn = plain_conn [7, 0, 5, 1, 97, 1, 2, 1, 9]\<rparr>"
  have n: "next_body [7, 0, 5, 1, 97, 1, 2, 1, 9] EOF = Inr ([0, 5, 1, 97, 1, 2, 1], [9])" by code_simp
  have q: "parse_payload [0, 5, 1, 97, 1, 2, 1] = Inr \<lparr>pkt_ID = 0, pkt_Data = [5, 1, 97, 1, 2, 1]\<rparr>" by code_simp
  have h: "ParseHandshake \<lparr>pkt_ID = 0, pkt_Data = [5, 1, 97, 1, 2, 1]\<rparr> = Inr ([97], 0x102, 1)" by code_simp
  show ?thesis
    using handleClient_spec [of ?w "NewProxy (NewListener (Some list_transport)) (NewDialer (\<lambda>_. list_transport) None)\<lparr>px_active := 1\<rparr>"
        stored_zlib empty_mem] n q h
    by (simp add: plain_conn_def split: prod.splits) blast
qed

text \<open>With the default handler the proxy forwards nothing: a client connection that has no \<^verbatim>\<open>Dial\<close> method
  of its own (no transport's connections have one) makes every well-formed handshake end in a panic. The
  dialer the proxy was created with is never used.\<close>

theorem defaultHandler_panics:
  assumes "handleClient z client m (NewProxy ln dialer) = (Some (hc, e), client', m', p')"
    and "wc_Dial (mw_Conn client) = None"
  shows "e = HPanic"
proof -
  have "e = defaultHandler hc" "wc_Dial (mw_Conn (hc_Client hc)) = None"
    using assms by (auto simp: handleClient_def wrapper_ReadPacket_def NewProxy_def Let_def split: sum.splits prod.splits)
  then show ?thesis by (auto simp: defaultHandler_def split: sum.splits)
qed

theorem defaultHandler_panics_witness:
  "\<exists>hc client' m' p'. handleClient stored_zlib
      \<lparr>mw_Reader = -1, mw_Writer = -1, mw_Conn = plain_conn [7, 0, 5, 1, 97, 1, 2, 1, 9]\<rparr> empty_mem
      (NewProxy (NewListener (Some list_transport)) (NewDialer (\<lambda>_. list_transport) None)) =
      (Some (hc, HPanic), client', m', p')"
proof -
  let ?w = "\<lparr>mw_Reader = -1, mw_Writer = -1, mw_Conn = plain_conn [7, 0, 5, 1, 97, 1, 2, 1, 9]\<rparr>"
  let ?p = "NewProxy (NewListener (Some list_transport)) (NewDialer (\<lambda>_. list_transport) None)"
  have n: "next_body [7, 0, 5, 1, 97, 1, 2, 1, 9] EOF = Inr ([0, 5, 1, 97, 1, 2, 1], [9])" by code_simp
  have q: "parse_payload [0, 5, 1, 97, 1, 2, 1] = Inr \<lparr>pkt_ID = 0, pkt_Data = [5, 1, 97, 1, 2, 1]\<rparr>" by code_simp
  have h: "ParseHandshake \<lparr>pkt_ID = 0, pkt_Data = [5, 1, 97, 1, 2, 1]\<rparr> = Inr ([97], 0x102, 1)" by code_simp
  have "fst (ReadPacket stored_zlib (-1) conn_reader empty_mem \<lparr>pending = [7, 0, 5, 1, 97, 1, 2, 1, 9], fin = EOF\<rparr>) =
      Inr \<lparr>pkt_ID = 0, pkt_Data = [5, 1, 97, 1, 2, 1]\<rparr>"
    using conn_src.ReadPacket_result [of stored_zlib "-1" empty_mem "\<lparr>pending = [7, 0, 5, 1, 97, 1, 2, 1, 9], fin = EOF\<rparr>"] n q
    by (simp add: parse_body_def)
  then obtain m1 ci where "ReadPacket stored_zlib (-1) conn_reader empty_mem \<lparr>pending = [7, 0, 5, 1, 97, 1, 2, 1, 9], fin = EOF\<rparr> =
      (Inr \<lparr>pkt_ID = 0, pkt_Data = [5, 1, 97, 1, 2, 1]\<rparr>, m1, ci)" by (metis prod.collapse)
  then obtain hc e client' m' p' where "handleClient stored_zlib ?w empty_mem ?p = (Some (hc, e), client', m', p')"
    using h by (auto simp: handleClient_def wrapper_ReadPacket_def plain_conn_def Let_def split: prod.splits)
  with defaultHandler_panics [OF this] show ?thesis by (simp add: plain_conn_def)
qed

end
