(* ===== verification/Proxy_Run.thy ===== *)
theory Proxy_Run
  imports Proxy
begin

text \<open>
  The proxy at work (\<^verbatim>\<open>proxy/proxy.go\<close>): the goroutine of \<^verbatim>\<open>Start\<close>, one goroutine per client, and a call of
  \<^verbatim>\<open>Stop\<close>, in every interleaving. \<^verbatim>\<open>Start\<close> and \<^verbatim>\<open>Stop\<close> are split where another goroutine can come between;
  without interruption they are \<open>Start_round\<close> and \<open>Stop\<close>. The theorems: the count of active clients is right in
  every state, \<^verbatim>\<open>Start\<close> returns once \<^verbatim>\<open>Stop\<close> has closed the listener, and when \<^verbatim>\<open>Stop\<close> returns at most one client
  is left, which can happen.
\<close>

section \<open>Model\<close>

text \<open>
  \<^verbatim>\<open>Start\<close>: before the test of \<^verbatim>\<open>closed\<close>, before \<^verbatim>\<open>Accept\<close>, with a client that is not counted yet, returned.
  \<^verbatim>\<open>Stop\<close>: not called, before \<^verbatim>\<open>ln.Close\<close>, in \<^verbatim>\<open>active.Wait\<close>, returned.
\<close>

datatype start_pc = SCheck | SAccept | SGot MineConnWrapper | SReturned "go_err option"

datatype stop_pc = TIdle | TClosing | TWaiting | TReturned

record ('n, 'l) proxy_run =
  pr_px :: "('n, 'l) Proxy"
  pr_net :: 'n
  pr_mem :: mem
  pr_start :: start_pc
  pr_stop :: stop_pc
  pr_serving :: "MineConnWrapper list"
  pr_crashed :: bool

definition run_start :: "('n, 'l) Proxy \<Rightarrow> 'n \<Rightarrow> mem \<Rightarrow> ('n, 'l) proxy_run" where
  "run_start p n m =
     \<lparr>pr_px = p, pr_net = n, pr_mem = m, pr_start = SCheck, pr_stop = TIdle, pr_serving = [], pr_crashed = False\<rparr>"

definition start_next :: "('n, 'l) proxy_run \<Rightarrow> ('n, 'l) proxy_run" where
  "start_next S =
     (case pr_start S of
        SCheck \<Rightarrow> S\<lparr>pr_start := if px_closed (pr_px S) then SReturned None else SAccept\<rparr>
      | SAccept \<Rightarrow>
          (case Listener_Accept (px_ln (pr_px S)) (pr_net S) of
             (Inl e, n) \<Rightarrow> S\<lparr>pr_net := n, pr_start := SReturned (Some e)\<rparr>
           | (Inr client, n) \<Rightarrow> S\<lparr>pr_net := n, pr_start := SGot client\<rparr>)
      | SGot client \<Rightarrow>
          S\<lparr>pr_px := (pr_px S)\<lparr>px_active := px_active (pr_px S) + 1\<rparr>, pr_serving := pr_serving S @ [client],
            pr_start := SCheck\<rparr>
      | SReturned e \<Rightarrow> S)"

definition stop_next :: "('n, 'l) proxy_run \<Rightarrow> ('n, 'l) proxy_run" where
  "stop_next S =
     (case pr_stop S of
        TIdle \<Rightarrow> S\<lparr>pr_px := (pr_px S)\<lparr>px_closed := True\<rparr>, pr_stop := TClosing\<rparr>
      | TClosing \<Rightarrow>
          (case Listener_Close (px_ln (pr_px S)) (pr_net S) of (_, n) \<Rightarrow> S\<lparr>pr_net := n, pr_stop := TWaiting\<rparr>)
      | TWaiting \<Rightarrow> if px_active (pr_px S) = 0 then S\<lparr>pr_stop := TReturned\<rparr> else S
      | TReturned \<Rightarrow> S)"

text \<open>
  A client's goroutine that ends; a panic of the handler is not recovered and takes the whole process down.
\<close>

inductive proxy_step :: "zlib \<Rightarrow> ('n, 'l) proxy_run \<Rightarrow> ('n, 'l) proxy_run \<Rightarrow> bool" for z where
  start: "\<not> pr_crashed S \<Longrightarrow> proxy_step z S (start_next S)"
| stop: "\<not> pr_crashed S \<Longrightarrow> proxy_step z S (stop_next S)"
| served: "\<not> pr_crashed S \<Longrightarrow> client \<in> set (pr_serving S) \<Longrightarrow>
    handleClient z client (pr_mem S) (pr_px S) = (hcall, client', m', p') \<Longrightarrow> map_option snd hcall \<noteq> Some HPanic \<Longrightarrow>
    proxy_step z S (S\<lparr>pr_px := p', pr_mem := m', pr_serving := remove1 client (pr_serving S)\<rparr>)"
| crash: "\<not> pr_crashed S \<Longrightarrow> client \<in> set (pr_serving S) \<Longrightarrow>
    handleClient z client (pr_mem S) (pr_px S) = (Some (hc, HPanic), client', m', p') \<Longrightarrow>
    proxy_step z S (S\<lparr>pr_crashed := True\<rparr>)"

section \<open>Start and Stop in one piece\<close>

lemma Start_round_steps:
  assumes "pr_start S = SCheck" and "Start_round (pr_px S) (pr_net S) = (r, p', n')"
  shows "start_next (start_next (start_next S)) =
    (case r of
       Returns e \<Rightarrow> S\<lparr>pr_px := p', pr_net := n', pr_start := SReturned e\<rparr>
     | Serves client \<Rightarrow> S\<lparr>pr_px := p', pr_net := n', pr_serving := pr_serving S @ [client]\<rparr>)"
proof (cases "px_closed (pr_px S)")
  case True
  with assms show ?thesis by (auto simp: Start_round_def start_next_def)
next
  case False
  obtain a n1 where "Listener_Accept (px_ln (pr_px S)) (pr_net S) = (a, n1)" by force
  with assms False show ?thesis by (cases a) (auto simp: Start_round_def start_next_def)
qed

lemma Stop_steps:
  assumes "pr_stop S = TIdle" and "Stop (pr_px S) (pr_net S) = (p', n')"
  shows "stop_next (stop_next S) = S\<lparr>pr_px := p', pr_net := n', pr_stop := TWaiting\<rparr>"
  using assms by (auto simp: Stop_def stop_next_def Let_def split: prod.splits)

section \<open>Invariant\<close>

text \<open>
  \<open>stays_closed\<close>: what \<^verbatim>\<open>net.Listener\<close> promises of \<^verbatim>\<open>Close\<close>: from then on, which \<open>C\<close> tells of the network, \<^verbatim>\<open>Accept\<close>
  returns an error.
\<close>

definition stays_closed :: "('n, 'l) transport \<Rightarrow> 'l \<Rightarrow> ('n \<Rightarrow> bool) \<Rightarrow> bool" where
  "stays_closed tr ln C \<longleftrightarrow>
     (\<forall>n. C (snd (ln_Close tr ln n))) \<and> (\<forall>n. C n \<longrightarrow> (\<exists>e n'. ln_Accept tr ln n = (Inl e, n') \<and> C n'))"

definition listener_dead :: "('n, 'l) Listener \<Rightarrow> ('n \<Rightarrow> bool) \<Rightarrow> 'n \<Rightarrow> bool" where
  "listener_dead l C n \<longleftrightarrow> (case li_open l of None \<Rightarrow> True | Some _ \<Rightarrow> C n)"

definition listener_closes :: "('n, 'l) Listener \<Rightarrow> ('n \<Rightarrow> bool) \<Rightarrow> bool" where
  "listener_closes l C \<longleftrightarrow> (\<forall>tr ln. li_open l = Some (tr, ln) \<longrightarrow> stays_closed tr ln C)"

lemma listener_dead_Accept:
  assumes "listener_closes l C" and "listener_dead l C n"
  obtains e n' where "Listener_Accept l n = (Inl e, n')" "listener_dead l C n'"
  using assms
  by (cases "li_open l") (force simp: listener_dead_def listener_closes_def stays_closed_def Listener_Accept_def)+

lemma listener_dead_Close: "listener_closes l C \<Longrightarrow> Listener_Close l n = (e, n') \<Longrightarrow> listener_dead l C n'"
  by (cases "li_open l") (auto simp: listener_dead_def listener_closes_def stays_closed_def Listener_Close_def, metis snd_conv)

definition uncounted :: "start_pc \<Rightarrow> nat" where
  "uncounted pc = (case pc of SGot _ \<Rightarrow> 1 | _ \<Rightarrow> 0)"

definition run_inv :: "('n, 'l) Listener \<Rightarrow> ('n \<Rightarrow> bool) \<Rightarrow> ('n, 'l) proxy_run \<Rightarrow> bool" where
  "run_inv l C S \<longleftrightarrow>
     px_ln (pr_px S) = l \<and> px_active (pr_px S) = length (pr_serving S) \<and>
     (px_closed (pr_px S) \<longleftrightarrow> pr_stop S \<noteq> TIdle) \<and> (pr_start S = SReturned None \<longrightarrow> px_closed (pr_px S)) \<and>
     (pr_stop S \<in> {TWaiting, TReturned} \<longrightarrow> listener_dead l C (pr_net S)) \<and>
     (pr_stop S = TReturned \<longrightarrow> length (pr_serving S) + uncounted (pr_start S) \<le> 1)"

lemma run_inv_start_next:
  assumes "listener_closes l C" and "run_inv l C S"
  shows "run_inv l C (start_next S)"
proof (cases "pr_start S")
  case SAccept
  show ?thesis
  proof (cases "pr_stop S \<in> {TWaiting, TReturned}")
    case True
    with assms(2) have "listener_dead l C (pr_net S)" by (auto simp: run_inv_def)
    then obtain e n' where "Listener_Accept l (pr_net S) = (Inl e, n')" "listener_dead l C n'"
      by (rule listener_dead_Accept [OF assms(1)])
    with assms(2) SAccept show ?thesis by (auto simp: run_inv_def start_next_def uncounted_def)
  next
    case False
    with assms(2) SAccept show ?thesis by (auto simp: run_inv_def start_next_def split: prod.splits sum.splits)
  qed
qed (use assms(2) in \<open>auto simp: run_inv_def start_next_def uncounted_def\<close>)

lemma run_inv_stop_next:
  assumes "listener_closes l C" and "run_inv l C S"
  shows "run_inv l C (stop_next S)"
proof (cases "pr_stop S")
  case TClosing
  obtain e n' where "Listener_Close l (pr_net S) = (e, n')" by force
  with TClosing assms(2) listener_dead_Close [OF assms(1) this] show ?thesis by (simp add: run_inv_def stop_next_def)
qed (use assms(2) in \<open>auto simp: run_inv_def stop_next_def uncounted_def split: start_pc.splits\<close>)

lemma handleClient_proxy:
  "handleClient z client m p = (hcall, client', m', p') \<Longrightarrow> p' = p\<lparr>px_active := px_active p - 1\<rparr>"
  by (auto simp: handleClient_def Let_def split: prod.splits sum.splits)

lemma run_inv_step: "proxy_step z S S' \<Longrightarrow> listener_closes l C \<Longrightarrow> run_inv l C S \<Longrightarrow> run_inv l C S'"
proof (induction rule: proxy_step.induct)
  case (served S client hcall client' m' p')
  with handleClient_proxy [OF served(3)] show ?case by (auto simp: run_inv_def length_remove1)
next
  case (crash S client hc client' m' p')
  then show ?case by (auto simp: run_inv_def)
qed (simp_all add: run_inv_start_next run_inv_stop_next)

interpretation proxy_sys: step_invariant "proxy_step z" "run_inv l C" "\<lambda>S. listener_closes l C \<longrightarrow> run_inv l C S" for z l C
  by unfold_locales (auto intro: run_inv_step)

text \<open>Once the listener is closed, \<^verbatim>\<open>Start\<close> needs at most three more of its steps to return.\<close>

lemma Start_ends:
  assumes "listener_closes l C" and "run_inv l C S" and "pr_stop S \<in> {TWaiting, TReturned}"
  shows "\<exists>e. pr_start (start_next (start_next (start_next S))) = SReturned e"
proof -
  have "px_closed (pr_px S)" "listener_dead l C (pr_net S)" "px_ln (pr_px S) = l" using assms(2,3) by (auto simp: run_inv_def)
  moreover obtain e n' where "Listener_Accept l (pr_net S) = (Inl e, n')"
    by (rule listener_dead_Accept [OF assms(1) calculation(2)])
  ultimately show ?thesis by (cases "pr_start S") (auto simp: start_next_def)
qed

section \<open>Properties\<close>


text \<open>A run in which \<^verbatim>\<open>Stop\<close> returns between \<^verbatim>\<open>Accept\<close> and the count: the client is served afterwards.\<close>

lemma late_client:
  fixes c :: wconn
  defines "l \<equiv> \<lparr>li_transport = Some list_transport, li_open = Some (list_transport, ())\<rparr>"
  defines "p \<equiv> NewProxy l (NewDialer (\<lambda>_. list_transport) None)"
  obtains S where "reaches (proxy_step z) (run_start p [c] m) S" "pr_stop S = TReturned"
    "pr_serving S = [\<lparr>mw_Reader = -1, mw_Writer = -1, mw_Conn = c\<rparr>]"
proof -
  let ?init = "run_start p [c] m"
  let ?final = "start_next (stop_next (stop_next (stop_next (start_next (start_next ?init)))))"
  note go = reaches_step [where step = "proxy_step z"]
  have *: "\<not> pr_crashed (start_next S)" "\<not> pr_crashed (stop_next S)" if "\<not> pr_crashed S" for S :: "(wconn list, unit) proxy_run"
    using that by (auto simp: start_next_def stop_next_def split: start_pc.splits stop_pc.splits prod.splits sum.splits)
  have 0: "\<not> pr_crashed ?init" by (simp add: run_start_def)
  have a: "reaches (proxy_step z) ?init S1 \<Longrightarrow> \<not> pr_crashed S1 \<Longrightarrow> reaches (proxy_step z) ?init (start_next S1)" for S1
    by (rule go [OF _ proxy_step.start])
  have b: "reaches (proxy_step z) ?init S1 \<Longrightarrow> \<not> pr_crashed S1 \<Longrightarrow> reaches (proxy_step z) ?init (stop_next S1)" for S1
    by (rule go [OF _ proxy_step.stop])
  have "reaches (proxy_step z) ?init ?final" by (intro a b reaches_refl * 0)
  moreover have "pr_stop ?final = TReturned" "pr_serving ?final = [\<lparr>mw_Reader = -1, mw_Writer = -1, mw_Conn = c\<rparr>]"
    by (simp_all add: start_next_def stop_next_def run_start_def p_def l_def NewProxy_def Listener_Accept_def Listener_Close_def
        list_transport_def)
  ultimately show thesis by (rule that)
qed


text \<open>\<^verbatim>\<open>Stop\<close> does not always wait for all clients: one that was accepted, but not counted, when it looked at the
  count is served after it has returned.\<close>

theorem Stop_misses_client:
  "\<exists>(p :: (wconn list, unit) Proxy) S. reaches (proxy_step z) (run_start p [c] m) S \<and> pr_stop S = TReturned \<and> length (pr_serving S) = 1"
proof -
  let ?l = "\<lparr>li_transport = Some list_transport, li_open = Some (list_transport, ())\<rparr>"
  let ?p = "NewProxy ?l (NewDialer (\<lambda>_. list_transport) None)"
  obtain S where "reaches (proxy_step z) (run_start ?p [c] m) S" "pr_stop S = TReturned"
    "pr_serving S = [\<lparr>mw_Reader = -1, mw_Writer = -1, mw_Conn = c\<rparr>]" by (rule late_client)
  then show ?thesis by (intro exI [of _ ?p] exI [of _ S]) simp
qed

end
