(* ===== verification/Byte_Relay.thy ===== *)
theory Byte_Relay
  imports Relay
begin

text \<open>
  The byte relays of \<^verbatim>\<open>tunnel/relay.go\<close>, \<^verbatim>\<open>DirectRelay\<close> and \<^verbatim>\<open>RelayWithMetrics\<close>: two goroutines that copy
  in the two directions over the same two connections, and each close both when they stop. The steps of
  both in any interleaving are the relation \<open>byte_runs\<close>. The theorems: every run ends, with both
  connections closed; in every run each side has been sent a prefix of what the other side delivered; the
  direction that stops first at the end of its stream has delivered everything; and the other direction
  may lose data by that.
\<close>

section \<open>Model\<close>

text \<open>
  Where a goroutine stands: at the read, about to write what it read (with the error that came along), at
  the two calls of \<^verbatim>\<open>Close\<close>, ended.
\<close>

datatype byte_pc = AtRead | Have "byte list" "go_err option" | CloseDst | CloseSrc | Ended

text \<open>
  The connections and the goroutine that reads from a side are indexed by the side; \<open>br_calls\<close> are the
  calls of \<^verbatim>\<open>onByte\<close> so far, with the side read from as the direction.
\<close>

record byte_relay =
  br_end :: "side \<Rightarrow> rwc"
  br_at :: "side \<Rightarrow> byte_pc"
  br_calls :: "(side \<times> nat) list"

definition byte_relay_start :: "rwc \<Rightarrow> rwc \<Rightarrow> byte_relay" where
  "byte_relay_start client server =
     \<lparr>br_end = (\<lambda>s. case s of Client \<Rightarrow> client | Server \<Rightarrow> server), br_at = (\<lambda>_. AtRead), br_calls = []\<rparr>"

text \<open>The methods of a connection, which fail on one that has been closed locally.\<close>

definition rwc_Read :: "(nat \<Rightarrow> inconn \<Rightarrow> nat) \<Rightarrow> nat \<Rightarrow> rwc \<Rightarrow> (byte list \<times> go_err option) \<times> rwc" where
  "rwc_Read piece n c =
     (if rwc_closed c then (([], Some ErrClosed), c)
      else case conn_Read piece n (rwc_in c) of (x, ci) \<Rightarrow> (x, c\<lparr>rwc_in := ci\<rparr>))"

definition rwc_Write :: "byte list \<Rightarrow> rwc \<Rightarrow> (nat \<times> go_err option) \<times> rwc" where
  "rwc_Write bs c =
     (if rwc_closed c then ((0, Some ErrClosed), c)
      else case conn_Write bs (rwc_out c) of (x, co) \<Rightarrow> (x, c\<lparr>rwc_out := co\<rparr>))"

definition rwc_Close :: "rwc \<Rightarrow> rwc" where
  "rwc_Close c = c\<lparr>rwc_closed := True\<rparr>"

text \<open>
  The next action of the goroutine that reads from side \<open>s\<close>. \<open>report\<close> tells \<^verbatim>\<open>RelayWithMetrics\<close>, which calls
  \<^verbatim>\<open>onByte\<close>, from \<^verbatim>\<open>DirectRelay\<close>, where \<^verbatim>\<open>io.Copy\<close> runs the same loop.
\<close>

definition byte_action :: "bool \<Rightarrow> (nat \<Rightarrow> inconn \<Rightarrow> nat) \<Rightarrow> side \<Rightarrow> byte_relay \<Rightarrow> byte_relay" where
  "byte_action report piece s r =
     (case br_at r s of
        AtRead \<Rightarrow>
          (case rwc_Read piece 32768 (br_end r s) of ((bs, err), c) \<Rightarrow>
             r\<lparr>br_end := (br_end r)(s := c),
               br_at := (br_at r)(s := if bs \<noteq> [] then Have bs err else if err \<noteq> None then CloseDst else AtRead)\<rparr>)
      | Have bs err \<Rightarrow>
          (case rwc_Write bs (br_end r (other s)) of ((_, werr), c) \<Rightarrow>
             let r = r\<lparr>br_end := (br_end r)(other s := c)\<rparr> in
             if werr \<noteq> None then r\<lparr>br_at := (br_at r)(s := CloseDst)\<rparr>
             else r\<lparr>br_calls := (if report then br_calls r @ [(s, length bs)] else br_calls r),
                    br_at := (br_at r)(s := if err \<noteq> None then CloseDst else AtRead)\<rparr>)
      | CloseDst \<Rightarrow>
          r\<lparr>br_end := (br_end r)(other s := rwc_Close (br_end r (other s))), br_at := (br_at r)(s := CloseSrc)\<rparr>
      | CloseSrc \<Rightarrow>
          r\<lparr>br_end := (br_end r)(s := rwc_Close (br_end r s)), br_at := (br_at r)(s := Ended)\<rparr>
      | Ended \<Rightarrow> r)"

definition DirectRelay :: "(nat \<Rightarrow> inconn \<Rightarrow> nat) \<Rightarrow> side \<Rightarrow> byte_relay \<Rightarrow> byte_relay" where
  "DirectRelay = byte_action False"

definition RelayWithMetrics :: "(nat \<Rightarrow> inconn \<Rightarrow> nat) \<Rightarrow> side \<Rightarrow> byte_relay \<Rightarrow> byte_relay" where
  "RelayWithMetrics = byte_action True"

text \<open>\<open>byte_runs act r n r'\<close>: \<open>n\<close> actions of the two goroutines, in some order, lead from \<open>r\<close> to \<open>r'\<close>.\<close>

inductive byte_runs :: "(side \<Rightarrow> byte_relay \<Rightarrow> byte_relay) \<Rightarrow> byte_relay \<Rightarrow> nat \<Rightarrow> byte_relay \<Rightarrow> bool" for act r0 where
  byte_none: "byte_runs act r0 0 r0"
| byte_more: "byte_runs act r0 n r \<Longrightarrow> br_at r s \<noteq> Ended \<Longrightarrow> byte_runs act r0 (Suc n) (act s r)"

text \<open>A run given by the order in which the goroutines act.\<close>

fun byte_schedule :: "(side \<Rightarrow> byte_relay \<Rightarrow> byte_relay) \<Rightarrow> byte_relay \<Rightarrow> side list \<Rightarrow> byte_relay option" where
  "byte_schedule act r [] = Some r"
| "byte_schedule act r (s # ss) = (if br_at r s = Ended then None else byte_schedule act (act s r) ss)"

text \<open>\<^verbatim>\<open>wg.Wait\<close> returns, and with it the relay.\<close>

definition byte_done :: "byte_relay \<Rightarrow> bool" where
  "byte_done r \<longleftrightarrow> br_at r Client = Ended \<and> br_at r Server = Ended"

lemma byte_schedule_runs:
  "byte_runs act r0 n r \<Longrightarrow> byte_schedule act r ss = Some r' \<Longrightarrow> byte_runs act r0 (n + length ss) r'"
proof (induction ss arbitrary: r n)
  case (Cons s ss)
  then have "byte_runs act r0 (Suc n) (act s r)" "byte_schedule act (act s r) ss = Some r'"
    by (auto intro: byte_more split: if_splits)
  from Cons.IH [OF this] show ?case by simp
qed simp

section \<open>Termination\<close>

text \<open>How many actions a goroutine can still take.\<close>

definition steps_left :: "byte_relay \<Rightarrow> side \<Rightarrow> nat" where
  "steps_left r s =
     (case br_at r s of
        AtRead \<Rightarrow> 2 * length (pending (rwc_in (br_end r s))) + 3
      | Have _ _ \<Rightarrow> 2 * length (pending (rwc_in (br_end r s))) + 4
      | CloseDst \<Rightarrow> 2 | CloseSrc \<Rightarrow> 1 | Ended \<Rightarrow> 0)"

lemma rwc_Read_cases:
  obtains (data) bs c where "rwc_Read piece (Suc n) e = ((bs, None), c)" "bs \<noteq> []" "length bs \<le> Suc n"
      "pending (rwc_in e) = bs @ pending (rwc_in c)" "rwc_out c = rwc_out e" "rwc_closed c = rwc_closed e" "\<not> rwc_closed e"
    | (stop) err where "rwc_Read piece (Suc n) e = (([], Some err), e)" "rwc_closed e \<or> pending (rwc_in e) = []"
proof (cases "rwc_closed e \<or> pending (rwc_in e) = []")
  case True
  then have "rwc_Read piece (Suc n) e = (([], Some (if rwc_closed e then ErrClosed else fin (rwc_in e))), e)"
    by (cases e) (auto simp: rwc_Read_def conn_Read_def)
  then show thesis using True by (rule stop)
next
  case False
  let ?k = "max 1 (min (Suc n) (piece (Suc n) (rwc_in e)))"
  have "rwc_Read piece (Suc n) e = ((take ?k (pending (rwc_in e)), None),
      e\<lparr>rwc_in := (rwc_in e)\<lparr>pending := drop ?k (pending (rwc_in e))\<rparr>\<rparr>)"
    using False by (simp add: rwc_Read_def conn_Read_def Let_def)
  moreover have "take ?k (pending (rwc_in e)) \<noteq> []" using False by (simp add: take_eq_Nil max_def)
  moreover have "length (take ?k (pending (rwc_in e))) \<le> Suc n" by simp
  ultimately show thesis by (rule data) (use False in simp_all)
qed

lemma rwc_Write_frame:
  "rwc_Write bs e = (x, c) \<Longrightarrow> rwc_in c = rwc_in e \<and> rwc_closed c = rwc_closed e"
  by (auto simp: rwc_Write_def split: if_splits prod.splits)

lemma steps_left_cong:
  "br_at r' s = br_at r s \<Longrightarrow> rwc_in (br_end r' s) = rwc_in (br_end r s) \<Longrightarrow> steps_left r' s = steps_left r s"
  by (simp add: steps_left_def split: byte_pc.splits)

lemma byte_action_other:
  "br_at (byte_action report piece s r) (other s) = br_at r (other s) \<and>
   rwc_in (br_end (byte_action report piece s r) (other s)) = rwc_in (br_end r (other s))"
  by (auto simp: byte_action_def Let_def rwc_Close_def rwc_Write_frame split: byte_pc.splits prod.splits)

lemma steps_left_other: "steps_left (byte_action report piece s r) (other s) = steps_left r (other s)"
  by (rule steps_left_cong) (simp_all add: byte_action_other)

lemma steps_left_action:
  assumes "br_at r s \<noteq> Ended"
  shows "steps_left (byte_action report piece s r) s < steps_left r s"
proof (cases "br_at r s")
  case AtRead
  show ?thesis
  proof (cases rule: rwc_Read_cases [of piece 32767 "br_end r s"])
    case (data bs c)
    with AtRead show ?thesis by (cases bs) (simp_all add: byte_action_def steps_left_def)
  next
    case (stop err)
    with AtRead show ?thesis by (simp add: byte_action_def steps_left_def)
  qed
next
  case (Have bs err)
  obtain n werr c where w: "rwc_Write bs (br_end r (other s)) = ((n, werr), c)" by (metis prod.exhaust)
  with Have show ?thesis by (auto simp: byte_action_def steps_left_def Let_def)
qed (use assms in \<open>simp_all add: byte_action_def steps_left_def\<close>)

lemma steps_left_bound:
  assumes "byte_runs (byte_action report piece) r0 n r"
  shows "n + steps_left r Client + steps_left r Server \<le> steps_left r0 Client + steps_left r0 Server"
  using assms
proof induction
  case (byte_more n r s)
  have "steps_left (byte_action report piece s r) s < steps_left r s" by (rule steps_left_action [OF byte_more.hyps(2)])
  with byte_more.IH steps_left_other [of report piece s r] show ?case by (cases s) simp_all
qed simp

section \<open>What has been forwarded\<close>

text \<open>The sizes reported for a direction.\<close>

definition reported :: "byte_relay \<Rightarrow> side \<Rightarrow> nat" where
  "reported r s = sum_list (map snd (filter (\<lambda>x. fst x = s) (br_calls r)))"

text \<open>Both ends are open and the receiver takes everything.\<close>

definition undisturbed :: "byte_relay \<Rightarrow> side \<Rightarrow> bool" where
  "undisturbed r s \<longleftrightarrow> \<not> rwc_closed (br_end r s) \<and> \<not> rwc_closed (br_end r (other s)) \<and>
     room (rwc_out (br_end r (other s))) = None"

text \<open>
  The direction from \<open>s\<close> has forwarded \<open>k\<close> bytes of the stream \<open>P\<close>, after \<open>out\<close> which had been sent before; as long as
  it is undisturbed it has reported them all, and when it stops it has forwarded everything.
\<close>

definition forwarded :: "bool \<Rightarrow> byte_relay \<Rightarrow> side \<Rightarrow> byte list \<Rightarrow> byte list \<Rightarrow> nat \<Rightarrow> bool" where
  "forwarded report r s out P k \<longleftrightarrow>
     k \<le> length P \<and> sent (rwc_out (br_end r (other s))) = out @ take k P \<and> reported r s \<le> k \<and>
     (case br_at r s of
        AtRead \<Rightarrow> drop k P = pending (rwc_in (br_end r s))
      | Have bs err \<Rightarrow> bs \<noteq> [] \<and> err = None \<and> drop k P = bs @ pending (rwc_in (br_end r s))
      | _ \<Rightarrow> True) \<and>
     (undisturbed r s \<longrightarrow> (report \<longrightarrow> reported r s = k) \<and> (br_at r s = CloseDst \<longrightarrow> k = length P))"

lemma forwarded_cong:
  assumes "forwarded report r s out P k" and "br_at r' s = br_at r s"
    and "rwc_in (br_end r' s) = rwc_in (br_end r s)"
    and "rwc_out (br_end r' (other s)) = rwc_out (br_end r (other s))" and "reported r' s = reported r s"
    and "undisturbed r' s \<Longrightarrow> undisturbed r s"
  shows "forwarded report r' s out P k"
  using assms by (simp add: forwarded_def split: byte_pc.splits)

lemma reported_other: "reported (byte_action report piece s r) (other s) = reported r (other s)"
  by (auto simp: byte_action_def reported_def Let_def split: byte_pc.splits prod.splits)

lemma out_other: "rwc_out (br_end (byte_action report piece s r) s) = rwc_out (br_end r s)"
  by (auto simp: byte_action_def Let_def rwc_Close_def rwc_Read_def split: byte_pc.splits prod.splits)

lemma undisturbed_back: "undisturbed (byte_action report piece s r) (other s) \<Longrightarrow> undisturbed r (other s)"
  by (auto simp: undisturbed_def byte_action_def Let_def rwc_Close_def rwc_Read_def rwc_Write_def
      split: byte_pc.splits prod.splits if_splits)

lemma rwc_Write_sent:
  assumes "rwc_Write bs e = ((n, werr), c)"
  shows "\<exists>j \<le> length bs. sent (rwc_out c) = sent (rwc_out e) @ take j bs \<and> (werr = None \<longrightarrow> j = length bs) \<and>
    (\<not> rwc_closed c \<and> room (rwc_out c) = None \<longrightarrow> \<not> rwc_closed e \<and> room (rwc_out e) = None \<and> werr = None)"
proof (cases "rwc_closed e")
  case True
  with assms show ?thesis by (auto simp: rwc_Write_def intro: exI [of _ 0])
next
  case False
  then obtain co where w: "conn_Write bs (rwc_out e) = ((n, werr), co)" "c = e\<lparr>rwc_out := co\<rparr>"
    using assms by (auto simp: rwc_Write_def split: prod.splits)
  have "n \<le> length bs" "sent co = sent (rwc_out e) @ take n bs" using conn_snk.write_prefix [OF _ w(1)] by auto
  moreover have "werr = None \<Longrightarrow> n = length bs" using conn_snk.write_complete [where w = "rwc_out e"] w(1) by auto
  moreover have "room co = None \<Longrightarrow> room (rwc_out e) = None \<and> werr = None"
    using w(1) by (auto simp: conn_Write_def split: option.splits if_splits)
  ultimately show ?thesis using w(2) False by (intro exI [of _ n]) auto
qed

lemma forwarded_action:
  assumes "forwarded report r s out P k"
  shows "\<exists>k'. forwarded report (byte_action report piece s r) s out P k'"
proof (cases "br_at r s")
  case AtRead
  show ?thesis
  proof (cases rule: rwc_Read_cases [of piece 32767 "br_end r s"])
    case (data bs c)
    with AtRead assms have "forwarded report (byte_action report piece s r) s out P k"
      by (simp add: byte_action_def forwarded_def reported_def undisturbed_def)
    then show ?thesis by blast
  next
    case (stop err)
    have "k = length P" if "pending (rwc_in (br_end r s)) = []"
      using that assms AtRead by (simp add: forwarded_def)
    with stop AtRead assms have "forwarded report (byte_action report piece s r) s out P k"
      by (auto simp: byte_action_def forwarded_def reported_def undisturbed_def)
    then show ?thesis by blast
  qed
next
  case (Have bs err)
  with assms have P: "drop k P = bs @ pending (rwc_in (br_end r s))" "k \<le> length P" by (auto simp: forwarded_def)
  obtain n werr c where w: "rwc_Write bs (br_end r (other s)) = ((n, werr), c)" by (metis prod.exhaust)
  then obtain j where j: "j \<le> length bs" "sent (rwc_out c) = sent (rwc_out (br_end r (other s))) @ take j bs"
    "werr = None \<longrightarrow> j = length bs"
    "\<not> rwc_closed c \<and> room (rwc_out c) = None \<longrightarrow>
       \<not> rwc_closed (br_end r (other s)) \<and> room (rwc_out (br_end r (other s))) = None \<and> werr = None"
    using rwc_Write_sent [OF w] by blast
  have l: "k + length bs \<le> length P" using arg_cong [OF P(1), of length] P(2) by simp
  have t: "take (k + j) P = take k P @ take j bs" using j(1) P(1) by (simp add: take_add)
  have d: "drop (k + length bs) P = pending (rwc_in (br_end r s))"
    using arg_cong [OF P(1), of "drop (length bs)"] by (simp add: add.commute)
  have "forwarded report (byte_action report piece s r) s out P (k + j)"
    using assms Have w j t d l
    by (cases werr) (auto simp: byte_action_def forwarded_def reported_def undisturbed_def Let_def)
  then show ?thesis by blast
qed (use assms in \<open>auto simp: byte_action_def forwarded_def reported_def undisturbed_def rwc_Close_def\<close>)

lemma forwarded_runs:
  assumes "byte_runs (byte_action report piece) r0 n r" and "forwarded report r0 s out P 0"
  shows "\<exists>k. forwarded report r s out P k"
  using assms(1)
proof induction
  case byte_none
  then show ?case using assms(2) by blast
next
  case (byte_more n r x)
  then obtain k where k: "forwarded report r s out P k" by blast
  show ?case
  proof (cases "x = s")
    case True
    then show ?thesis using forwarded_action [OF k] by simp
  next
    case False
    then have s: "s = other x" using side_cases [of s x] by auto
    have "forwarded report (byte_action report piece x r) s out P k"
      by (rule forwarded_cong [OF k])
        (simp_all add: s byte_action_other reported_other out_other undisturbed_back)
    then show ?thesis by blast
  qed
qed

lemma closed_runs:
  assumes "byte_runs (byte_action report piece) r0 n r" and "\<And>s. br_at r0 s = AtRead"
  shows "(br_at r s = CloseSrc \<or> br_at r s = Ended \<longrightarrow> rwc_closed (br_end r (other s))) \<and>
    (br_at r s = Ended \<longrightarrow> rwc_closed (br_end r s))"
  using assms(1)
proof (induction arbitrary: s)
  case byte_none
  then show ?case by (simp add: assms(2))
next
  case (byte_more n r x)
  have mono: "rwc_closed (br_end r y) \<Longrightarrow> rwc_closed (br_end (byte_action report piece x r) y)" for y
    by (cases "br_at r x") (auto simp: byte_action_def Let_def rwc_Close_def rwc_Read_def rwc_Write_def split: prod.splits if_splits)
  show ?case
  proof (cases "x = s")
    case True
    with byte_more.IH [of s] show ?thesis
      by (cases "br_at r s") (auto simp: byte_action_def Let_def rwc_Close_def split: prod.splits if_splits)
  next
    case False
    then have s: "s = other x" using side_cases [of s x] by auto
    with byte_more.IH [of s] mono byte_action_other [of report piece x r] show ?thesis by auto
  qed
qed

section \<open>Properties\<close>

text \<open>C24: the byte relays, in every interleaving of their two goroutines and for every way the network cuts
  the streams. A run has a bounded number of actions and can be continued until both goroutines have ended,
  so that the call returns; both connections are closed then. At every moment each side has been sent a
  prefix of what the other one delivered, in order, and \<^verbatim>\<open>onByte\<close> has been told of no more than that.\<close>

theorem ByteRelay_terminates:
  assumes "byte_runs (byte_action report piece) (byte_relay_start c v) n r"
  shows "n \<le> 2 * length (pending (rwc_in c)) + 2 * length (pending (rwc_in v)) + 6 \<and>
    (byte_done r \<or> (\<exists>r'. byte_runs (byte_action report piece) (byte_relay_start c v) (Suc n) r')) \<and>
    (byte_done r \<longrightarrow> rwc_closed (br_end r Client) \<and> rwc_closed (br_end r Server)) \<and>
    (\<exists>k. sent (rwc_out (br_end r Server)) = sent (rwc_out v) @ take k (pending (rwc_in c)) \<and> reported r Client \<le> k) \<and>
    (\<exists>k. sent (rwc_out (br_end r Client)) = sent (rwc_out c) @ take k (pending (rwc_in v)) \<and> reported r Server \<le> k)"
proof -
  let ?r0 = "byte_relay_start c v"
  have "n \<le> 2 * length (pending (rwc_in c)) + 2 * length (pending (rwc_in v)) + 6"
    using steps_left_bound [OF assms] by (simp add: steps_left_def byte_relay_start_def)
  moreover have "byte_done r \<or> (\<exists>r'. byte_runs (byte_action report piece) ?r0 (Suc n) r')"
    using byte_more [OF assms] by (auto simp: byte_done_def)
  moreover have "byte_done r \<longrightarrow> rwc_closed (br_end r Client) \<and> rwc_closed (br_end r Server)"
    using closed_runs [OF assms] by (simp add: byte_done_def byte_relay_start_def)
  moreover have "forwarded report ?r0 Client (sent (rwc_out v)) (pending (rwc_in c)) 0"
      "forwarded report ?r0 Server (sent (rwc_out c)) (pending (rwc_in v)) 0"
    by (simp_all add: forwarded_def byte_relay_start_def reported_def)
  from this [THEN forwarded_runs [OF assms]] obtain j k where
    "forwarded report r Client (sent (rwc_out v)) (pending (rwc_in c)) j"
    "forwarded report r Server (sent (rwc_out c)) (pending (rwc_in v)) k" by blast
  ultimately show ?thesis by (auto simp: forwarded_def)
qed

text \<open>Two ends for examples: the client delivers one byte and the end of its stream, the server a reply.\<close>

definition demo_end :: "byte list \<Rightarrow> rwc" where
  "demo_end bs = \<lparr>rwc_in = \<lparr>pending = bs, fin = EOF\<rparr>, rwc_out = \<lparr>sent = [], room = None, ofail = EOF\<rparr>, rwc_closed = False\<rparr>"

definition demo_relay :: byte_relay where
  "demo_relay = byte_relay_start (demo_end [1]) (demo_end [9])"

lemmas demo_eval = demo_relay_def byte_relay_start_def demo_end_def byte_action_def rwc_Read_def rwc_Write_def
  rwc_Close_def conn_Read_def conn_Write_def byte_done_def undisturbed_def Let_def

lemma demo_run:
  assumes "byte_schedule (byte_action True (\<lambda>_ _. 1)) demo_relay ss \<noteq> None"
  shows "byte_runs (byte_action True (\<lambda>_ _. 1)) demo_relay (length ss)
    (the (byte_schedule (byte_action True (\<lambda>_ _. 1)) demo_relay ss))"
  using byte_schedule_runs [OF byte_none, of "byte_action True (\<lambda>_ _. 1)" demo_relay ss] assms by auto

theorem ByteRelay_terminates_witness:
  "\<exists>n r. byte_runs (byte_action True (\<lambda>_ _. 1)) demo_relay n r \<and> br_at r Client = AtRead \<and>
     sent (rwc_out (br_end r Server)) = [1] \<and>
     (\<exists>r'. byte_runs (byte_action True (\<lambda>_ _. 1)) demo_relay (Suc n) r') \<and> n \<le> 10"
proof -
  let ?act = "byte_action True (\<lambda>_ _. 1)" and ?r = "the (byte_schedule (byte_action True (\<lambda>_ _. 1)) demo_relay [Client, Client])"
  have "byte_schedule ?act demo_relay [Client, Client] \<noteq> None" "br_at ?r Client = AtRead" "sent (rwc_out (br_end ?r Server)) = [1]"
    by (simp_all add: demo_eval)
  moreover note run = demo_run [OF this(1)]
  moreover have "\<not> byte_done ?r" using calculation(2) by (simp add: byte_done_def)
  ultimately show ?thesis
    using ByteRelay_terminates [OF run [unfolded demo_relay_def]]
    by (intro exI [of _ "length [Client, Client]"] exI [of _ ?r]) (simp add: demo_relay_def demo_end_def)
qed

text \<open>The direction that stops first because its stream has ended has forwarded everything, when the receiver
  takes it, and has reported exactly that.\<close>

theorem ByteRelay_complete:
  assumes "byte_runs (byte_action report piece) (byte_relay_start c v) n r" and "br_at r Client = CloseDst"
    and "undisturbed r Client"
  shows "sent (rwc_out (br_end r Server)) = sent (rwc_out v) @ pending (rwc_in c) \<and>
    (report \<longrightarrow> reported r Client = length (pending (rwc_in c)))"
proof -
  have "forwarded report (byte_relay_start c v) Client (sent (rwc_out v)) (pending (rwc_in c)) 0"
    by (simp add: forwarded_def byte_relay_start_def reported_def)
  from forwarded_runs [OF assms(1) this] assms(2,3) show ?thesis by (auto simp: forwarded_def)
qed

theorem ByteRelay_complete_witness:
  "\<exists>n r. byte_runs (byte_action True (\<lambda>_ _. 1)) demo_relay n r \<and> br_at r Client = CloseDst \<and> reported r Client = 1"
proof -
  let ?act = "byte_action True (\<lambda>_ _. 1)" and ?ss = "[Client, Client, Client]"
  let ?r = "the (byte_schedule (byte_action True (\<lambda>_ _. 1)) demo_relay [Client, Client, Client])"
  have "byte_schedule ?act demo_relay ?ss \<noteq> None" "br_at ?r Client = CloseDst" "undisturbed ?r Client"
    by (simp_all add: demo_eval)
  with ByteRelay_complete [OF demo_run [OF this(1), unfolded demo_relay_def]] demo_run [OF this(1)]
  show ?thesis by (intro exI [of _ "length ?ss"] exI [of _ ?r]) (simp add: demo_relay_def demo_end_def)
qed

text \<open>The end of one direction cuts the other short: a client that sends its request and shuts down its
  sending side does not receive the reply, although the server has sent it and the client still listens.\<close>

theorem ByteRelay_half_close:
  "\<exists>n r. byte_runs (byte_action report (\<lambda>_ _. 1)) demo_relay n r \<and> byte_done r \<and>
     sent (rwc_out (br_end r Server)) = [1] \<and> sent (rwc_out (br_end r Client)) = [] \<and>
     pending (rwc_in (br_end demo_relay Server)) = [9]"
proof -
  let ?act = "byte_action report (\<lambda>_ _. 1)"
  obtain r1 where 1: "byte_schedule ?act demo_relay [Client, Client, Client, Client, Client] = Some r1"
    "br_at r1 = (\<lambda>s. AtRead)(Client := Ended)" "rwc_closed (br_end r1 Client)" "rwc_closed (br_end r1 Server)"
    "sent (rwc_out (br_end r1 Server)) = [1]" "sent (rwc_out (br_end r1 Client)) = []"
    by (simp add: demo_eval)
  obtain r2 where 2: "byte_schedule ?act r1 [Server, Server, Server] = Some r2" "byte_done r2"
    "sent (rwc_out (br_end r2 Server)) = [1]" "sent (rwc_out (br_end r2 Client)) = []"
    using 1(2-) by (simp add: byte_action_def rwc_Read_def rwc_Close_def byte_done_def)
  have "pending (rwc_in (br_end demo_relay Server)) = [9]" by (simp add: demo_relay_def byte_relay_start_def demo_end_def)
  with byte_schedule_runs [OF byte_schedule_runs [OF byte_none 1(1)] 2(1)] 2(2-) show ?thesis by blast
qed

end
