(* ===== verification/Examples.thy ===== *)
theory Examples
  imports Proxy_Run Transport Batch Byte_Relay
begin

text \<open>
  The programs under \<^verbatim>\<open>examples\<close>: \<^verbatim>\<open>simpleclient\<close>, \<^verbatim>\<open>simpleserver\<close>, \<^verbatim>\<open>kcpdemo\<close>, \<^verbatim>\<open>quicdemo\<close> and
  \<^verbatim>\<open>batchbench\<close>, over the models of the packages they call. Printing is left out but for the last line of the
  two echo clients. The theorems: what the client sends is the handshake it means, the server is taken down by
  its first client, the echo returns what it is sent, \<^verbatim>\<open>kcpdemo\<close> panics and \<^verbatim>\<open>batchbench\<close> blocks.
\<close>

section \<open>simpleclient\<close>

definition buildHandshake :: "i32 \<Rightarrow> gostring \<Rightarrow> u16 \<Rightarrow> i32 \<Rightarrow> Packet res" where
  "buildHandshake protocolVersion host port nextState =
     (let data = []; buf = replicate MaxVarIntLen 0 in
      case PutVarInt buf protocolVersion of
        Inl e \<Rightarrow> Inl e
      | Inr (buf, n) \<Rightarrow>
          let data = data @ take n buf in
          case PutVarInt buf (word_of_nat (length host)) of
            Inl e \<Rightarrow> Inl e
          | Inr (buf, n) \<Rightarrow>
              let data = data @ take n buf;
                  data = data @ host;
                  data = data @ [ucast (drop_bit 8 port), ucast port]
              in case PutVarInt buf nextState of
                   Inl e \<Rightarrow> Inl e
                 | Inr (buf, n) \<Rightarrow> Inr \<lparr>pkt_ID = 0, pkt_Data = data @ take n buf\<rparr>)"

text \<open>
  How a program ends: \<^verbatim>\<open>log.Fatal\<close>, which exits without running deferred calls, a panic, or the return of
  \<^verbatim>\<open>main\<close> with what it has printed last.
\<close>

datatype prog_end = Fatal go_err | Crashed | Printed gostring

text \<open>\<open>tcp\<close> is \<^verbatim>\<open>TCPTransport\<close> with its dial timeout. The result has the connection, if there was one.\<close>

definition simpleclient_main ::
  "zlib \<Rightarrow> (nat \<Rightarrow> ('n, 'l) transport) \<Rightarrow> mem \<Rightarrow> 'n \<Rightarrow> prog_end \<times> MineConnWrapper option \<times> mem \<times> 'n" where
  "simpleclient_main z tcp m n =
     (let dialer = NewDialer tcp (Some (tcp 0)) in
      case DialMinecraft dialer (bytes_of ''localhost:25565'') n of
        (Inl e, n) \<Rightarrow> (Fatal e, None, m, n)
      | (Inr conn, n) \<Rightarrow>
          case buildHandshake 765 (bytes_of ''localhost'') 25565 2 of
            Inl e \<Rightarrow> (Crashed, Some conn, m, n)
          | Inr hs \<Rightarrow>
              case wrapper_WritePacket z hs m conn of
                (Some e, m, conn) \<Rightarrow> (Fatal e, Some conn, m, n)
              | (None, m, conn) \<Rightarrow> (Printed (bytes_of ''Handshake sent''), Some (close_wrapper conn), m, n))"

section \<open>simpleserver\<close>

text \<open>\<^verbatim>\<open>main\<close> up to \<^verbatim>\<open>p.Start()\<close>, which \<open>proxy_step\<close> takes over.\<close>

definition simpleserver_main :: "(nat \<Rightarrow> ('n, 'l) transport) \<Rightarrow> 'n \<Rightarrow> (prog_end + ('n, 'l) Proxy) \<times> 'n" where
  "simpleserver_main tcp n =
     (let tcpTr = tcp 0;
          ln = NewListener (Some tcpTr)
      in case Listener_Listen (bytes_of '':25577'') ln n of
           (Some e, ln, n) \<Rightarrow> (Inl (Fatal e), n)
         | (None, ln, n) \<Rightarrow>
             let dialer = NewDialer tcp (Some tcpTr) in
             (Inr (NewProxy ln dialer), n))"

section \<open>kcpdemo and quicdemo\<close>

lemma echo_read_less:
  assumes "rwc_Read piece 32768 c = ((bs, err), c1)"
  shows "(bs = [] \<longrightarrow> err \<noteq> None) \<and> (bs \<noteq> [] \<longrightarrow> length (pending (rwc_in c1)) < length (pending (rwc_in c)))"
  using assms by (cases rule: rwc_Read_cases [of piece 32767 c]) auto

text \<open>
  \<^verbatim>\<open>io.Copy(c, c)\<close>: what is read is written back, until the connection ends or a call fails. \<open>piece\<close> gives the
  sizes in which the network delivers.
\<close>

function echo_copy :: "(nat \<Rightarrow> inconn \<Rightarrow> nat) \<Rightarrow> rwc \<Rightarrow> rwc" where
  "echo_copy piece c =
     (case rwc_Read piece 32768 c of ((bs, err), c1) \<Rightarrow>
        if bs \<noteq> [] then
          (case rwc_Write bs c1 of ((_, werr), c2) \<Rightarrow>
             if werr \<noteq> None \<or> err \<noteq> None then c2 else echo_copy piece c2)
        else if err \<noteq> None then c1 else echo_copy piece c1)"
  by pat_completeness auto

termination
proof (relation "measure (\<lambda>(piece, c). length (pending (rwc_in c)))", simp)
  fix piece :: "nat \<Rightarrow> inconn \<Rightarrow> nat" and c x c1 bs err y c2 k werr
  assume "(x, c1) = rwc_Read piece 32768 c" "(bs, err) = x" "bs \<noteq> []" "(y, c2) = rwc_Write bs c1"
  then show "((piece, c2), (piece, c)) \<in> measure (\<lambda>(piece, c). length (pending (rwc_in c)))"
    using echo_read_less [of piece c bs err c1] rwc_Write_frame [of bs c1 y c2] by auto
next
  fix piece :: "nat \<Rightarrow> inconn \<Rightarrow> nat" and c x c1 and bs :: "byte list" and err
  assume "(x, c1) = rwc_Read piece 32768 c" "(bs, err) = x" "\<not> bs \<noteq> []" "\<not> err \<noteq> None"
  then show "((piece, c1), (piece, c)) \<in> measure (\<lambda>(piece, c). length (pending (rwc_in c)))"
    using echo_read_less [of piece c bs err c1] by auto
qed

declare echo_copy.simps [simp del]

definition echo :: "(nat \<Rightarrow> inconn \<Rightarrow> nat) \<Rightarrow> rwc \<Rightarrow> rwc" where
  "echo piece c = rwc_Close (echo_copy piece c)"

text \<open>The two servers: \<^verbatim>\<open>Listen\<close>, and a round of the accept loop, which starts an echo on the connection.\<close>

definition demo_Listen :: "('n, 'l) Listener \<Rightarrow> gostring \<Rightarrow> 'n \<Rightarrow> (prog_end + ('n, 'l) Listener) \<times> 'n" where
  "demo_Listen ln addr n =
     (case Listener_Listen addr ln n of
        (Some Panic, ln, n) \<Rightarrow> (Inl Crashed, n)
      | (Some e, ln, n) \<Rightarrow> (Inl (Fatal e), n)
      | (None, ln, n) \<Rightarrow> (Inr ln, n))"

definition demo_round :: "(nat \<Rightarrow> inconn \<Rightarrow> nat) \<Rightarrow> ('n, 'l) Listener \<Rightarrow> 'n \<Rightarrow> (prog_end + rwc) \<times> 'n" where
  "demo_round piece ln n =
     (case Listener_Accept ln n of
        (Inl e, n) \<Rightarrow> (Inl (Fatal e), n)
      | (Inr conn, n) \<Rightarrow> (Inr (echo piece (rwc.truncate (mw_Conn conn))), n))"

text \<open>The two clients: a message is sent, one \<^verbatim>\<open>Read\<close> fills a buffer of its length, and the buffer is printed.\<close>

definition demo_exchange :: "(nat \<Rightarrow> inconn \<Rightarrow> nat) \<Rightarrow> gostring \<Rightarrow> rwc \<Rightarrow> prog_end \<times> rwc" where
  "demo_exchange piece text c =
     (case rwc_Write text c of
        ((_, Some e), c) \<Rightarrow> (Fatal e, c)
      | ((_, None), c) \<Rightarrow>
          let buf = replicate (length text) 0 in
          case rwc_Read piece (length buf) c of
            ((_, Some e), c) \<Rightarrow> (Fatal e, c)
          | ((bs, None), c) \<Rightarrow> (Printed (copy_at buf 0 bs), rwc_Close c))"

definition demo_client ::
  "(nat \<Rightarrow> inconn \<Rightarrow> nat) \<Rightarrow> ('n, 'l) Dialer \<Rightarrow> gostring \<Rightarrow> gostring \<Rightarrow> 'n \<Rightarrow> prog_end \<times> 'n" where
  "demo_client piece dialer addr text n =
     (case Dialer_Dial dialer addr n of
        (Inl e, n) \<Rightarrow> (Fatal e, n)
      | (Inr conn, n) \<Rightarrow> (fst (demo_exchange piece text (rwc.truncate conn)), n))"

definition kcpServer :: "gostring \<Rightarrow> 'n \<Rightarrow> (prog_end + ('n, 'l) Listener) \<times> 'n" where
  "kcpServer addr n = demo_Listen (NewListener None) addr n"

definition kcpClient ::
  "(nat \<Rightarrow> inconn \<Rightarrow> nat) \<Rightarrow> (nat \<Rightarrow> ('n, 'l) transport) \<Rightarrow> gostring \<Rightarrow> 'n \<Rightarrow> prog_end \<times> 'n" where
  "kcpClient piece tcp addr n =
     demo_client piece (NewDialer tcp None) addr (bytes_of ''Hello minegate over KCP!'') n"

text \<open>
  \<^verbatim>\<open>generateTLSConfig\<close>: the key, the certificate, their PEM forms and the pair made of them come from the crypto
  libraries (\<open>tlsgen\<close>). Their errors are ignored: without a key the program panics, without a certificate it
  goes on with no bytes or with the empty pair (\<open>tg_zero\<close>).
\<close>

record ('k, 'c) tlsgen =
  tg_key :: "'k res"
  tg_create :: "'k \<Rightarrow> byte list res"
  tg_certPEM :: "byte list \<Rightarrow> byte list"
  tg_keyPEM :: "'k \<Rightarrow> byte list"
  tg_pair :: "byte list \<Rightarrow> byte list \<Rightarrow> 'c res"
  tg_zero :: 'c

definition generateTLSConfig :: "('k, 'c) tlsgen \<Rightarrow> (tls_config \<times> 'c list) res" where
  "generateTLSConfig g =
     (case tg_key g of
        Inl e \<Rightarrow> Inl Panic
      | Inr key \<Rightarrow>
          let certDER = (case tg_create g key of Inl e \<Rightarrow> [] | Inr d \<Rightarrow> d);
              certPEM = tg_certPEM g certDER;
              keyPEM = tg_keyPEM g key;
              cert = (case tg_pair g certPEM keyPEM of Inl e \<Rightarrow> tg_zero g | Inr c \<Rightarrow> c)
          in Inr (\<lparr>tc_InsecureSkipVerify = False, tc_NextProtos = [''minegate'']\<rparr>, [cert]))"

text \<open>\<open>quic\<close> is the QUIC transport as a value of the interface, with the certificates of its configuration.\<close>

definition quicServer ::
  "(QUICTransport \<Rightarrow> 'c list \<Rightarrow> ('n, 'l) transport) \<Rightarrow> ('k, 'c) tlsgen \<Rightarrow> gostring \<Rightarrow> 'n
     \<Rightarrow> (prog_end + ('n, 'l) Listener) \<times> 'n" where
  "quicServer quic g addr n =
     (case generateTLSConfig g of
        Inl e \<Rightarrow> (Inl Crashed, n)
      | Inr (cfg, certs) \<Rightarrow> demo_Listen (NewListener (Some (quic (NewQUICTransport (Some cfg)) certs))) addr n)"

definition quicClient_config :: tls_config where
  "quicClient_config = \<lparr>tc_InsecureSkipVerify = True, tc_NextProtos = [''minegate'']\<rparr>"

definition quicClient ::
  "(nat \<Rightarrow> inconn \<Rightarrow> nat) \<Rightarrow> (nat \<Rightarrow> ('n, 'l) transport) \<Rightarrow> (QUICTransport \<Rightarrow> 'c list \<Rightarrow> ('n, 'l) transport)
     \<Rightarrow> gostring \<Rightarrow> 'n \<Rightarrow> prog_end \<times> 'n" where
  "quicClient piece tcp quic addr n =
     demo_client piece (NewDialer tcp (Some (quic (NewQUICTransport (Some quicClient_config)) []))) addr
       (bytes_of ''Hello minegate over QUIC!'') n"

text \<open>
  The two \<^verbatim>\<open>main\<close>s start the server, give it half a second and run the client; the server's goroutine ends the
  whole program when it panics or fails before that.
\<close>

definition demo_main ::
  "(gostring \<Rightarrow> 'n \<Rightarrow> (prog_end + ('n, 'l) Listener) \<times> 'n) \<Rightarrow> (gostring \<Rightarrow> 'n \<Rightarrow> prog_end \<times> 'n) \<Rightarrow> 'n \<Rightarrow> prog_end \<times> 'n" where
  "demo_main server client n =
     (case server (bytes_of '':9000'') n of
        (Inl e, n) \<Rightarrow> (e, n)
      | (Inr ln, n) \<Rightarrow> client (bytes_of ''localhost:9000'') n)"

definition kcpdemo_main ::
  "(nat \<Rightarrow> inconn \<Rightarrow> nat) \<Rightarrow> (nat \<Rightarrow> ('n, 'l) transport) \<Rightarrow> 'n \<Rightarrow> prog_end \<times> 'n" where
  "kcpdemo_main piece tcp = demo_main (kcpServer :: _ \<Rightarrow> _ \<Rightarrow> (_ + ('n, 'l) Listener) \<times> _) (kcpClient piece tcp)"

definition quicdemo_main ::
  "(nat \<Rightarrow> inconn \<Rightarrow> nat) \<Rightarrow> (nat \<Rightarrow> ('n, 'l) transport) \<Rightarrow> (QUICTransport \<Rightarrow> 'c list \<Rightarrow> ('n, 'l) transport)
     \<Rightarrow> ('k, 'c) tlsgen \<Rightarrow> 'n \<Rightarrow> prog_end \<times> 'n" where
  "quicdemo_main piece tcp quic g = demo_main (quicServer quic g) (quicClient piece tcp quic)"

section \<open>batchbench\<close>

text \<open>
  One end of a \<^verbatim>\<open>net.Pipe\<close>, which has no buffer: a \<^verbatim>\<open>Write\<close> returns when the other end has read everything, and
  blocks for ever when nobody reads there.
\<close>

record pipe_end =
  pe_read :: bool
  pe_got :: "byte list"
  pe_blocked :: bool

definition pipe_Write :: "pipe_end writer" where
  "pipe_Write b p =
     (if pe_read p then ((length b, None), p\<lparr>pe_got := pe_got p @ b\<rparr>) else ((0, None), p\<lparr>pe_blocked := True\<rparr>))"

definition bench_packet :: Packet where
  "bench_packet = \<lparr>pkt_ID = 0, pkt_Data = replicate 100 0\<rparr>"

text \<open>The first loop (\<open>None\<close>: it blocks) and the second, which both ignore the errors of \<^verbatim>\<open>WritePacket\<close>.\<close>

fun bench_normal :: "nat \<Rightarrow> zlib \<Rightarrow> mem \<Rightarrow> pipe_end \<Rightarrow> (mem \<times> pipe_end) option" where
  "bench_normal 0 z m p = Some (m, p)"
| "bench_normal (Suc k) z m p =
     (case WritePacket z (-1) pipe_Write bench_packet m p of
        (_, m, p) \<Rightarrow> if pe_blocked p then None else bench_normal k z m p)"

fun bench_batched :: "nat \<Rightarrow> zlib \<Rightarrow> mem \<Rightarrow> outconn BatchWriter \<Rightarrow> mem \<times> outconn BatchWriter" where
  "bench_batched 0 z m bw = (m, bw)"
| "bench_batched (Suc k) z m bw =
     (case WritePacket z (-1) (BatchWriter_Write conn_Write) bench_packet m bw of (_, m, bw) \<Rightarrow> bench_batched k z m bw)"

text \<open>
  The second pipe is drained by a goroutine of its own, so that writing to it never blocks or fails: a connection
  that takes everything. \<open>Inl\<close>: the program has panicked, \<open>None\<close>: it is blocked.
\<close>

definition batchbench_main :: "zlib \<Rightarrow> mem \<Rightarrow> (go_err + mem \<times> outconn BatchWriter) option" where
  "batchbench_main z m =
     (case bench_normal 10000 z m \<lparr>pe_read = False, pe_got = [], pe_blocked = False\<rparr> of
        None \<Rightarrow> None
      | Some (m, _) \<Rightarrow>
          Some (case NewBatchWriter \<lparr>sent = [], room = None, ofail = EOF\<rparr> 1000000 65536 (bufs m) of
            Inl e \<Rightarrow> Inl e
          | Inr (bw, bp) \<Rightarrow>
              case bench_batched 10000 z (m\<lparr>bufs := bp\<rparr>) bw of
                (m, bw) \<Rightarrow> Inr (m, snd (BatchWriter_Flush conn_Write bw))))"

section \<open>Properties\<close>

lemma buildHandshake_eq: "buildHandshake ver host port ns = BuildHandshake ver host port ns"
  by (simp add: buildHandshake_def BuildHandshake_def append_varint_def Let_def split: sum.splits prod.splits)

text \<open>The example client builds the same packet as the library's \<^verbatim>\<open>BuildHandshake\<close>, for all arguments; a run of
  it that gets a connection which takes everything ends well, sends exactly that packet, from which a server
  reads the host, the port and the login state, and closes the connection.\<close>

theorem simpleclient_sends:
  assumes "tr_Dial (tcp 0) (Some 30) (bytes_of ''localhost:25565'') n = (Inr c, n')" and "room (rwc_out c) = None"
  shows "buildHandshake ver host port ns = BuildHandshake ver host port ns \<and>
    (\<exists>hs w m'. simpleclient_main z tcp m n = (Printed (bytes_of ''Handshake sent''), Some w, m', n') \<and>
       buildHandshake 765 (bytes_of ''localhost'') 25565 2 = Inr hs \<and>
       sent (rwc_out (mw_Conn w)) = sent (rwc_out c) @ frame (payload hs) \<and> rwc_closed (mw_Conn w) \<and>
       ParseHandshake hs = Inr (bytes_of ''localhost'', 25565, StateLogin))"
proof -
  let ?w = "\<lparr>mw_Reader = -1, mw_Writer = -1, mw_Conn = c\<rparr>"
  have d: "DialMinecraft (NewDialer tcp (Some (tcp 0))) (bytes_of ''localhost:25565'') n = (Inr ?w, n')"
    using assms(1) by (simp add: DialMinecraft_def Dialer_Dial_def transport_Dial_def NewDialer_def)
  obtain hs where h: "BuildHandshake 765 (bytes_of ''localhost'') 25565 2 = Inr hs"
    "ParseHandshake hs = Inr (bytes_of ''localhost'', 25565, 2)"
    using Handshake_roundtrip [of "bytes_of ''localhost''" 765 25565 2] by auto
  obtain m' where w: "WritePacket z (-1) conn_Write hs m (rwc_out c) =
      (None, m', (rwc_out c)\<lparr>sent := sent (rwc_out c) @ frame (payload hs)\<rparr>)"
    using WritePacket_plain [of "-1" conn_Write hs m "rwc_out c" z] assms(2)
    by (cases "WritePacket z (-1) conn_Write hs m (rwc_out c)") (auto simp: sends_def conn_Write_def)
  then obtain w' where "wrapper_WritePacket z hs m ?w = (None, m', w')"
    "sent (rwc_out (mw_Conn w')) = sent (rwc_out c) @ frame (payload hs)"
    by (simp add: wrapper_WritePacket_def)
  with d h show ?thesis
    by (simp add: simpleclient_main_def buildHandshake_eq close_wrapper_def StateLogin_def)
qed

theorem simpleclient_sends_witness:
  "\<exists>w m'. simpleclient_main stored_zlib (\<lambda>_. list_transport) empty_mem [plain_conn []] =
     (Printed (bytes_of ''Handshake sent''), Some w, m', []) \<and> rwc_closed (mw_Conn w)"
proof -
  have 1: "tr_Dial ((\<lambda>_. list_transport) 0) (Some 30) (bytes_of ''localhost:25565'') [plain_conn []] = (Inr (plain_conn []), [])"
    by (simp add: list_transport_def)
  have "room (rwc_out (plain_conn [])) = None" by (simp add: plain_conn_def)
  from simpleclient_sends [OF 1 this, of 0 "[]" 0 0 stored_zlib empty_mem] show ?thesis by blast
qed

text \<open>The example server is taken down by its first client: with the default handler, a client on a connection
  without a \<^verbatim>\<open>Dial\<close> method that sends a well-formed handshake makes its goroutine, and with it the process, panic.\<close>

theorem simpleserver_taken_down:
  assumes "simpleserver_main tcp n = (Inr p, n')" and "client \<in> set (pr_serving S)" and "\<not> pr_crashed S"
    and "px_handler (pr_px S) = px_handler p" and "wc_Dial (mw_Conn client) = None"
    and "handleClient z client (pr_mem S) (pr_px S) = (Some (hc, e), client', m', p')"
  shows "proxy_step z S (S\<lparr>pr_crashed := True\<rparr>)"
proof -
  have "px_handler p = defaultHandler"
    using assms(1) by (auto simp: simpleserver_main_def NewProxy_def Let_def split: prod.splits option.splits)
  then have "e = defaultHandler hc" "wc_Dial (mw_Conn (hc_Client hc)) = None"
    using assms(4,5,6) by (auto simp: handleClient_def wrapper_ReadPacket_def Let_def split: sum.splits prod.splits)
  then have "e = HPanic" by (auto simp: defaultHandler_def split: sum.splits)
  with assms(2,3,6) show ?thesis by (blast intro: proxy_step.crash)
qed

lemma echo_copy_sent:
  assumes "\<not> rwc_closed c" and "room (rwc_out c) = None"
  shows "pending (rwc_in (echo_copy piece c)) = [] \<and> sent (rwc_out (echo_copy piece c)) = sent (rwc_out c) @ pending (rwc_in c)"
  using assms
proof (induction piece c rule: echo_copy.induct)
  case (1 piece c)
  show ?case
  proof (cases rule: rwc_Read_cases [of piece 32767 c])
    case (data bs c1)
    let ?c2 = "c1\<lparr>rwc_out := (rwc_out c1)\<lparr>sent := sent (rwc_out c1) @ bs\<rparr>\<rparr>"
    have w: "rwc_Write bs c1 = ((length bs, None), ?c2)"
      using data 1(3,4) by (simp add: rwc_Write_def conn_Write_def)
    have "echo_copy piece c = echo_copy piece ?c2" using data(1,2) w by (subst echo_copy.simps) simp
    with 1(1) [OF data(1) [simplified, symmetric] refl data(2) w [symmetric] refl] 1(3,4) data show ?thesis by simp
  next
    case (stop err)
    then have "echo_copy piece c = c" by (subst echo_copy.simps) simp
    with stop(2) 1(3) show ?thesis by simp
  qed
qed

text \<open>The echo of the two demonstration servers returns, whatever the sizes in which the network delivers, and has
  sent back everything that came in; a client whose message comes back prints as much of it as its one \<^verbatim>\<open>Read\<close>
  returned, and zero bytes for the rest.\<close>

theorem demo_echo:
  assumes "\<not> rwc_closed s" and "room (rwc_out s) = None" and "pending (rwc_in s) = text" and "text \<noteq> []"
    and "\<not> rwc_closed c" and "room (rwc_out c) = None"
    and "pending (rwc_in c) = drop (length (sent (rwc_out s))) (sent (rwc_out (echo piece s)))"
  shows "rwc_closed (echo piece s) \<and>
    (\<exists>k c'. 1 \<le> k \<and> k \<le> length text \<and> (length text \<le> piece' (length text) (rwc_in c) \<longrightarrow> k = length text) \<and>
       demo_exchange piece' text c = (Printed (take k text @ replicate (length text - k) 0), c') \<and>
       sent (rwc_out c') = sent (rwc_out c) @ text \<and> rwc_closed c')"
proof -
  let ?n = "length text" and ?c = "c\<lparr>rwc_out := (rwc_out c)\<lparr>sent := sent (rwc_out c) @ text\<rparr>\<rparr>"
  let ?k = "max 1 (min ?n (piece' ?n (rwc_in c)))"
  let ?c' = "?c\<lparr>rwc_in := (rwc_in c)\<lparr>pending := drop ?k text\<rparr>, rwc_closed := True\<rparr>"
  have p: "pending (rwc_in c) = text" using assms(7) echo_copy_sent [OF assms(1,2), of piece] assms(3) by (simp add: echo_def rwc_Close_def)
  have n: "1 \<le> ?n" using assms(4) by (simp add: Suc_le_eq)
  have w: "rwc_Write text c = ((?n, None), ?c)" using assms(5,6) by (simp add: rwc_Write_def conn_Write_def)
  have r: "rwc_Read piece' ?n ?c = ((take ?k text, None), ?c\<lparr>rwc_in := (rwc_in c)\<lparr>pending := drop ?k text\<rparr>\<rparr>)"
    using assms(4,5) p by (simp add: rwc_Read_def conn_Read_def Let_def)
  have k: "1 \<le> ?k" "?k \<le> ?n" using n by simp_all
  have "copy_at (replicate ?n 0) 0 (take ?k text) = take ?k text @ replicate (?n - ?k) 0"
    using k(2) by (simp add: copy_at_def)
  then have "demo_exchange piece' text c = (Printed (take ?k text @ replicate (?n - ?k) 0), ?c')"
    by (simp add: demo_exchange_def w r rwc_Close_def)
  moreover have "?n \<le> piece' ?n (rwc_in c) \<longrightarrow> ?k = ?n" using n by simp
  ultimately show ?thesis using k
    by (intro conjI exI [of _ ?k] exI [of _ ?c']) (simp_all add: echo_def rwc_Close_def)
qed

theorem demo_echo_witness:
  "\<exists>c'. demo_exchange (\<lambda>_ _. 9) [72, 105, 33] \<lparr>rwc_in = \<lparr>pending = [72, 105, 33], fin = EOF\<rparr>,
      rwc_out = \<lparr>sent = [], room = None, ofail = EOF\<rparr>, rwc_closed = False\<rparr> = (Printed [72, 105, 33], c') \<and>
    sent (rwc_out c') = [72, 105, 33]"
proof -
  let ?c = "\<lparr>rwc_in = \<lparr>pending = [72, 105, 33], fin = EOF\<rparr>, rwc_out = \<lparr>sent = [], room = None, ofail = EOF\<rparr>, rwc_closed = False\<rparr>"
  have "sent (rwc_out (echo (\<lambda>_ _. 2) ?c)) = [72, 105, 33]"
    using echo_copy_sent [of ?c "\<lambda>_ _. 2"] by (simp add: echo_def rwc_Close_def)
  with demo_echo [of ?c "[72, 105, 33]" ?c "\<lambda>_ _. 2" "\<lambda>_ _. 9"] show ?thesis by auto
qed

text \<open>\<^verbatim>\<open>kcpdemo\<close> does not run, and is not about KCP: its server panics on the \<^verbatim>\<open>nil\<close> transport at once, and its client
  dials over TCP.\<close>

theorem kcpdemo_panics:
  "kcpdemo_main piece tcp n = (Crashed, n) \<and>
   Dialer_Dial (NewDialer tcp None) addr n' = tr_Dial (tcp 30) (Some 30) addr n'"
  by (simp add: kcpdemo_main_def demo_main_def kcpServer_def demo_Listen_def Listener_Listen_def NewListener_def Dialer_Dial_def NewDialer_def
      transport_Dial_def)

text \<open>The two sides of \<^verbatim>\<open>quicdemo\<close> offer the same application protocol, so that TLS can agree on one.\<close>

theorem quicdemo_protocols:
  assumes "generateTLSConfig g = Inr (cfg, certs)"
  shows "tc_NextProtos (quic_tls (qt_TLSConfig (NewQUICTransport (Some cfg)))) =
      tc_NextProtos (quic_tls (qt_TLSConfig (NewQUICTransport (Some quicClient_config)))) \<and> length certs = 1"
  using assms
  by (auto simp: generateTLSConfig_def quicClient_config_def quic_tls_def NewQUICTransport_def Let_def split: sum.splits)

text \<open>\<^verbatim>\<open>batchbench\<close> blocks on its first packet, because nobody reads from its first pipe, and measures nothing.\<close>

theorem batchbench_blocks: "batchbench_main z m = None"
proof -
  let ?p = "\<lparr>pe_read = False, pe_got = [], pe_blocked = False\<rparr>"
  obtain e m' p' where w: "WritePacket z (-1) pipe_Write bench_packet m ?p = (e, m', p')" by (metis prod.exhaust)
  have "p' = snd (pipe_Write (frame (payload bench_packet)) ?p)"
    using WritePacket_plain [of "-1" pipe_Write bench_packet m ?p z] w by (simp add: sends_def)
  then have "pe_blocked p'" by (simp add: pipe_Write_def)
  then have "bench_normal (Suc k) z m ?p = None" for k using w by simp
  from this [of 9999] show ?thesis by (simp add: batchbench_main_def numeral_eq_Suc)
qed

text \<open>Its second half, taken alone, loses nothing: all packets are sent, one behind the other, after the flush.\<close>

lemma bench_batched_write:
  "write_packets z (-1) (BatchWriter_Write conn_Write) (replicate k bench_packet) m bw = (None, m', bw') \<Longrightarrow>
    bench_batched k z m bw = (m', bw')"
  by (induction k arbitrary: m bw) (auto split: prod.splits option.splits)

theorem bench_batched_complete:
  assumes "NewBatchWriter \<lparr>sent = [], room = None, ofail = EOF\<rparr> 1000000 65536 bp = Inr (bw, bp')" and "hid (bw_buf bw) = []"
  shows "sent (bw_dst (snd (BatchWriter_Flush conn_Write (snd (bench_batched k z m bw))))) =
    concat (replicate k (frame (payload bench_packet)))"
proof -
  have b: "bw_ok bw" "\<not> bw_closed bw" "bw_written bw = []"
    using assms by (auto simp: NewBatchWriter_def bw_ok_def bw_written_def split: sum.splits)
  obtain m' bw' where w: "write_packets z (-1) (BatchWriter_Write conn_Write) (replicate k bench_packet) m bw = (None, m', bw')"
    "bw_ok bw'" "bw_written bw' = frames z (-1) (replicate k bench_packet)"
    using write_packets_batch [OF b(1,2), of "replicate k bench_packet" z "-1" m] b(3) by (auto simp: frame_body_def)
  have "frames z (-1) (replicate k bench_packet) = concat (replicate k (frame (payload bench_packet)))"
    by (induction k) (simp_all add: frame_body_def)
  with bench_batched_write [OF w(1)] flushLocked_ok [OF w(2)] w(3) show ?thesis by (simp add: BatchWriter_Flush_def)
qed

end
