(* ===== verification/Spec2Isabelle.thy ===== *)
theory Spec2Isabelle
  imports Metrics Session Mux_Pair Forwarding Socks5 Websocket Protocol Extract Examples
begin

text \<open>
  A verification development for minegate, a Go library for proxies and tunnels that speak the Minecraft
  protocol, and for its code generator.

  \<^bold>\<open>The program.\<close> Packets are framed with a length in a variable number of bytes, optionally compressed and
  optionally encrypted. Package \<^verbatim>\<open>packet\<close> encodes numbers, protocol types and packets; \<^verbatim>\<open>compress\<close> and
  \<^verbatim>\<open>crypto\<close> provide compression and the stream cipher; \<^verbatim>\<open>internal\<close> the buffer pool they share. Package
  \<^verbatim>\<open>conn\<close> puts them together into \<^verbatim>\<open>MineConn\<close>, with a flow controller, a priority queue, a batching writer
  and metrics. Package \<^verbatim>\<open>tunnel\<close> multiplexes streams over one connection, relays packets or bytes between two
  connections, and dials and accepts through the transports of package \<^verbatim>\<open>transport\<close> (TCP, TLS, WebSocket,
  KCP, QUIC, SOCKS5). Package \<^verbatim>\<open>proxy\<close> accepts clients, reads and rewrites their handshake and forwards
  their identity. \<^verbatim>\<open>tools/mcproto\<close> generates the packet identifiers of \<^verbatim>\<open>protocol/packetid\<close> from a server
  archive.

  \<^bold>\<open>Conventions.\<close> Machine integers are words (\<^verbatim>\<open>VarInt\<close> is a 32-bit word read as signed, byte slices are
  lists of 8-bit words, Go strings are byte lists; in the code generator, where only text is handled, they
  are lists of characters). An operation that can fail returns \<open>'a res\<close>, an error on the left; a Go panic is
  the error \<open>Panic\<close>. A call that may block returns an option, \<open>None\<close> when it waits. State is passed
  explicitly: the pools (\<open>mem\<close>), the two directions of a network connection (\<open>inconn\<close>, \<open>outconn\<close>), a heap of
  stream objects for the multiplexer, an explicit memory for the cipher, where source and destination may
  overlap. Goroutines are step relations over a shared state, so that the theorems hold in every
  interleaving of the modelled steps; \<open>reaches\<close> are the states of a run, and the locale \<open>step_invariant\<close>,
  interpreted on every such system, carries its invariant along. Code outside the repository (zlib, block ciphers, RSA, SHA-1, HMAC,
  sockets, the QUIC, KCP and WebSocket libraries, HTTP, JSON and zip) is a parameter of the definitions that
  use it; what a theorem needs of it is a hypothesis of the theorem, for instance \<open>zlib_lossless\<close> or
  \<open>block_ok\<close>, and each such theorem is applied to a concrete instance in its witness. The order in which Go
  goes through a map, and the choice of a \<^verbatim>\<open>select\<close> among ready cases, are arguments too.

  \<^bold>\<open>Theories.\<close>

  \<^item> \<open>Go_Prelude\<close>, \<open>Go_IO\<close>: errors, results, slices, big-endian numbers, and the interfaces of package \<^verbatim>\<open>io\<close>.
    The contracts of readers and writers are the locales \<open>byte_source\<close> and \<open>byte_sink\<close>, interpreted on
    network connections, on \<^verbatim>\<open>internal.ByteReader\<close> and on \<^verbatim>\<open>conn.BatchWriter\<close>; \<open>step_invariant\<close> is the contract
    of an inductive invariant.
  \<^item> \<open>Internal_Helpers\<close> (\<^verbatim>\<open>internal/*.go\<close>): the buffer pool with the ownership of buffers (locale
    \<open>buffer_pool\<close>), the byte reader, skipping a number.
  \<^item> \<open>Varint\<close> (\<^verbatim>\<open>packet/varint.go\<close>): the unrolled encoders and the decoders, equal to a reference encoding
    (\<open>leb\<close>), with their bounds and their errors on every input.
  \<^item> \<open>Wire_Types\<close> (\<^verbatim>\<open>packet/types.go\<close>): round trips of the protocol types.
  \<^item> \<open>Compress\<close> (\<^verbatim>\<open>compress/*.go\<close>) and \<open>Packets\<close> (\<^verbatim>\<open>packet/packet.go\<close>): thresholds, pooled codecs, packet
    reader, packet writer and raw packets. The reader is specified for every byte stream by \<open>next_body\<close> and
    \<open>parse_body\<close>, the writer by \<open>frame\<close> and \<open>frame_body\<close>, independently of buffers and pools.
  \<^item> \<open>Cfb8\<close> (\<^verbatim>\<open>crypto/cfb8.go\<close>), \<open>Key_Exchange\<close> (\<^verbatim>\<open>crypto/keyexchange.go\<close>): the cipher over an explicit
    memory refines a cipher on byte lists, which decryption inverts; the server hash is the signed
    hexadecimal value of the digest.
  \<^item> \<open>Priority\<close>, \<open>Flow\<close>, \<open>Batch\<close>, \<open>Metrics\<close>, \<open>Conn\<close> (the files of \<^verbatim>\<open>conn\<close>): queues as refinements of
    abstract ones (locale \<open>pop_queue\<close>, interpreted on three of them), the flow controller with the interleaving of its callers, the batching writer as a sink,
    the statistics, and \<^verbatim>\<open>MineConn\<close>.
  \<^item> \<open>Session\<close>: two \<^verbatim>\<open>MineConn\<close> connected to each other, with switches of threshold and cipher, refine a
    pair of FIFO channels.
  \<^item> \<open>Relay\<close>, \<open>Byte_Relay\<close> (\<^verbatim>\<open>tunnel/relay.go\<close>): the packet relay, over the locale \<open>packet_endpoint\<close>
    interpreted on \<^verbatim>\<open>MineConn\<close>, and the byte relays, each with both goroutines.
  \<^item> \<open>Mux\<close> (\<^verbatim>\<open>tunnel/mux.go\<close>): frames, the two loops and the stream operations as one step relation, with its
    invariant; delivery of written data. \<open>Mux_Pair\<close>: two multiplexers on one connection, either of which may fail
    at any moment; what a stream delivers is a subsequence of what was written to its identifier at the other end.
  \<^item> \<open>Tunnel\<close> (\<^verbatim>\<open>tunnel/dialer.go\<close>, \<^verbatim>\<open>tunnel/listener.go\<close>), \<open>Handshake\<close>, \<open>Forwarding\<close>, \<open>Proxy\<close> (the files of
    \<^verbatim>\<open>proxy\<close>): from an accepted connection to the call of the handler, rewriting of handshakes, the three
    ways to forward a player's identity. \<open>Proxy_Run\<close>: \<^verbatim>\<open>Start\<close>, \<^verbatim>\<open>Stop\<close> and the goroutines of the clients together;
    the count of active clients, the end of \<^verbatim>\<open>Start\<close> and what \<^verbatim>\<open>Stop\<close> leaves behind.
  \<^item> \<open>Socks5\<close>, \<open>Transport\<close>, \<open>Websocket\<close> (the files of \<^verbatim>\<open>transport\<close>): the SOCKS5 negotiation byte by byte; the other
    transports as far as resources and settings go, with the locale \<open>clean_dial\<close> for dialling without
    leaks, interpreted on TCP, KCP and TLS over TCP; WebSocket connections over messages, and the listener with its
    HTTP server: the order of the connections it hands out, and what it keeps open.
  \<^item> \<open>Protocol\<close> (\<^verbatim>\<open>protocol/*.go\<close>): states and directions.
  \<^item> \<open>Classfile\<close>, \<open>Extract\<close> (\<^verbatim>\<open>tools/mcproto\<close>): the class file parser as the inverse of an encoder; mappings,
    extraction, the generated file and its agreement with the committed constants.
  \<^item> \<open>Examples\<close> (\<^verbatim>\<open>examples/*\<close>): the five example programs over the models of the packages.
  \<^item> This theory: the path of a client from dialling to the proxy's handler.

  Records, datatypes and functions carry the names of the source, with the type in front where a method name
  occurs more than once (\<open>MineConn_WritePacket\<close> is \<^verbatim>\<open>(*MineConn).WritePacket\<close>).

  \<^bold>\<open>Bounds and termination.\<close> Loops whose length the input bounds are structural recursions or have a
  termination proof with a measure (\<open>read_var_loop\<close>, \<open>readVarInt_loop\<close>, \<open>parse_pool\<close>, \<open>itoa_loop\<close>, \<open>echo_copy\<close>). Loops over
  a reader that may deliver nothing for ever, in \<^verbatim>\<open>io.ReadFull\<close> and in \<^verbatim>\<open>NBT.ReadFrom\<close>, are partial functions,
  and the theorems about them prove that they return. For the byte
  relays the number of steps of every run is bounded by \<open>steps_left\<close>, twice the bytes to copy plus six. There is no
  artificial fuel.

  \<^bold>\<open>What goes wrong.\<close> Where the code does not do what it means to, a theorem states what it does: raw reads of
  an encrypted connection (\<open>MineConn_ReadRawPacket_garbles\<close>), repeated keystream and decryption in place
  (\<open>Cfb8_short_keystream_reuse\<close>, \<open>Cfb8_decrypt_in_place_wrong\<close>), packets with a priority that are never sent
  (\<open>MineConn_priority_never_sent\<close>), the lost wake-up of the flow controller (\<open>FlowController_lost_wakeup\<close>),
  truncation in the batching writer (\<open>BatchWriter_truncates\<close>), colliding stream identifiers and lost data in
  the multiplexer (\<open>Mux_id_collision\<close>, \<open>Mux_early_data_lost\<close>, \<open>Mux_close_race\<close>), frames wrapped twice by the
  packet relay (\<open>Relay_reframes\<close>), replies lost by the byte relays (\<open>ByteRelay_half_close\<close>), the default
  handler of the proxy (\<open>defaultHandler_panics\<close>, \<open>simpleserver_taken_down\<close>), a client that \<^verbatim>\<open>Stop\<close> does not wait for
  (\<open>Stop_misses_client\<close>), partial replies in SOCKS5 (\<open>SOCKS5_short_read_accepts\<close>),
  leaks in QUIC (\<open>QUIC_Close_leaks\<close>), lost data on WebSocket connections (\<open>wsConn_loses_frame\<close>) and WebSocket
  listeners with TLS that never serve (\<open>WS_tls_never_serves\<close>), two example programs that cannot run
  (\<open>kcpdemo_panics\<close>, \<open>batchbench_blocks\<close>), class files
  that end early and misfiled packets in the generator (\<open>parseClass_short_panics\<close>, \<open>classifyClean_misfiles\<close>).

  \<^bold>\<open>Not modelled.\<close> Logging, contexts and their cancellation, the passage of time (a timeout is a number that is
  passed on, a deadline a call of the connection's method), the handling of HTTP requests before they reach the WebSocket listener, and the
  parsing of command-line flags. The operations of the
  multiplexer, of the queues and of the flow controller are atomic up to the steps of their relations: a
  critical section under a lock is one step, an atomic access outside a lock is a step of its own where a
  theorem depends on it (\<open>flow_step\<close>, \<open>Mux_close_race\<close>). Garbage collection of pools (\<^verbatim>\<open>sync.Pool\<close> may drop
  its content) is not modelled; no theorem depends on what the pools hold.
\<close>

section \<open>From the client to the handler\<close>

text \<open>C20: a client that dials through the tunnel and announces itself is served as it asked. When the dialled
  connection carries the handshake packet built for a host, a port and a next state, and the proxy accepts
  its other end, then serving it calls the handler with exactly that host, port and state, with the bytes
  behind the handshake still unread; afterwards the client's connection is closed and the proxy has as many
  active clients as before.\<close>

theorem proxy_serves_client:
  assumes "DialMinecraft d addr n1 = (Inr a, n1')" and "Start_round px n2 = (Serves b, px', n2')"
    and "BuildHandshake ver host port ns = Inr pkt" and "int (length host) + 22 \<le> MaxPacketSize"
    and "wrapper_WritePacket z pkt m a = (None, m', a')"
    and "pending (rwc_in (mw_Conn b)) =
      drop (length (sent (rwc_out (mw_Conn a)))) (sent (rwc_out (mw_Conn a'))) @ rest"
  shows "\<exists>hc client' m2' px''.
    handleClient z b m2 px' = (Some (hc, px_handler px hc), client', m2', px'') \<and>
    hc_Host hc = host \<and> hc_Port hc = port \<and> hc_State hc = ns \<and>
    pending (rwc_in (mw_Conn (hc_Client hc))) = rest \<and>
    rwc_closed (mw_Conn client') \<and> px_active px'' = px_active px"
proof -
  have l: "length host < 2 ^ 31" using assms(4) by (simp add: MaxPacketSize_def)
  have hs: "ParseHandshake pkt = Inr (host, port, ns)" "pkt_ID pkt = 0"
    using Handshake_roundtrip [OF l, of ver port ns] assms(3) by auto
  have "int (length (payload pkt)) \<le> MaxPacketSize"
    using assms(3,4) length_leb_i32 [of ver] length_leb_i32 [of ns] length_leb_i32 [of "word_of_nat (length host)"]
      length_leb_i32 [of 0] by (auto simp: BuildHandshake_bytes payload_def)
  have ac: "Listener_Accept (px_ln px) n2 = (Inr b, n2')" "px' = px\<lparr>px_active := px_active px + 1\<rparr>"
    using assms(2) by (auto simp: Start_round_def split: if_splits prod.splits sum.splits)
  obtain m2' b' where "wrapper_ReadPacket z m2 b = (Inr pkt, m2', b')" "pending (rwc_in (mw_Conn b')) = rest"
    using Tunnel_roundtrip [OF assms(1) ac(1) assms(5) \<open>int (length (payload pkt)) \<le> MaxPacketSize\<close> assms(6)] by blast
  with hs ac(2) show ?thesis by (simp add: handleClient_def close_wrapper_def Let_def)
qed

theorem proxy_serves_client_witness:
  "\<exists>hc e client' m2' px''.
    handleClient stored_zlib \<lparr>mw_Reader = -1, mw_Writer = -1, mw_Conn = plain_conn [7, 0, 5, 1, 97, 1, 2, 1, 9]\<rparr> empty_mem
      (NewProxy (NewListener (Some list_transport)) (NewDialer (\<lambda>_. list_transport) None)
         \<lparr>px_ln := \<lparr>li_transport = Some list_transport, li_open = Some (list_transport, ())\<rparr>, px_active := 1\<rparr>) =
      (Some (hc, e), client', m2', px'') \<and>
    hc_Host hc = [97] \<and> hc_Port hc = 0x102 \<and> hc_State hc = 1 \<and> pending (rwc_in (mw_Conn (hc_Client hc))) = [9]"
proof -
  let ?d = "NewDialer (\<lambda>_. list_transport) None" and ?pkt = "\<lparr>pkt_ID = 0, pkt_Data = [5, 1, 97, 1, 2, 1]\<rparr> :: Packet"
  let ?px = "(NewProxy (NewListener (Some list_transport)) ?d)\<lparr>px_ln := \<lparr>li_transport = Some list_transport, li_open = Some (list_transport, ())\<rparr>\<rparr>"
  let ?a = "\<lparr>mw_Reader = -1, mw_Writer = -1, mw_Conn = plain_conn []\<rparr>"
  let ?b = "\<lparr>mw_Reader = -1, mw_Writer = -1, mw_Conn = plain_conn [7, 0, 5, 1, 97, 1, 2, 1, 9]\<rparr>"
  have 1: "DialMinecraft ?d [] [plain_conn []] = (Inr ?a, [])"
    by (simp add: DialMinecraft_def Dialer_Dial_def transport_Dial_def NewDialer_def list_transport_def)
  have 2: "Start_round ?px [plain_conn [7, 0, 5, 1, 97, 1, 2, 1, 9]] = (Serves ?b, ?px\<lparr>px_active := 1\<rparr>, [])"
    by (simp add: Start_round_def Listener_Accept_def list_transport_def NewProxy_def)
  have 3: "BuildHandshake 5 [97] 0x102 1 = Inr ?pkt" by code_simp
  let ?x = "WritePacket stored_zlib (-1) conn_Write ?pkt empty_mem \<lparr>sent = [], room = None, ofail = EOF\<rparr>"
  have f: "frame (payload ?pkt) = [7, 0, 5, 1, 97, 1, 2, 1]" by (simp add: payload_def leb_i32 frame_single)
  obtain m' where "?x = (None, m', \<lparr>sent = [7, 0, 5, 1, 97, 1, 2, 1], room = None, ofail = EOF\<rparr>)"
    using WritePacket_plain [of "-1" conn_Write ?pkt empty_mem "\<lparr>sent = [], room = None, ofail = EOF\<rparr>" stored_zlib]
    by (cases ?x) (auto simp: sends_def f conn_Write_def)
  then obtain a' where 4: "wrapper_WritePacket stored_zlib ?pkt empty_mem ?a = (None, m', a')"
    "sent (rwc_out (mw_Conn a')) = [7, 0, 5, 1, 97, 1, 2, 1]"
    by (simp add: wrapper_WritePacket_def plain_conn_def)
  obtain hc client' m2' px'' where h: "handleClient stored_zlib ?b empty_mem (?px\<lparr>px_active := 1\<rparr>) =
      (Some (hc, px_handler ?px hc), client', m2', px'')"
    "hc_Host hc = [97]" "hc_Port hc = 0x102" "hc_State hc = 1" "pending (rwc_in (mw_Conn (hc_Client hc))) = [9]"
    using proxy_serves_client [OF 1 2 3 _ 4(1), of "[9]" empty_mem] 4(2)
    by (auto simp: plain_conn_def MaxPacketSize_def)
  then show ?thesis by auto
qed

end
